(* ===== verification/Prelude.thy ===== *)
theory Prelude
  imports Main "HOL-Library.Word" "HOL-Library.AList"
begin

text \<open>
  Shared vocabulary of the development: the machine integers and byte strings of the Rust
  sources, the integer operations of its standard library (checked and saturating
  arithmetic, big-endian conversion), slices with their bounds, monotonic time, and
  hash maps.

  A Rust \<open>HashMap\<close> is an association list with distinct keys; the order of the list stands
  for the iteration order, which Rust leaves unspecified. Lengths and indices of type
  \<open>usize\<close> are natural numbers; every fixed-width value that can wrap or saturate is a word.
\<close>

unbundle bit_operations_syntax

section \<open>Machine integers\<close>

type_synonym u8 = "8 word"
type_synonym u16 = "16 word"
type_synonym u32 = "32 word"
type_synonym u64 = "64 word"
type_synonym u128 = "128 word"
type_synonym bytes = "u8 list"

definition checked_add :: "'a::len word \<Rightarrow> 'a word \<Rightarrow> 'a word option" where
  "checked_add a b = (if unat a + unat b < 2 ^ LENGTH('a) then Some (a + b) else None)"

definition checked_sub :: "'a::len word \<Rightarrow> 'a word \<Rightarrow> 'a word option" where
  "checked_sub a b = (if b \<le> a then Some (a - b) else None)"

definition saturating_add :: "'a::len word \<Rightarrow> 'a word \<Rightarrow> 'a word" where
  "saturating_add a b = (if unat a + unat b < 2 ^ LENGTH('a) then a + b else - 1)"

definition saturating_sub :: "'a::len word \<Rightarrow> 'a word \<Rightarrow> 'a word" where
  "saturating_sub a b = (if b \<le> a then a - b else 0)"

text \<open>\<open>T::try_from(n)\<close> on an unsigned target of the width of the result.\<close>

definition try_from :: "nat \<Rightarrow> 'a::len word option" where
  "try_from n = (if n < 2 ^ LENGTH('a) then Some (of_nat n) else None)"

section \<open>Big-endian conversion\<close>

text \<open>\<open>be_bytes n v\<close> is the \<open>n\<close>-byte network-order form of \<open>v mod 256 ^ n\<close>.\<close>

fun be_bytes :: "nat \<Rightarrow> nat \<Rightarrow> bytes" where
  "be_bytes 0 v = []"
| "be_bytes (Suc n) v = be_bytes n (v div 256) @ [of_nat v]"

fun of_be :: "nat \<Rightarrow> bytes \<Rightarrow> nat" where
  "of_be acc [] = acc"
| "of_be acc (b # bs) = of_be (acc * 256 + unat b) bs"

definition to_be_16 :: "u16 \<Rightarrow> bytes" where
  "to_be_16 w = be_bytes 2 (unat w)"

definition to_be_32 :: "u32 \<Rightarrow> bytes" where
  "to_be_32 w = be_bytes 4 (unat w)"

definition from_be :: "bytes \<Rightarrow> 'a::len word" where
  "from_be bs = of_nat (of_be 0 bs)"

section \<open>Slices\<close>

definition slice_get :: "'a list \<Rightarrow> nat \<Rightarrow> 'a option" where
  "slice_get xs i = (if i < length xs then Some (xs ! i) else None)"

text \<open>\<open>xs.get(a..b)\<close>\<close>

definition slice_range :: "'a list \<Rightarrow> nat \<Rightarrow> nat \<Rightarrow> 'a list option" where
  "slice_range xs a b = (if a \<le> b \<and> b \<le> length xs then Some (take (b - a) (drop a xs)) else None)"

text \<open>\<open>xs[at..at + ys.len()].copy_from_slice(ys)\<close> for a range inside \<open>xs\<close>.\<close>

definition overwrite :: "'a list \<Rightarrow> nat \<Rightarrow> 'a list \<Rightarrow> 'a list" where
  "overwrite xs at ys = take at xs @ ys @ drop (at + length ys) xs"

section \<open>Monotonic time\<close>

text \<open>
  \<open>Instant\<close> and \<open>Duration\<close> count nanoseconds. \<open>Instant::checked_add\<close> fails past the last
  representable instant (a signed 64-bit count of seconds).
\<close>

type_synonym instant = nat
type_synonym duration = nat

definition instant_max :: instant where
  "instant_max = (2 ^ 63 - 1) * 10 ^ 9 + 999999999"

definition from_secs :: "nat \<Rightarrow> duration" where
  "from_secs s = s * 10 ^ 9"

definition as_secs :: "duration \<Rightarrow> nat" where
  "as_secs d = d div 10 ^ 9"

definition instant_add :: "instant \<Rightarrow> duration \<Rightarrow> instant option" where
  "instant_add t d = (if t + d \<le> instant_max then Some (t + d) else None)"

section \<open>Hash maps\<close>

type_synonym ('k, 'v) hash_map = "('k \<times> 'v) list"

abbreviation hm_get :: "('k, 'v) hash_map \<Rightarrow> 'k \<Rightarrow> 'v option" where
  "hm_get m k \<equiv> map_of m k"

abbreviation hm_insert :: "'k \<Rightarrow> 'v \<Rightarrow> ('k, 'v) hash_map \<Rightarrow> ('k, 'v) hash_map" where
  "hm_insert k v m \<equiv> AList.update k v m"

abbreviation hm_remove :: "'k \<Rightarrow> ('k, 'v) hash_map \<Rightarrow> ('k, 'v) hash_map" where
  "hm_remove k m \<equiv> AList.delete k m"

definition hm_ok :: "('k, 'v) hash_map \<Rightarrow> bool" where
  "hm_ok m \<longleftrightarrow> distinct (map fst m)"

definition hm_contains :: "('k, 'v) hash_map \<Rightarrow> 'k \<Rightarrow> bool" where
  "hm_contains m k \<longleftrightarrow> map_of m k \<noteq> None"

text \<open>\<open>retain\<close> with a predicate that reads the entry.\<close>

definition hm_retain :: "('k \<Rightarrow> 'v \<Rightarrow> bool) \<Rightarrow> ('k, 'v) hash_map \<Rightarrow> ('k, 'v) hash_map" where
  "hm_retain keep m = filter (\<lambda>(k, v). keep k v) m"

section \<open>Automation\<close>

named_theorems rust_simps \<open>bounds and conversions of machine integers\<close>

lemma unat_u8_lt [simp]: "unat (b :: u8) < 256"
  using unsigned_less [of b] by simp

lemma unat_u16_lt [simp]: "unat (w :: u16) < 65536"
  using unsigned_less [of w] by simp

lemma unat_u32_lt [simp]: "unat (w :: u32) < 4294967296"
  using unsigned_less [of w] by simp

lemma unat_and_mask: "unat (w AND mask n) = unat w mod 2 ^ n"
  by (simp only: unsigned_take_bit_eq take_bit_nat_def flip: take_bit_eq_mask)

lemma unat_not: "unat (NOT (w :: 'a::len word)) = 2 ^ LENGTH('a) - 1 - unat w"
proof -
  have "NOT w = - 1 - w" by (simp add: not_eq_complement)
  then show ?thesis
    by (simp add: unat_sub word_order.extremum unsigned_minus_1_eq_mask mask_eq_exp_minus_1)
qed

lemma unat_ucast_u8: "unat (ucast (w :: 'a::len word) :: u8) = unat w mod 256"
  by (simp add: unsigned_ucast_eq take_bit_nat_def)

lemma unat_ucast_u16: "unat (ucast (w :: 'a::len word) :: u16) = unat w mod 65536"
  by (simp add: unsigned_ucast_eq take_bit_nat_def)

lemma unat_checked_add:
  "checked_add a b = Some c \<Longrightarrow> unat c = unat a + unat b"
  by (auto simp: checked_add_def unat_word_ariths split: if_splits)

lemma checked_add_commute: "checked_add a b = checked_add b a"
  by (simp add: checked_add_def add.commute)

lemma checked_add_assoc:
  "Option.bind (checked_add a b) (\<lambda>ab. checked_add ab c)
     = Option.bind (checked_add b c) (checked_add a)"
  by (auto simp: checked_add_def unat_word_ariths add.assoc)

lemma unat_checked_sub:
  "checked_sub a b = Some c \<Longrightarrow> unat c = unat a - unat b \<and> b \<le> a"
  by (auto simp: checked_sub_def unat_sub split: if_splits)

lemma unat_saturating_sub: "unat (saturating_sub a b) = unat a - unat b"
  by (auto simp: saturating_sub_def unat_sub word_le_nat_alt not_le)

lemma unat_saturating_add:
  "unat (saturating_add a (b :: 'a::len word)) = min (unat a + unat b) (2 ^ LENGTH('a) - 1)"
  by (auto simp: saturating_add_def unat_word_ariths unsigned_minus_1_eq_mask mask_eq_exp_minus_1)

lemma saturating_add_ge: "a \<le> saturating_add a b"
proof -
  have "unat a < 2 ^ LENGTH('a)" by (rule unsigned_less)
  then have "unat a \<le> 2 ^ LENGTH('a) - 1" by linarith
  then show ?thesis by (simp add: word_le_nat_alt unat_saturating_add)
qed

lemma try_from_Some: "try_from n = Some (w :: 'a::len word) \<Longrightarrow> unat w = n"
  by (auto simp: try_from_def unat_of_nat split: if_splits)

subsection \<open>Big-endian conversion\<close>

lemma length_be_bytes [simp]: "length (be_bytes n v) = n"
  by (induction n v rule: be_bytes.induct) auto

lemma length_to_be_16 [simp]: "length (to_be_16 w) = 2"
  by (simp add: to_be_16_def)

lemma length_to_be_32 [simp]: "length (to_be_32 w) = 4"
  by (simp add: to_be_32_def)

lemma of_be_append: "of_be acc (xs @ ys) = of_be (of_be acc xs) ys"
  by (induction acc xs rule: of_be.induct) auto

lemma of_be_acc: "of_be acc bs = acc * 256 ^ length bs + of_be 0 bs"
proof (induction bs arbitrary: acc)
  case (Cons b bs)
  show ?case
    using Cons [of "acc * 256 + unat b"] Cons [of "unat b"] by (simp add: algebra_simps)
qed simp

lemma of_be_be_bytes: "of_be 0 (be_bytes n v) = v mod 256 ^ n"
proof (induction n v rule: be_bytes.induct)
  case (2 n v)
  have "v mod 256 ^ Suc n = v div 256 mod 256 ^ n * 256 + v mod 256"
    by (simp add: mod_mult2_eq mult.commute)
  with 2 show ?case by (simp add: of_be_append unat_of_nat)
qed simp

lemma of_be_lt: "of_be 0 bs < 256 ^ length bs"
proof (induction bs rule: rev_induct)
  case (snoc b bs)
  have "of_be 0 bs * 256 + unat b < (of_be 0 bs + 1) * 256"
    using unat_u8_lt [of b] by (simp del: unat_u8_lt)
  also have "\<dots> \<le> 256 ^ length bs * 256"
    using snoc by (intro mult_le_mono1) simp
  finally show ?case by (simp add: of_be_append algebra_simps)
qed simp

lemma be_bytes_of_be: "be_bytes (length bs) (of_be 0 bs) = bs"
proof (induction bs rule: rev_induct)
  case (snoc b bs)
  have "unat b < 256" by simp
  then have "(of_be 0 bs * 256 + unat b) div 256 = of_be 0 bs" by simp
  moreover have "(of_nat (of_be 0 bs * 256 + unat b) :: u8) = b"
    by (rule unsigned_word_eqI [where 'a = nat]) (simp only: unat_of_nat, simp)
  ultimately show ?case using snoc by (simp add: of_be_append)
qed simp

lemma to_be_16_pair: "to_be_16 w = [of_nat (unat w div 256), of_nat (unat w)]"
  unfolding to_be_16_def numeral_2_eq_2 be_bytes.simps by simp

lemma from_be_to_be_16 [simp]: "from_be (to_be_16 w) = w"
  by (intro unsigned_word_eqI [where 'a = nat])
    (simp add: from_be_def to_be_16_def of_be_be_bytes unat_of_nat del: be_bytes.simps)

lemma from_be_to_be_32 [simp]: "from_be (to_be_32 w) = w"
  by (intro unsigned_word_eqI [where 'a = nat])
    (simp add: from_be_def to_be_32_def of_be_be_bytes unat_of_nat del: be_bytes.simps)

lemma to_be_16_from_be: "length bs = 2 \<Longrightarrow> to_be_16 (from_be bs) = bs"
  using of_be_lt [of bs] be_bytes_of_be [of bs]
  by (simp add: from_be_def to_be_16_def unat_of_nat del: be_bytes.simps)

subsection \<open>Slices\<close>

lemma slice_get_Some [simp]: "slice_get xs i = Some x \<longleftrightarrow> i < length xs \<and> xs ! i = x"
  by (auto simp: slice_get_def)

lemma slice_get_None [simp]: "slice_get xs i = None \<longleftrightarrow> length xs \<le> i"
  by (auto simp: slice_get_def)

lemma slice_range_Some:
  "slice_range xs a b = Some ys \<longleftrightarrow> a \<le> b \<and> b \<le> length xs \<and> ys = take (b - a) (drop a xs)"
  by (auto simp: slice_range_def)

lemma slice_range_length: "slice_range xs a b = Some ys \<Longrightarrow> length ys = b - a"
  by (auto simp: slice_range_def split: if_splits)

lemma length_overwrite [simp]:
  "at + length ys \<le> length xs \<Longrightarrow> length (overwrite xs at ys) = length xs"
  by (simp add: overwrite_def)

lemma nth_overwrite:
  "at + length ys \<le> length xs \<Longrightarrow> i < length xs \<Longrightarrow>
   overwrite xs at ys ! i = (if at \<le> i \<and> i < at + length ys then ys ! (i - at) else xs ! i)"
  by (auto simp: overwrite_def nth_append min_def)

lemma take_drop_overwrite [simp]:
  "at + length ys \<le> length xs \<Longrightarrow> take (length ys) (drop at (overwrite xs at ys)) = ys"
  by (simp add: overwrite_def)

subsection \<open>Hash maps\<close>

lemma hm_ok_Nil [simp]: "hm_ok []"
  by (simp add: hm_ok_def)

lemma hm_ok_insert [simp, intro]: "hm_ok m \<Longrightarrow> hm_ok (hm_insert k v m)"
  by (simp add: hm_ok_def distinct_update)

lemma hm_ok_remove [simp, intro]: "hm_ok m \<Longrightarrow> hm_ok (hm_remove k m)"
  by (simp add: hm_ok_def distinct_delete)

lemma hm_get_insert [simp]: "hm_get (hm_insert k v m) = (hm_get m)(k \<mapsto> v)"
  by (rule update_conv')

lemma hm_get_remove [simp]: "hm_get (hm_remove k m) = (hm_get m)(k := None)"
  by (rule delete_conv')

lemma hm_ok_filter [simp, intro]: "hm_ok m \<Longrightarrow> hm_ok (filter P m)"
  unfolding hm_ok_def by (induction m) (auto simp: image_iff)

lemma hm_ok_retain [simp, intro]: "hm_ok m \<Longrightarrow> hm_ok (hm_retain keep m)"
  by (simp add: hm_retain_def)

lemma hm_get_retain:
  "hm_ok m \<Longrightarrow>
   hm_get (hm_retain keep m) k =
     (case hm_get m k of None \<Rightarrow> None | Some v \<Rightarrow> if keep k v then Some v else None)"
  unfolding hm_ok_def hm_retain_def
  by (induction m) (auto split: option.splits simp: map_of_eq_None_iff dest: map_of_SomeD)

lemma hm_get_None_iff: "hm_get m k = None \<longleftrightarrow> k \<notin> fst ` set m"
  by (simp add: map_of_eq_None_iff)

lemma length_hm_insert:
  "length (hm_insert k v m) = (if hm_get m k = None then Suc (length m) else length m)"
  by (induction m) auto

lemma hm_ok_card: "hm_ok m \<Longrightarrow> length m = card (dom (hm_get m))"
  unfolding hm_ok_def
  using distinct_card [of "map fst m"] by (simp add: dom_map_of_conv_image_fst)

lemma length_hm_remove:
  assumes "hm_ok m"
  shows "length (hm_remove k m) = (if hm_get m k = None then length m else length m - 1)"
proof -
  have "dom (hm_get (hm_remove k m)) = dom (hm_get m) - {k}"
    by (auto split: if_splits)
  then show ?thesis
    using assms by (auto simp: hm_ok_card hm_ok_remove domIff card_Diff_singleton_if)
qed

lemma length_hm_retain_le [simp]: "length (hm_retain keep m) \<le> length m"
  by (simp add: hm_retain_def)

end
