(* ===== verification/Demote.thy ===== *)
theory Demote
  imports Prelude
begin

text \<open>
  The demotion table of \<^verbatim>\<open>src/policy/demote.rs\<close>: the tiers of interception and their meet, the
  causes that lower a host's tier, the classification of handshake failures, and the per-host table
  of strikes with its pruning. The \<open>RwLock\<close> makes every call one step on the table.

  \<open>rustls\<close> errors and alerts are the cases the classification tells apart.
\<close>

section \<open>Tiers\<close>

datatype tier = Splice | Inspect | Rewrite

datatype intercepted_tier = InspectIntercepted | RewriteIntercepted

fun tier_rank :: "tier \<Rightarrow> nat" where
  "tier_rank Splice = 0"
| "tier_rank Inspect = 1"
| "tier_rank Rewrite = 2"

instantiation tier :: linorder
begin

definition less_eq_tier :: "tier \<Rightarrow> tier \<Rightarrow> bool" where
  "less_eq_tier a b \<longleftrightarrow> tier_rank a \<le> tier_rank b"

definition less_tier :: "tier \<Rightarrow> tier \<Rightarrow> bool" where
  "less_tier a b \<longleftrightarrow> tier_rank a < tier_rank b"

instance
proof
  fix a b :: tier
  assume "a \<le> b" and "b \<le> a"
  then show "a = b" by (cases a; cases b) (simp_all add: less_eq_tier_def)
qed (auto simp: less_eq_tier_def less_tier_def)

end

instance tier :: finite
proof
  have "(UNIV :: tier set) = {Splice, Inspect, Rewrite}" using tier.exhaust by auto
  then show "finite (UNIV :: tier set)" by (rule ssubst) simp
qed

definition TIER_TOP :: tier where "TIER_TOP = Rewrite"

definition INTERCEPTED_TOP :: intercepted_tier where "INTERCEPTED_TOP = RewriteIntercepted"

fun intercepted :: "tier \<Rightarrow> intercepted_tier option" where
  "intercepted Splice = None"
| "intercepted Inspect = Some InspectIntercepted"
| "intercepted Rewrite = Some RewriteIntercepted"

definition meet :: "tier \<Rightarrow> tier \<Rightarrow> tier" where
  "meet a b = min a b"

section \<open>Causes\<close>

datatype demotion =
  LeafRejected
| UpstreamRefusedProxy
| UpstreamUntrusted
| ProtocolRefused
| RewriteExhausted

definition ALL_DEMOTIONS :: "demotion list" where
  "ALL_DEMOTIONS = [LeafRejected, UpstreamRefusedProxy, UpstreamUntrusted, ProtocolRefused, RewriteExhausted]"

definition DEMOTION_COUNT :: nat where "DEMOTION_COUNT = length ALL_DEMOTIONS"

fun demotion_slot :: "demotion \<Rightarrow> nat" where
  "demotion_slot LeafRejected = 0"
| "demotion_slot UpstreamRefusedProxy = 1"
| "demotion_slot UpstreamUntrusted = 2"
| "demotion_slot ProtocolRefused = 3"
| "demotion_slot RewriteExhausted = 4"

fun demotion_tier :: "demotion \<Rightarrow> tier" where
  "demotion_tier LeafRejected = Splice"
| "demotion_tier UpstreamRefusedProxy = Splice"
| "demotion_tier UpstreamUntrusted = Splice"
| "demotion_tier ProtocolRefused = Splice"
| "demotion_tier RewriteExhausted = Inspect"

fun ttl :: "demotion \<Rightarrow> duration" where
  "ttl LeafRejected = from_secs (12 * (60 * 60))"
| "ttl UpstreamRefusedProxy = from_secs (12 * (60 * 60))"
| "ttl ProtocolRefused = from_secs (12 * (60 * 60))"
| "ttl UpstreamUntrusted = from_secs (5 * 60)"
| "ttl RewriteExhausted = from_secs (60 * 60)"

datatype standing = Unrestricted | Limited demotion

fun standing_tier :: "standing \<Rightarrow> tier" where
  "standing_tier Unrestricted = TIER_TOP"
| "standing_tier (Limited cause) = demotion_tier cause"

fun permits :: "standing \<Rightarrow> demotion + intercepted_tier" where
  "permits Unrestricted = Inr INTERCEPTED_TOP"
| "permits (Limited cause) =
     (case intercepted (demotion_tier cause) of None \<Rightarrow> Inl cause | Some t \<Rightarrow> Inr t)"

fun standing_cause :: "standing \<Rightarrow> demotion option" where
  "standing_cause Unrestricted = None"
| "standing_cause (Limited cause) = Some cause"

section \<open>Classification of handshake failures\<close>

datatype leg = ClientLeg | UpstreamLeg

datatype alert_description = AlertNoApplicationProtocol | AlertCloseNotify | AlertUserCanceled | AlertOther

datatype tls_error = NoApplicationProtocol | AlertReceived alert_description | OtherTlsError

datatype refusal = NoProtocol | Untrusted | Alert u8

text \<open>What an \<open>io::Error\<close> carries inside, as far as the downcasts tell it apart.\<close>

datatype inner_error = TlsInner tls_error | HandshakeInner "refusal option" | OtherInner

definition ALERT_CLOSE_NOTIFY :: u8 where "ALERT_CLOSE_NOTIFY = 0"
definition ALERT_USER_CANCELED :: u8 where "ALERT_USER_CANCELED = 90"
definition ALERT_NO_APPLICATION_PROTOCOL :: u8 where "ALERT_NO_APPLICATION_PROTOCOL = 120"

definition conclusive :: "alert_description \<Rightarrow> bool" where
  "conclusive alert \<longleftrightarrow> alert \<noteq> AlertCloseNotify \<and> alert \<noteq> AlertUserCanceled"

definition conclusive_alert :: "u8 \<Rightarrow> bool" where
  "conclusive_alert alert \<longleftrightarrow> alert \<noteq> ALERT_CLOSE_NOTIFY \<and> alert \<noteq> ALERT_USER_CANCELED"

definition terminating :: "tls_error \<Rightarrow> demotion option" where
  "terminating tls =
     (case tls of
        NoApplicationProtocol \<Rightarrow> Some ProtocolRefused
      | AlertReceived alert \<Rightarrow>
          (if alert = AlertNoApplicationProtocol then Some ProtocolRefused
           else if conclusive alert then Some LeafRejected else None)
      | OtherTlsError \<Rightarrow> None)"

definition originating :: "refusal \<Rightarrow> demotion option" where
  "originating r =
     (case r of
        NoProtocol \<Rightarrow> Some ProtocolRefused
      | Untrusted \<Rightarrow> Some UpstreamUntrusted
      | Alert alert \<Rightarrow>
          (if alert = ALERT_NO_APPLICATION_PROTOCOL then Some ProtocolRefused
           else if conclusive_alert alert then Some UpstreamRefusedProxy else None))"

definition classify :: "leg \<Rightarrow> inner_error option \<Rightarrow> demotion option" where
  "classify l error =
     (case error of
        None \<Rightarrow> None
      | Some inner \<Rightarrow>
          (case l of
             ClientLeg \<Rightarrow> (case inner of TlsInner tls \<Rightarrow> terminating tls | _ \<Rightarrow> None)
           | UpstreamLeg \<Rightarrow> (case inner of HandshakeInner (Some r) \<Rightarrow> originating r | _ \<Rightarrow> None)))"

section \<open>The table of strikes\<close>

definition STRIKES :: u8 where "STRIKES = 3"

definition PRUNE_AT :: nat where "PRUNE_AT = 1024"

record strike =
  sk_count :: u8
  sk_expiry :: "instant option"

definition strike_default :: strike where
  "strike_default = \<lparr>sk_count = 0, sk_expiry = None\<rparr>"

type_synonym expiries = "strike list"

record demotions =
  dm_hosts :: "(string, expiries) hash_map"
  dm_prune_at :: nat

definition demotions_new :: demotions where
  "demotions_new = \<lparr>dm_hosts = [], dm_prune_at = PRUNE_AT\<rparr>"

definition unlapsed :: "strike \<Rightarrow> instant \<Rightarrow> bool" where
  "unlapsed s now \<longleftrightarrow> (case sk_expiry s of None \<Rightarrow> False | Some e \<Rightarrow> now < e)"

definition live :: "strike \<Rightarrow> instant \<Rightarrow> bool" where
  "live s now \<longleftrightarrow> STRIKES \<le> sk_count s \<and> unlapsed s now"

text \<open>\<open>min_by_key\<close> keeps the first of equal minima.\<close>

fun min_by_tier :: "demotion list \<Rightarrow> demotion option" where
  "min_by_tier [] = None"
| "min_by_tier (c # cs) =
     (case min_by_tier cs of
        None \<Rightarrow> Some c
      | Some d \<Rightarrow> if demotion_tier c \<le> demotion_tier d then Some c else Some d)"

definition standing_of :: "expiries \<Rightarrow> instant \<Rightarrow> standing" where
  "standing_of expiries now =
     (case min_by_tier (filter (\<lambda>cause. live (expiries ! demotion_slot cause) now) ALL_DEMOTIONS) of
        None \<Rightarrow> Unrestricted
      | Some cause \<Rightarrow> Limited cause)"

definition standing :: "demotions \<Rightarrow> string \<Rightarrow> instant \<Rightarrow> standing" where
  "standing t host now =
     (case hm_get (dm_hosts t) host of
        None \<Rightarrow> Unrestricted
      | Some expiries \<Rightarrow> standing_of expiries now)"

definition prune :: "string \<Rightarrow> instant \<Rightarrow> demotions \<Rightarrow> demotions" where
  "prune host now t =
     (if dm_prune_at t \<le> length (dm_hosts t) \<and> \<not> hm_contains (dm_hosts t) host then
        (let hosts = hm_retain (\<lambda>_ expiries. list_ex (\<lambda>s. unlapsed s now) expiries) (dm_hosts t)
         in \<lparr>dm_hosts = hosts, dm_prune_at = max PRUNE_AT (min (length hosts * 2) (2 ^ 64 - 1))\<rparr>)
      else t)"

definition strike_again :: "demotion \<Rightarrow> instant \<Rightarrow> strike \<Rightarrow> strike" where
  "strike_again cause now s =
     (let count = (if unlapsed s now then sk_count s else 0)
      in \<lparr>sk_count = saturating_add count 1, sk_expiry = instant_add now (ttl cause)\<rparr>)"

definition demotions_record :: "string \<Rightarrow> demotion \<Rightarrow> instant \<Rightarrow> demotions \<Rightarrow> standing \<times> demotions" where
  "demotions_record host cause now t =
     (let t = prune host now t;
          expiries = (case hm_get (dm_hosts t) host of
                        None \<Rightarrow> replicate DEMOTION_COUNT strike_default
                      | Some e \<Rightarrow> e);
          at = demotion_slot cause;
          expiries = expiries[at := strike_again cause now (expiries ! at)]
      in (standing_of expiries now, t\<lparr>dm_hosts := hm_insert host expiries (dm_hosts t)\<rparr>))"

definition demotions_len :: "demotions \<Rightarrow> nat" where
  "demotions_len t = length (dm_hosts t)"

section \<open>The standing is the meet of the live causes\<close>

definition strikes_of :: "demotions \<Rightarrow> string \<Rightarrow> demotion \<Rightarrow> strike" where
  "strikes_of t host cause =
     (case hm_get (dm_hosts t) host of
        None \<Rightarrow> strike_default
      | Some expiries \<Rightarrow> expiries ! demotion_slot cause)"

lemma all_demotions: "cause \<in> set ALL_DEMOTIONS"
  by (cases cause) (simp_all add: ALL_DEMOTIONS_def)

lemma ALL_DEMOTIONS_slot: "ALL_DEMOTIONS ! demotion_slot cause = cause" "demotion_slot cause < DEMOTION_COUNT"
  by (cases cause; simp add: ALL_DEMOTIONS_def DEMOTION_COUNT_def)+

lemma demotion_slot_eq [simp]: "demotion_slot a = demotion_slot b \<longleftrightarrow> a = b"
  by (metis ALL_DEMOTIONS_slot(1))

lemma min_by_tier_None [simp]: "min_by_tier cs = None \<longleftrightarrow> cs = []"
  by (cases cs) (auto split: option.splits)

lemma min_by_tier_Some:
  "min_by_tier cs = Some d \<Longrightarrow> d \<in> set cs \<and> (\<forall>c \<in> set cs. demotion_tier d \<le> demotion_tier c)"
  by (induction cs arbitrary: d) (fastforce split: option.splits if_splits)+

lemma tier_le_top [simp]: "a \<le> TIER_TOP"
  by (cases a) (simp_all add: TIER_TOP_def less_eq_tier_def)

lemma standing_of_meet:
  "standing_tier (standing_of e now) =
     Min (insert TIER_TOP {demotion_tier c |c. live (e ! demotion_slot c) now})"
proof -
  let ?live = "filter (\<lambda>cause. live (e ! demotion_slot cause) now) ALL_DEMOTIONS"
  have tiers: "{demotion_tier c |c. live (e ! demotion_slot c) now} = demotion_tier ` set ?live"
    using all_demotions by auto
  show ?thesis
  proof (cases "min_by_tier ?live")
    case None
    then show ?thesis unfolding tiers by (simp add: standing_of_def)
  next
    case (Some d)
    have "Min (insert TIER_TOP (demotion_tier ` set ?live)) = demotion_tier d"
      using min_by_tier_Some [OF Some] by (intro Min_eqI) auto
    then show ?thesis unfolding tiers by (simp add: standing_of_def Some)
  qed
qed

lemma not_live_default [simp]: "\<not> live strike_default now" "\<not> unlapsed strike_default now"
  by (simp_all add: live_def unlapsed_def strike_default_def)

text \<open>
  The tier a host stands at is the meet of the tiers of its live causes, the top tier when it
  has none: the lowest tier any live evidence permits, never lower.
\<close>

theorem standing_is_meet:
  "standing_tier (standing t host now) =
     Min (insert TIER_TOP {demotion_tier c |c. live (strikes_of t host c) now})"
  by (auto simp: standing_def strikes_of_def standing_of_meet split: option.splits)

section \<open>Recording refines an unpruned table\<close>

text \<open>The reference keeps one strike per host and cause and never forgets one.\<close>

type_synonym strike_book = "string \<Rightarrow> demotion \<Rightarrow> strike"

definition book_record :: "string \<Rightarrow> demotion \<Rightarrow> instant \<Rightarrow> strike_book \<Rightarrow> strike_book" where
  "book_record host cause now r = r(host := (r host)(cause := strike_again cause now (r host cause)))"

definition book_standing :: "strike_book \<Rightarrow> string \<Rightarrow> instant \<Rightarrow> standing" where
  "book_standing r host now = standing_of (map (r host) ALL_DEMOTIONS) now"

definition demotions_ok :: "demotions \<Rightarrow> bool" where
  "demotions_ok t \<longleftrightarrow> hm_ok (dm_hosts t) \<and> (\<forall>e \<in> ran (hm_get (dm_hosts t)). length e = DEMOTION_COUNT)"

definition same_strike :: "instant \<Rightarrow> strike \<Rightarrow> strike \<Rightarrow> bool" where
  "same_strike now s s' \<longleftrightarrow> s = s' \<or> \<not> unlapsed s now \<and> \<not> unlapsed s' now"

definition agrees :: "instant \<Rightarrow> demotions \<Rightarrow> strike_book \<Rightarrow> bool" where
  "agrees now t r \<longleftrightarrow> demotions_ok t \<and> (\<forall>h c. same_strike now (strikes_of t h c) (r h c))"

lemma unlapsed_mono: "now \<le> now' \<Longrightarrow> unlapsed s now' \<Longrightarrow> unlapsed s now"
  by (auto simp: unlapsed_def split: option.splits)

lemma agrees_later: "now \<le> now' \<Longrightarrow> agrees now t r \<Longrightarrow> agrees now' t r"
  by (auto simp: agrees_def same_strike_def dest: unlapsed_mono)

lemma live_same: "same_strike now s s' \<Longrightarrow> live s now \<longleftrightarrow> live s' now"
  by (auto simp: same_strike_def live_def)

lemma strike_again_same: "same_strike now s s' \<Longrightarrow> strike_again cause now s = strike_again cause now s'"
  by (auto simp: same_strike_def strike_again_def)

lemma nth_book [simp]: "map f ALL_DEMOTIONS ! demotion_slot c = f c"
  using ALL_DEMOTIONS_slot [of c] by (simp add: DEMOTION_COUNT_def)

lemma standing_of_cong:
  "(\<And>c. live (e ! demotion_slot c) now \<longleftrightarrow> live (e' ! demotion_slot c) now) \<Longrightarrow> standing_of e now = standing_of e' now"
  by (simp add: standing_of_def)

lemma standing_default: "standing_of (map (\<lambda>_. strike_default) ALL_DEMOTIONS) now = Unrestricted"
  by (simp add: standing_of_def)

lemma agrees_standing:
  assumes "agrees now t r"
  shows "standing t host now = book_standing r host now"
proof -
  have "live (strikes_of t host c) now \<longleftrightarrow> live (r host c) now" for c
    using assms live_same by (simp add: agrees_def)
  then show ?thesis
    using standing_default [of now] standing_of_cong [of "map (\<lambda>_. strike_default) ALL_DEMOTIONS" now "map (r host) ALL_DEMOTIONS"]
    by (auto simp: standing_def book_standing_def strikes_of_def split: option.splits intro!: standing_of_cong)
qed

lemma prune_agrees:
  assumes "agrees now t r"
  shows "agrees now (prune host now t) r"
proof -
  let ?keep = "\<lambda>_ e. list_ex (\<lambda>s. unlapsed s now) e"
  define t' where "t' = t\<lparr>dm_hosts := hm_retain ?keep (dm_hosts t)\<rparr>"
  have ok: "hm_ok (dm_hosts t)" "\<And>h e. hm_get (dm_hosts t) h = Some e \<Longrightarrow> length e = DEMOTION_COUNT"
    using assms by (auto simp: agrees_def demotions_ok_def ran_def)
  have get: "hm_get (dm_hosts t') h = (case hm_get (dm_hosts t) h of None \<Rightarrow> None
      | Some e \<Rightarrow> if list_ex (\<lambda>s. unlapsed s now) e then Some e else None)" for h
    unfolding t'_def using hm_get_retain [OF ok(1)] by simp
  have "demotions_ok t'"
    using ok by (auto simp: demotions_ok_def ran_def get split: option.splits if_splits) (simp add: t'_def)
  moreover have "same_strike now (strikes_of t' h c) (r h c)" for h c
  proof (cases "strikes_of t' h c = strikes_of t h c")
    case False
    then obtain e where e: "hm_get (dm_hosts t) h = Some e" "\<not> list_ex (\<lambda>s. unlapsed s now) e"
      by (auto simp: strikes_of_def get split: option.splits if_splits)
    then have "\<not> unlapsed (strikes_of t h c) now" "strikes_of t' h c = strike_default"
      using ok(2) ALL_DEMOTIONS_slot(2) [of c] by (auto simp: strikes_of_def get list_ex_iff)
    moreover have "same_strike now (strikes_of t h c) (r h c)" using assms by (simp add: agrees_def)
    ultimately show ?thesis by (auto simp: same_strike_def)
  qed (use assms in \<open>simp add: agrees_def\<close>)
  ultimately have "agrees now t' r" by (simp add: agrees_def)
  moreover have "agrees now (t'\<lparr>dm_prune_at := n\<rparr>) r \<longleftrightarrow> agrees now t' r" for n
    by (simp add: agrees_def demotions_ok_def strikes_of_def)
  moreover have "prune host now t = t \<or> (\<exists>n. prune host now t = t'\<lparr>dm_prune_at := n\<rparr>)"
    by (cases t) (auto simp: prune_def t'_def Let_def)
  ultimately show ?thesis using assms by auto
qed

lemma record_agrees:
  assumes "agrees now t r" and "demotions_record host cause now t = (st, t')"
  shows "agrees now t' (book_record host cause now r)" and "st = standing t' host now"
proof -
  define p where "p = prune host now t"
  have p: "agrees now p r" unfolding p_def using assms(1) by (rule prune_agrees)
  define e where "e = (case hm_get (dm_hosts p) host of
      None \<Rightarrow> replicate DEMOTION_COUNT strike_default | Some e \<Rightarrow> e)"
  define e' where "e' = e[demotion_slot cause := strike_again cause now (e ! demotion_slot cause)]"
  have t': "t' = p\<lparr>dm_hosts := hm_insert host e' (dm_hosts p)\<rparr>" "st = standing_of e' now"
    using assms(2) by (simp_all add: demotions_record_def p_def e_def e'_def Let_def)
  have ok: "hm_ok (dm_hosts p)" "\<And>h e. hm_get (dm_hosts p) h = Some e \<Longrightarrow> length e = DEMOTION_COUNT"
    using p by (auto simp: agrees_def demotions_ok_def ran_def)
  then have len: "length e = DEMOTION_COUNT" by (auto simp: e_def split: option.splits)
  have old: "e ! demotion_slot c = strikes_of p host c" for c
    using ALL_DEMOTIONS_slot(2) [of c] by (simp add: e_def strikes_of_def split: option.splits)
  have got: "strikes_of t' h c = (if h = host \<and> c = cause then strike_again cause now (strikes_of p h c) else strikes_of p h c)"
    for h c
    using ALL_DEMOTIONS_slot(2) [of cause] len
    by (auto simp: t'(1) e'_def nth_list_update old) (simp_all add: strikes_of_def e'_def nth_list_update len old [unfolded strikes_of_def])
  have "demotions_ok t'"
    using ok len by (auto simp: demotions_ok_def t'(1) e'_def ran_def split: if_splits)
  moreover have "same_strike now (strikes_of t' h c) (book_record host cause now r h c)" for h c
    using p strike_again_same [of now "strikes_of p h c" "r h c" cause]
    by (auto simp: got book_record_def agrees_def) (simp add: same_strike_def)
  ultimately show "agrees now t' (book_record host cause now r)" by (simp add: agrees_def)
  show "st = standing t' host now" by (simp add: t' standing_def)
qed

text \<open>A run of recorded failures, oldest first.\<close>

type_synonym failure = "string \<times> demotion \<times> instant"

definition record_all :: "failure list \<Rightarrow> demotions \<Rightarrow> demotions" where
  "record_all fs t = fold (\<lambda>(h, c, at) t. snd (demotions_record h c at t)) fs t"

definition book_all :: "failure list \<Rightarrow> strike_book \<Rightarrow> strike_book" where
  "book_all fs r = fold (\<lambda>(h, c, at) r. book_record h c at r) fs r"

definition in_order :: "failure list \<Rightarrow> instant \<Rightarrow> bool" where
  "in_order fs now \<longleftrightarrow> sorted (map (\<lambda>(h, c, at). at) fs @ [now])"

lemma agrees_new: "agrees now demotions_new (\<lambda>_ _. strike_default)"
  by (simp add: agrees_def demotions_ok_def demotions_new_def strikes_of_def same_strike_def)

lemma record_all_agrees:
  assumes "in_order fs now"
  shows "agrees now (record_all fs demotions_new) (book_all fs (\<lambda>_ _. strike_default))"
  using assms
proof (induction fs arbitrary: now rule: rev_induct)
  case Nil
  then show ?case by (simp add: record_all_def book_all_def agrees_new)
next
  case (snoc f fs)
  obtain h c at where f: "f = (h, c, at)" by (cases f)
  have "in_order fs at" "at \<le> now" using snoc.prems by (simp_all add: in_order_def f sorted_append)
  let ?t = "record_all fs demotions_new"
  obtain st t' where step: "demotions_record h c at ?t = (st, t')" by (cases "demotions_record h c at ?t")
  have "agrees at t' (book_record h c at (book_all fs (\<lambda>_ _. strike_default)))"
    by (rule record_agrees(1) [OF snoc.IH [OF \<open>in_order fs at\<close>] step])
  then have "agrees now t' (book_record h c at (book_all fs (\<lambda>_ _. strike_default)))"
    using \<open>at \<le> now\<close> agrees_later by blast
  with step show ?case by (simp add: record_all_def book_all_def f)
qed

text \<open>
  C5. On a monotonic clock, pruning is invisible: after any sequence of recorded failures every host
  stands exactly where it would in a table that keeps every strike forever.
\<close>

theorem demotions_refine_book:
  assumes "in_order fs now"
  shows "standing (record_all fs demotions_new) host now = book_standing (book_all fs (\<lambda>_ _. strike_default)) host now"
  using record_all_agrees [OF assms] by (rule agrees_standing)

theorem demotions_refine_book_witness:
  "standing (record_all [(''a'', LeafRejected, 1), (''a'', LeafRejected, 2), (''a'', LeafRejected, 3)] demotions_new) ''a'' 4
     = Limited LeafRejected"
proof -
  have order: "in_order [(''a'', LeafRejected, 1), (''a'', LeafRejected, 2), (''a'', LeafRejected, 3)] 4"
    by (simp add: in_order_def)
  show ?thesis
    unfolding demotions_refine_book [OF order]
    by (simp add: book_standing_def book_all_def book_record_def standing_of_def ALL_DEMOTIONS_def live_def
        unlapsed_def strike_again_def strike_default_def instant_add_def instant_max_def from_secs_def
        STRIKES_def saturating_add_def)
qed

section \<open>Three strikes\<close>

definition failures_of :: "failure list \<Rightarrow> string \<Rightarrow> demotion \<Rightarrow> nat" where
  "failures_of fs host cause = length (filter (\<lambda>(h, c, at). h = host \<and> c = cause) fs)"

lemma book_count: "unat (sk_count (book_all fs (\<lambda>_ _. strike_default) h c)) \<le> failures_of fs h c"
proof (induction fs rule: rev_induct)
  case (snoc f fs)
  obtain h' c' at where f: "f = (h', c', at)" by (cases f)
  have "unat (sk_count (strike_again c' at s)) \<le> Suc (unat (sk_count s))" for s
    by (simp add: strike_again_def Let_def unat_saturating_add)
  with snoc show ?case
    by (auto simp: f book_all_def failures_of_def book_record_def intro: order_trans)
qed (simp add: book_all_def failures_of_def strike_default_def)

text \<open>
  Two failures of a cause never demote a host: while every cause has been observed fewer than
  three times for it, the host is unrestricted, whatever happened to other hosts.
\<close>

theorem two_strikes_unrestricted:
  assumes "in_order fs now" and "\<forall>cause. failures_of fs host cause < 3"
  shows "standing (record_all fs demotions_new) host now = Unrestricted"
proof -
  let ?r = "book_all fs (\<lambda>_ _. strike_default)"
  have "\<not> live (?r host c) now" for c
  proof -
    have "unat (sk_count (?r host c)) < 3" using book_count [of fs host c] assms(2) by (meson le_less_trans)
    then show ?thesis by (simp add: live_def STRIKES_def word_le_nat_alt)
  qed
  then have "book_standing ?r host now = Unrestricted" by (simp add: book_standing_def standing_of_def)
  then show ?thesis using agrees_standing [OF record_all_agrees [OF assms(1)]] by simp
qed

theorem two_strikes_unrestricted_witness:
  "standing (record_all [(''a'', LeafRejected, 1), (''b'', LeafRejected, 2), (''a'', LeafRejected, 3)] demotions_new) ''a'' 4
     = Unrestricted"
proof (rule two_strikes_unrestricted)
  show "in_order [(''a'', LeafRejected, 1), (''b'', LeafRejected, 2), (''a'', LeafRejected, 3)] 4"
    by (simp add: in_order_def)
  show "\<forall>cause. failures_of [(''a'', LeafRejected, 1), (''b'', LeafRejected, 2), (''a'', LeafRejected, 3)] ''a'' cause < 3"
    by (simp add: failures_of_def)
qed

section \<open>Evidence only lowers\<close>

text \<open>
  Recording a failure never raises the tier of any host, and the standing it returns is the
  host's standing afterwards, as long as the cause's lifetime ends on the clock.
\<close>

theorem record_only_lowers:
  assumes "in_order fs now" and "now + ttl cause \<le> instant_max"
    and "demotions_record host cause now (record_all fs demotions_new) = (st, t')"
  shows "standing_tier (standing t' h now) \<le> standing_tier (standing (record_all fs demotions_new) h now)
     \<and> st = standing t' host now"
proof -
  let ?t = "record_all fs demotions_new" and ?r = "book_all fs (\<lambda>_ _. strike_default)"
  note t = record_all_agrees [OF assms(1)]
  note t' = record_agrees [OF t assms(3)]
  have "0 < ttl cause" by (cases cause) (simp_all add: from_secs_def)
  then have again: "live (strike_again cause now s) now" if "live s now" for s
    using that assms(2) unat_saturating_add [of "sk_count s" 1]
    by (auto simp: live_def strike_again_def unlapsed_def instant_add_def STRIKES_def word_le_nat_alt split: option.splits)
  then have more: "live (?r h c) now \<Longrightarrow> live (book_record host cause now ?r h c) now" for c
    by (auto simp: book_record_def)
  have "standing_tier (book_standing (book_record host cause now ?r) h now) \<le> standing_tier (book_standing ?r h now)"
    unfolding book_standing_def standing_of_meet nth_book
    by (rule Min_antimono) (use more in auto)
  then show ?thesis using agrees_standing [OF t'(1)] agrees_standing [OF t] t'(2) by simp
qed

theorem record_only_lowers_witness:
  "let t = record_all [(''a'', RewriteExhausted, 1), (''a'', RewriteExhausted, 2)] demotions_new;
       (st, t') = demotions_record ''a'' RewriteExhausted 3 t
   in standing_tier (standing t' ''a'' 3) \<le> standing_tier (standing t ''a'' 3) \<and> st = standing t' ''a'' 3"
proof -
  let ?fs = "[(''a'', RewriteExhausted, 1), (''a'', RewriteExhausted, 2)]"
  have "in_order ?fs 3" "3 + ttl RewriteExhausted \<le> instant_max"
    by (simp_all add: in_order_def from_secs_def instant_max_def)
  from record_only_lowers [OF this prod.collapse [symmetric], of "''a''" "''a''"]
  show ?thesis by (simp only: Let_def split_beta)
qed

end
