(* ===== verification/Wire.thy ===== *)
theory Wire
  imports Prelude
begin

text \<open>
  The byte alphabet of \<^verbatim>\<open>src/wire.rs\<close>: the forward \<open>Reader\<close>, the append-only \<open>Writer\<close>, the
  fixed-capacity \<open>Bounded\<close> writer with its sticky overflow flag, and the RFC 1071 checksum.

  A reader that answers \<open>None\<close> is abandoned by every caller in the source, so the reading
  operations return the advanced reader only together with a value. The variable-length
  integers of RFC 9000 come from the \<open>octets\<close> crate and are a parameter of the operation
  that reads them.
\<close>

section \<open>Reader\<close>

record reader =
  rd_bytes :: bytes
  rd_at :: nat

definition reader_new :: "bytes \<Rightarrow> reader" where
  "reader_new bs = \<lparr>rd_bytes = bs, rd_at = 0\<rparr>"

definition reader_at :: "bytes \<Rightarrow> nat \<Rightarrow> reader option" where
  "reader_at bs a = (if a \<le> length bs then Some \<lparr>rd_bytes = bs, rd_at = a\<rparr> else None)"

definition reader_position :: "reader \<Rightarrow> nat" where
  "reader_position r = rd_at r"

definition reader_rest :: "reader \<Rightarrow> bytes" where
  "reader_rest r = drop (rd_at r) (rd_bytes r)"

definition reader_remaining :: "reader \<Rightarrow> nat" where
  "reader_remaining r = length (rd_bytes r) - rd_at r"

definition reader_is_empty :: "reader \<Rightarrow> bool" where
  "reader_is_empty r \<longleftrightarrow> reader_remaining r = 0"

definition reader_take :: "nat \<Rightarrow> reader \<Rightarrow> (bytes \<times> reader) option" where
  "reader_take n r =
     (case slice_range (reader_rest r) 0 n of
        None \<Rightarrow> None
      | Some taken \<Rightarrow> Some (taken, r\<lparr>rd_at := rd_at r + n\<rparr>))"

text \<open>\<open>array::<N>\<close> takes a fixed-size chunk and is \<open>take\<close> with the length in the type.\<close>

definition reader_array :: "nat \<Rightarrow> reader \<Rightarrow> (bytes \<times> reader) option" where
  "reader_array n r =
     (if n \<le> length (reader_rest r)
      then Some (take n (reader_rest r), r\<lparr>rd_at := rd_at r + n\<rparr>) else None)"

definition reader_skip :: "nat \<Rightarrow> reader \<Rightarrow> reader option" where
  "reader_skip n r = map_option snd (reader_take n r)"

definition reader_u8 :: "reader \<Rightarrow> (u8 \<times> reader) option" where
  "reader_u8 r = map_option (\<lambda>(bs, r'). (bs ! 0, r')) (reader_array 1 r)"

definition reader_u16 :: "reader \<Rightarrow> (u16 \<times> reader) option" where
  "reader_u16 r = map_option (\<lambda>(bs, r'). (from_be bs, r')) (reader_array 2 r)"

definition reader_u24 :: "reader \<Rightarrow> (u32 \<times> reader) option" where
  "reader_u24 r = map_option (\<lambda>(bs, r'). (from_be (0 # bs), r')) (reader_array 3 r)"

definition reader_u32 :: "reader \<Rightarrow> (u32 \<times> reader) option" where
  "reader_u32 r = map_option (\<lambda>(bs, r'). (from_be bs, r')) (reader_array 4 r)"

definition reader_u64 :: "reader \<Rightarrow> (u64 \<times> reader) option" where
  "reader_u64 r = map_option (\<lambda>(bs, r'). (from_be bs, r')) (reader_array 8 r)"

definition reader_varint ::
    "(bytes \<Rightarrow> (u64 \<times> nat) option) \<Rightarrow> reader \<Rightarrow> (u64 \<times> reader) option" where
  "reader_varint get_varint r =
     (case get_varint (reader_rest r) of
        None \<Rightarrow> None
      | Some (v, off) \<Rightarrow> Some (v, r\<lparr>rd_at := rd_at r + off\<rparr>))"

definition reader_vector_u8 :: "reader \<Rightarrow> (bytes \<times> reader) option" where
  "reader_vector_u8 r =
     (case reader_u8 r of None \<Rightarrow> None | Some (n, r') \<Rightarrow> reader_take (unat n) r')"

definition reader_vector_u16 :: "reader \<Rightarrow> (bytes \<times> reader) option" where
  "reader_vector_u16 r =
     (case reader_u16 r of None \<Rightarrow> None | Some (n, r') \<Rightarrow> reader_take (unat n) r')"

definition reader_ipv4 :: "reader \<Rightarrow> (u32 \<times> reader) option" where
  "reader_ipv4 r = map_option (\<lambda>(bs, r'). (from_be bs, r')) (reader_array 4 r)"

definition reader_ipv6 :: "reader \<Rightarrow> (u128 \<times> reader) option" where
  "reader_ipv6 r = map_option (\<lambda>(bs, r'). (from_be bs, r')) (reader_array 16 r)"

section \<open>Writer\<close>

text \<open>The length prefixes are \<open>as\<close> casts; a debug assertion states that they do not truncate.\<close>

definition writer_u8 :: "u8 \<Rightarrow> bytes \<Rightarrow> bytes" where
  "writer_u8 v out = out @ [v]"

definition writer_bytes :: "bytes \<Rightarrow> bytes \<Rightarrow> bytes" where
  "writer_bytes v out = out @ v"

definition writer_u16 :: "u16 \<Rightarrow> bytes \<Rightarrow> bytes" where
  "writer_u16 v out = writer_bytes (to_be_16 v) out"

definition writer_u32 :: "u32 \<Rightarrow> bytes \<Rightarrow> bytes" where
  "writer_u32 v out = writer_bytes (to_be_32 v) out"

definition writer_u64 :: "u64 \<Rightarrow> bytes \<Rightarrow> bytes" where
  "writer_u64 v out = writer_bytes (be_bytes 8 (unat v)) out"

definition writer_vector_u8 :: "bytes \<Rightarrow> bytes \<Rightarrow> bytes" where
  "writer_vector_u8 v out = writer_bytes v (writer_u8 (of_nat (length v)) out)"

definition writer_vector_u16 :: "bytes \<Rightarrow> bytes \<Rightarrow> bytes" where
  "writer_vector_u16 v out = writer_bytes v (writer_u16 (of_nat (length v)) out)"

definition writer_vector_u32 :: "bytes \<Rightarrow> bytes \<Rightarrow> bytes" where
  "writer_vector_u32 v out = writer_bytes v (writer_u32 (of_nat (length v)) out)"

section \<open>Bounded\<close>

record bounded =
  bd_out :: bytes
  bd_at :: nat
  bd_overflowed :: bool

definition bounded_at :: "bytes \<Rightarrow> nat \<Rightarrow> bounded option" where
  "bounded_at out a =
     (if a \<le> length out then Some \<lparr>bd_out = out, bd_at = a, bd_overflowed = False\<rparr> else None)"

text \<open>The cursor and the buffer it leaves behind, or nothing after an overflow.\<close>

definition bounded_finish :: "bounded \<Rightarrow> nat option" where
  "bounded_finish w = (if bd_overflowed w then None else Some (bd_at w))"

definition bounded_bytes :: "bytes \<Rightarrow> bounded \<Rightarrow> bounded" where
  "bounded_bytes v w =
     (if bd_at w + length v \<le> length (bd_out w) \<and> \<not> bd_overflowed w
      then w\<lparr>bd_out := overwrite (bd_out w) (bd_at w) v, bd_at := bd_at w + length v\<rparr>
      else w\<lparr>bd_overflowed := True\<rparr>)"

definition bounded_u8 :: "u8 \<Rightarrow> bounded \<Rightarrow> bounded" where
  "bounded_u8 v w = bounded_bytes [v] w"

definition bounded_u16 :: "u16 \<Rightarrow> bounded \<Rightarrow> bounded" where
  "bounded_u16 v w = bounded_bytes (to_be_16 v) w"

definition bounded_u32 :: "u32 \<Rightarrow> bounded \<Rightarrow> bounded" where
  "bounded_u32 v w = bounded_bytes (to_be_32 v) w"

definition bounded_zeros :: "nat \<Rightarrow> bounded \<Rightarrow> bounded" where
  "bounded_zeros n w =
     (if bd_at w + n \<le> length (bd_out w) \<and> \<not> bd_overflowed w
      then w\<lparr>bd_out := overwrite (bd_out w) (bd_at w) (replicate n 0), bd_at := bd_at w + n\<rparr>
      else w\<lparr>bd_overflowed := True\<rparr>)"

definition bounded_vector_u8 :: "bytes \<Rightarrow> bounded \<Rightarrow> bounded" where
  "bounded_vector_u8 v w = bounded_bytes v (bounded_u8 (of_nat (length v)) w)"

section \<open>Checksum\<close>

fun add_words :: "u32 \<Rightarrow> bytes \<Rightarrow> u32" where
  "add_words s [] = s"
| "add_words s [high] = s + from_be [high, 0]"
| "add_words s (high # low # bs) = add_words (s + from_be [high, low]) bs"

function fold_carries :: "u32 \<Rightarrow> u32" where
  "fold_carries s =
     (if drop_bit 16 s \<noteq> 0 then fold_carries ((s AND 0xffff) + drop_bit 16 s) else s)"
  by pat_completeness auto

definition checksum :: "bytes list \<Rightarrow> u16" where
  "checksum parts = NOT (ucast (fold_carries (add_words 0 (concat parts))))"

lemma unat_drop_16: "unat (drop_bit 16 (s :: u32)) = unat s div 65536"
  by (simp only: unat_drop_bit_eq drop_bit_nat_def) simp

lemma drop_16_eq_0: "drop_bit 16 (s :: u32) = 0 \<longleftrightarrow> unat s < 65536"
proof -
  have "drop_bit 16 s = 0 \<longleftrightarrow> unat (drop_bit 16 s) = 0" by (simp add: unat_eq_zero)
  then show ?thesis by (simp only: unat_drop_16 div_eq_0_iff) simp
qed

lemma fold_carries_step:
  assumes "drop_bit 16 (s :: u32) \<noteq> 0"
  shows "unat ((s AND 0xffff) + drop_bit 16 s) = unat s mod 65536 + unat s div 65536"
    and "unat ((s AND 0xffff) + drop_bit 16 s) < unat s"
proof -
  have low: "unat (s AND 0xffff) = unat s mod 65536"
    using unat_and_mask [of s 16] by (simp add: mask_eq_exp_minus_1)
  note high = unat_drop_16 [of s]
  have "unat s div 65536 < 65536"
    by (rule less_mult_imp_div_less) simp
  then show eq: "unat ((s AND 0xffff) + drop_bit 16 s) = unat s mod 65536 + unat s div 65536"
    by (simp add: unat_word_ariths low high)
  have "unat s div 65536 \<noteq> 0"
    using assms by (simp add: drop_16_eq_0)
  moreover have "unat s = unat s div 65536 * 65536 + unat s mod 65536" by simp
  ultimately show "unat ((s AND 0xffff) + drop_bit 16 s) < unat s"
    unfolding eq by linarith
qed

termination fold_carries
  by (relation "measure unat") (simp_all add: fold_carries_step(2))

declare fold_carries.simps [simp del]

section \<open>Reading\<close>

definition reader_ok :: "reader \<Rightarrow> bool" where
  "reader_ok r \<longleftrightarrow> rd_at r \<le> length (rd_bytes r)"

text \<open>The 16-bit sum the checksum folds: the words of the input, an odd last byte padded.\<close>

fun word_sum :: "bytes \<Rightarrow> nat" where
  "word_sum [] = 0"
| "word_sum [high] = unat high * 256"
| "word_sum (high # low # bs) = unat high * 256 + unat low + word_sum bs"

lemma reader_take_Some:
  "reader_take n r = Some (bs, r') \<longleftrightarrow>
     n \<le> length (reader_rest r) \<and> bs = take n (reader_rest r) \<and> r' = r\<lparr>rd_at := rd_at r + n\<rparr>"
  by (auto simp: reader_take_def slice_range_def split: option.splits if_splits)

lemma reader_array_eq_take: "reader_array n r = reader_take n r"
  by (auto simp: reader_array_def reader_take_def slice_range_def)

lemma reader_u8_Some:
  "reader_u8 r = Some (b, r') \<longleftrightarrow>
     rd_at r < length (rd_bytes r) \<and> b = rd_bytes r ! rd_at r \<and> r' = r\<lparr>rd_at := rd_at r + 1\<rparr>"
  by (auto simp: reader_u8_def reader_array_def reader_rest_def)

lemma reader_u16_Some:
  "reader_u16 r = Some (w, r') \<longleftrightarrow>
     rd_at r + 2 \<le> length (rd_bytes r) \<and> w = from_be (take 2 (drop (rd_at r) (rd_bytes r))) \<and>
     r' = r\<lparr>rd_at := rd_at r + 2\<rparr>"
  by (auto simp: reader_u16_def reader_array_def reader_rest_def)

lemma reader_u32_Some:
  "reader_u32 r = Some (w, r') \<longleftrightarrow>
     rd_at r + 4 \<le> length (rd_bytes r) \<and> w = from_be (take 4 (drop (rd_at r) (rd_bytes r))) \<and>
     r' = r\<lparr>rd_at := rd_at r + 4\<rparr>"
  by (auto simp: reader_u32_def reader_array_def reader_rest_def)

lemma reader_skip_Some:
  "reader_skip n r = Some r' \<longleftrightarrow> n \<le> length (reader_rest r) \<and> r' = r\<lparr>rd_at := rd_at r + n\<rparr>"
  by (auto simp: reader_skip_def reader_take_Some)

lemma reader_at_Some [simp]:
  "reader_at bs a = Some r \<longleftrightarrow> a \<le> length bs \<and> r = \<lparr>rd_bytes = bs, rd_at = a\<rparr>"
  by (auto simp: reader_at_def)

lemma reader_vector_u16_Some:
  "reader_vector_u16 r = Some (bs, r') \<longleftrightarrow>
     (let n = unat (from_be (take 2 (drop (rd_at r) (rd_bytes r))) :: u16) in
      rd_at r + 2 + n \<le> length (rd_bytes r) \<and>
      bs = take n (drop (rd_at r + 2) (rd_bytes r)) \<and> r' = r\<lparr>rd_at := rd_at r + 2 + n\<rparr>)"
  by (auto simp: reader_vector_u16_def reader_u16_def reader_array_def reader_take_Some
      reader_rest_def Let_def drop_drop add.commute)

section \<open>Bounded writing\<close>

text \<open>
  A bounded writer that has not overflowed has put its bytes at the cursor and touched
  nothing else; after an overflow no write changes the buffer.
\<close>

lemma bounded_bytes_ok:
  "\<not> bd_overflowed (bounded_bytes v w) \<longleftrightarrow>
     \<not> bd_overflowed w \<and> bd_at w + length v \<le> length (bd_out w)"
  by (auto simp: bounded_bytes_def)

lemma bounded_zeros_eq_bytes: "bounded_zeros n w = bounded_bytes (replicate n 0) w"
  by (simp add: bounded_zeros_def bounded_bytes_def)

lemma bounded_bytes_append:
  "bounded_finish (bounded_bytes (xs @ ys) w) = bounded_finish (bounded_bytes ys (bounded_bytes xs w))"
  by (auto simp: bounded_bytes_def bounded_finish_def)

lemma bounded_bytes_out:
  "\<not> bd_overflowed (bounded_bytes v w) \<Longrightarrow>
   bd_out (bounded_bytes v w) = overwrite (bd_out w) (bd_at w) v \<and>
   bd_at (bounded_bytes v w) = bd_at w + length v"
  by (auto simp: bounded_bytes_def split: if_splits)

section \<open>The checksum as a one's-complement sum\<close>

lemma of_be_pair [simp]: "of_be 0 [high, low] = unat high * 256 + unat low"
  by simp

lemma add_words_eq: "add_words s bs = s + of_nat (word_sum bs)"
  by (induction s bs rule: add_words.induct) (simp_all add: from_be_def)

lemma fold_carries_unat:
  "unat (fold_carries s) = (if s = 0 then 0 else (unat s - 1) mod 65535 + 1)"
proof (induction s rule: fold_carries.induct)
  case (1 s)
  let ?t = "(s AND 0xffff) + drop_bit 16 s"
  show ?case
  proof (cases "drop_bit 16 s = 0")
    case True
    then have "unat s < 65536" by (simp add: drop_16_eq_0)
    then show ?thesis
      using True by (subst fold_carries.simps) (auto simp: unat_gt_0 Suc_leI)
  next
    case False
    note step = fold_carries_step [OF False]
    have "unat s div 65536 \<noteq> 0"
      using False by (simp add: drop_16_eq_0)
    then have pos: "0 < unat ?t" using step(1) by simp
    have split: "unat s = unat s div 65536 * 65536 + unat s mod 65536" by simp
    have "unat s - 1 = unat s div 65536 * 65535 + (unat ?t - 1)"
      using pos step(1) split by linarith
    then have "(unat s - 1) mod 65535 = (unat ?t - 1) mod 65535" by simp
    moreover have "?t \<noteq> 0" "s \<noteq> 0" using pos False by auto
    ultimately show ?thesis
      using "1.IH" [OF False] False by (subst fold_carries.simps) simp
  qed
qed

lemma word_sum_append: "even (length xs) \<Longrightarrow> word_sum (xs @ ys) = word_sum xs + word_sum ys"
  by (induction xs rule: word_sum.induct) auto

lemma word_sum_zeros: "set bs \<subseteq> {0} \<Longrightarrow> word_sum bs = 0"
  by (induction bs rule: word_sum.induct) auto

lemma word_sum_replicate_0 [simp]: "word_sum (replicate n 0) = 0"
  by (rule word_sum_zeros) auto

lemma word_sum_le: "word_sum bs \<le> 65535 * ((length bs + 1) div 2)"
proof (induction bs rule: word_sum.induct)
  case (2 high)
  have "unat high \<le> 255" using unat_u8_lt [of high] by linarith
  then show ?case by simp
next
  case (3 high low bs)
  have "unat high \<le> 255" "unat low \<le> 255"
    using unat_u8_lt [of high] unat_u8_lt [of low] by linarith+
  with 3 show ?case by simp
qed simp

lemma word_sum_lt_u32: "length bs \<le> 131072 \<Longrightarrow> word_sum bs < 2 ^ 32"
proof -
  assume "length bs \<le> 131072"
  then have "65535 * ((length bs + 1) div 2) \<le> 65535 * 65536"
    by (intro mult_le_mono2) linarith
  with word_sum_le [of bs] show ?thesis by simp
qed

lemma word_sum_to_be_16 [simp]: "word_sum (to_be_16 w) = unat w"
proof -
  have "unat w div 256 < 256" by (rule less_mult_imp_div_less) simp
  then show ?thesis
    by (simp add: to_be_16_def numeral_2_eq_2 unat_of_nat unat_ucast_u8)
qed

text \<open>Replacing an even-length field at an even offset exchanges its share of the sum.\<close>

lemma word_sum_overwrite:
  assumes "even at" and "even (length ys)" and "at + length ys \<le> length xs"
  shows "word_sum (overwrite xs at ys) + word_sum (take (length ys) (drop at xs))
       = word_sum xs + word_sum ys"
proof -
  let ?old = "take (length ys) (drop at xs)" and ?post = "drop (at + length ys) xs"
  have xs: "xs = take at xs @ ?old @ ?post"
    by (metis append_take_drop_id drop_drop add.commute)
  have len: "length (take at xs) = at" "length ?old = length ys" using assms by auto
  have "word_sum xs = word_sum (take at xs) + (word_sum ?old + word_sum ?post)"
    by (subst xs) (use assms len in \<open>simp add: word_sum_append\<close>)
  moreover have "word_sum (overwrite xs at ys)
      = word_sum (take at xs) + (word_sum ys + word_sum ?post)"
    using assms len by (simp add: overwrite_def word_sum_append)
  ultimately show ?thesis by simp
qed

text \<open>The folded sum of the checksum: \<open>0\<close> for the zero sum, else the residue in \<open>1..65535\<close>.\<close>

definition ones_fold :: "nat \<Rightarrow> nat" where
  "ones_fold s = (if s = 0 then 0 else (s - 1) mod 65535 + 1)"

lemma ones_fold_le: "ones_fold s \<le> 65535"
  by (simp add: ones_fold_def Suc_le_eq)

lemma ones_fold_dvd: "65535 dvd s + (65535 - ones_fold s)"
proof (cases "s = 0")
  case False
  have "s = (s - 1) div 65535 * 65535 + ones_fold s"
    using False div_mult_mod_eq [of "s - 1" 65535] by (simp add: ones_fold_def)
  then obtain q where q: "s = q * 65535 + ones_fold s" ..
  with ones_fold_le [of s] have "s + (65535 - ones_fold s) = q * 65535 + 65535"
    by linarith
  then show ?thesis by simp
qed (simp add: ones_fold_def)

lemma ones_fold_max: "ones_fold s = 65535 \<longleftrightarrow> 0 < s \<and> 65535 dvd s"
proof
  assume max: "ones_fold s = 65535"
  then have "s \<noteq> 0" by (auto simp: ones_fold_def split: if_splits)
  with ones_fold_dvd [of s] max show "0 < s \<and> 65535 dvd s" by simp
next
  assume s: "0 < s \<and> 65535 dvd s"
  then have "65535 dvd 65535 - ones_fold s"
    using ones_fold_dvd [of s] by (simp add: dvd_add_right_iff)
  moreover have "0 < ones_fold s" using s by (simp add: ones_fold_def)
  ultimately show "ones_fold s = 65535"
    using ones_fold_le [of s] by (auto dest: dvd_imp_le)
qed

lemma unat_checksum:
  assumes "word_sum (concat parts) < 2 ^ 32"
  shows "unat (checksum parts) = 65535 - ones_fold (word_sum (concat parts))"
proof -
  let ?s = "add_words 0 (concat parts)"
  have "unat ?s = word_sum (concat parts)"
    using assms by (simp add: add_words_eq unat_of_nat)
  then have fold: "unat (fold_carries ?s) = ones_fold (word_sum (concat parts))"
    by (simp add: fold_carries_unat ones_fold_def flip: unat_eq_zero)
  then have "unat (ucast (fold_carries ?s) :: u16) = ones_fold (word_sum (concat parts))"
    using ones_fold_le [of "word_sum (concat parts)"] by (simp add: unat_ucast_u16)
  then show ?thesis
    by (simp add: checksum_def unat_not)
qed

text \<open>
  Data whose sum has no remainder modulo \<open>65535\<close> is what a receiver accepts: the checksum of
  the whole, checksum field included, is zero.
\<close>

lemma checksum_eq_0_iff:
  assumes "word_sum (concat parts) < 2 ^ 32"
  shows "checksum parts = 0 \<longleftrightarrow> 0 < word_sum (concat parts) \<and> 65535 dvd word_sum (concat parts)"
proof -
  have "checksum parts = 0 \<longleftrightarrow> unat (checksum parts) = 0"
    by (simp add: unat_eq_zero)
  also have "\<dots> \<longleftrightarrow> ones_fold (word_sum (concat parts)) = 65535"
    using unat_checksum [OF assms] ones_fold_le [of "word_sum (concat parts)"] by linarith
  finally show ?thesis by (simp only: ones_fold_max)
qed

text \<open>
  Storing a value congruent to the complement of the sum into a zeroed field makes the
  data valid; \<open>pre\<close> is a pseudo-header and \<open>at\<close> the field's offset.
\<close>

lemma word_sum_store:
  assumes "even (length pre)" and "even at" and "at + 2 \<le> length bs"
    and "take 2 (drop at bs) = [0, 0]"
  shows "word_sum (pre @ overwrite bs at (to_be_16 c)) = word_sum (pre @ bs) + unat c"
  using word_sum_overwrite [of at "to_be_16 c" bs] assms by (simp add: word_sum_append)

lemma checksum_stored:
  assumes "even (length pre)" and "even at" and "at + 2 \<le> length bs"
    and "take 2 (drop at bs) = [0, 0]" and "length pre + length bs \<le> 131072"
  shows "checksum [pre, overwrite bs at (to_be_16 (checksum [pre, bs]))] = 0"
proof -
  let ?s = "word_sum (pre @ bs)" and ?new = "overwrite bs at (to_be_16 (checksum [pre, bs]))"
  have lt: "?s < 2 ^ 32" "word_sum (pre @ ?new) < 2 ^ 32"
    using assms word_sum_lt_u32 [of "pre @ bs"] word_sum_lt_u32 [of "pre @ ?new"] by simp_all
  have sum: "word_sum (pre @ ?new) = ?s + (65535 - ones_fold ?s)"
    using word_sum_store [OF assms(1-4)] unat_checksum [of "[pre, bs]"] lt(1) by simp
  moreover have "0 < ?s + (65535 - ones_fold ?s)"
    by (auto simp: ones_fold_def)
  ultimately show ?thesis
    using checksum_eq_0_iff [of "[pre, ?new]"] lt(2) ones_fold_dvd [of ?s] by simp
qed

end
