(* ===== verification/Net.thy ===== *)
theory Net
  imports Wire
begin

text \<open>
  The vocabulary every layer shares: IP addresses, client endpoints and flow keys
  (\<^verbatim>\<open>src/l3/udp.rs\<close>), the transport classification and the packet summary of
  \<^verbatim>\<open>src/l3/packet.rs\<close>, and the interface to the \<open>etherparse\<close> crate.

  \<open>etherparse\<close> is not part of the sources: what the code reads from its \<open>SlicedPacket\<close> is
  the record \<open>sliced_packet\<close>, and the parsing function itself is a parameter
  \<open>from_ip\<close> of every definition that parses a packet.
\<close>

section \<open>Addresses, endpoints, flow keys\<close>

datatype ip_addr = V4 u32 | V6 u128

definition octets4 :: "u32 \<Rightarrow> bytes" where
  "octets4 a = be_bytes 4 (unat a)"

definition octets6 :: "u128 \<Rightarrow> bytes" where
  "octets6 a = be_bytes 16 (unat a)"

datatype internal_endpoint = Endpoint (address: ip_addr) (port: u16)

datatype flow_key =
  Connection (client_of: internal_endpoint) (server_of: internal_endpoint)
| Mapping (client_of: internal_endpoint)

section \<open>Transport classification\<close>

datatype icmp_class = IcmpErrorClass | Informational

datatype transport =
  Tcp (source_port: u16) (destination_port: u16)
| Udp (source_port: u16) (destination_port: u16)
| Icmp icmp_class
| Other
| Fragment

definition icmpv4_class :: "u8 \<Rightarrow> icmp_class" where
  "icmpv4_class t = (if t \<in> {3, 4, 5, 11, 12} then IcmpErrorClass else Informational)"

definition icmpv6_class :: "u8 \<Rightarrow> icmp_class" where
  "icmpv6_class t = (if t < 128 then IcmpErrorClass else Informational)"

section \<open>What the code reads from etherparse\<close>

text \<open>
  A payload is a subslice of the parsed packet, given by its offset and length. The
  error of a failed parse is opaque to this code.
\<close>

type_synonym slice_error = string

datatype transport_slice =
  TcpSlice u16 u16 nat nat
| UdpSlice u16 u16 nat nat
| Icmpv4Slice u8 nat nat
| Icmpv6Slice u8 nat nat
| IgmpSlice

record ipv4_slice =
  v4_source :: u32
  v4_destination :: u32
  v4_ecn :: u8
  v4_fragmented :: bool
  v4_ihl :: u8
  v4_protocol :: u8
  v4_identification :: u16
  v4_fragments_offset :: u16
  v4_more_fragments :: bool
  v4_payload :: bytes

record ipv6_fragment_slice =
  frag_next_header :: u8
  frag_identification :: u32
  frag_offset :: u16
  frag_more_fragments :: bool

record ipv6_slice =
  v6_source :: u128
  v6_destination :: u128
  v6_ecn :: u8
  v6_fragmented :: bool
  v6_fragment_header :: "ipv6_fragment_slice option"

datatype net_slice = NetIpv4 ipv4_slice | NetIpv6 ipv6_slice | NetArp

record sliced_packet =
  sl_net :: "net_slice option"
  sl_transport :: "transport_slice option"

type_synonym ip_parser = "bytes \<Rightarrow> slice_error + sliced_packet"

section \<open>The packet summary\<close>

record ingress_packet =
  pk_source :: ip_addr
  pk_destination :: ip_addr
  pk_ecn :: u8
  pk_transport :: transport
  pk_payload_at :: u16
  pk_payload_len :: u16

datatype packet_error =
  Malformed slice_error
| MissingNetworkLayer
| UnsupportedNetworkLayer
| Oversized

definition packet_payload :: "ingress_packet \<Rightarrow> bytes \<Rightarrow> bytes option" where
  "packet_payload p packet =
     slice_range packet (unat (pk_payload_at p)) (unat (pk_payload_at p) + unat (pk_payload_len p))"

text \<open>The transport and the coordinates of its payload, none for a fragment or another protocol.\<close>

definition classify_transport ::
    "bool \<Rightarrow> transport_slice option \<Rightarrow> transport \<times> (nat \<times> nat) option" where
  "classify_transport fragmented t =
     (if fragmented then (Fragment, None)
      else case t of
        Some (TcpSlice s d at len) \<Rightarrow> (Tcp s d, Some (at, len))
      | Some (UdpSlice s d at len) \<Rightarrow> (Udp s d, Some (at, len))
      | Some (Icmpv4Slice ty at len) \<Rightarrow> (Icmp (icmpv4_class ty), Some (at, len))
      | Some (Icmpv6Slice ty at len) \<Rightarrow> (Icmp (icmpv6_class ty), Some (at, len))
      | Some IgmpSlice \<Rightarrow> (Other, None)
      | None \<Rightarrow> (Other, None))"

definition parse_net :: "net_slice \<Rightarrow> packet_error + (ip_addr \<times> ip_addr \<times> u8 \<times> bool)" where
  "parse_net net =
     (case net of
        NetIpv4 v \<Rightarrow> Inr (V4 (v4_source v), V4 (v4_destination v), v4_ecn v, v4_fragmented v)
      | NetIpv6 v \<Rightarrow> Inr (V6 (v6_source v), V6 (v6_destination v), v6_ecn v, v6_fragmented v)
      | NetArp \<Rightarrow> Inl UnsupportedNetworkLayer)"

definition payload_coordinates :: "(nat \<times> nat) option \<Rightarrow> packet_error + (u16 \<times> u16)" where
  "payload_coordinates payload =
     (case payload of
        None \<Rightarrow> Inr (0, 0)
      | Some (at, len) \<Rightarrow>
          (case try_from at of
             None \<Rightarrow> Inl Oversized
           | Some a \<Rightarrow>
               (case try_from len of None \<Rightarrow> Inl Oversized | Some l \<Rightarrow> Inr (a, l))))"

definition parse_packet :: "ip_parser \<Rightarrow> bytes \<Rightarrow> packet_error + ingress_packet" where
  "parse_packet from_ip packet =
     (case from_ip packet of
        Inl e \<Rightarrow> Inl (Malformed e)
      | Inr sliced \<Rightarrow>
          (case sl_net sliced of
             None \<Rightarrow> Inl MissingNetworkLayer
           | Some net \<Rightarrow>
               (case parse_net net of
                  Inl e \<Rightarrow> Inl e
                | Inr (source, destination, ecn, fragmented) \<Rightarrow>
                    (let (transport, payload) = classify_transport fragmented (sl_transport sliced)
                     in case payload_coordinates payload of
                          Inl e \<Rightarrow> Inl e
                        | Inr (at, len) \<Rightarrow>
                            Inr \<lparr>pk_source = source, pk_destination = destination, pk_ecn = ecn,
                                 pk_transport = transport, pk_payload_at = at,
                                 pk_payload_len = len\<rparr>))))"

text \<open>The flow a packet belongs to (\<^verbatim>\<open>datapath.rs\<close>, \<open>key_of\<close>); ICMP and the rest open none.\<close>

definition key_of :: "ingress_packet \<Rightarrow> flow_key option" where
  "key_of p =
     (case pk_transport p of
        Tcp s d \<Rightarrow> Some (Connection (Endpoint (pk_source p) s) (Endpoint (pk_destination p) d))
      | Udp s d \<Rightarrow> Some (Mapping (Endpoint (pk_source p) s))
      | Icmp _ \<Rightarrow> None
      | Other \<Rightarrow> None
      | Fragment \<Rightarrow> None)"

section \<open>Facts\<close>

lemma length_octets4 [simp]: "length (octets4 a) = 4"
  by (simp add: octets4_def)

lemma length_octets6 [simp]: "length (octets6 a) = 16"
  by (simp add: octets6_def)

text \<open>
  \<open>etherparse\<close> returns subslices of its input: the coordinates of every transport payload
  lie inside the packet.
\<close>

fun payload_within :: "bytes \<Rightarrow> transport_slice option \<Rightarrow> bool" where
  "payload_within packet (Some (TcpSlice _ _ at len)) = (at + len \<le> length packet)"
| "payload_within packet (Some (UdpSlice _ _ at len)) = (at + len \<le> length packet)"
| "payload_within packet (Some (Icmpv4Slice _ at len)) = (at + len \<le> length packet)"
| "payload_within packet (Some (Icmpv6Slice _ at len)) = (at + len \<le> length packet)"
| "payload_within packet _ = True"

definition returns_subslices :: "ip_parser \<Rightarrow> bool" where
  "returns_subslices from_ip \<longleftrightarrow>
     (\<forall>packet sliced. from_ip packet = Inr sliced \<longrightarrow> payload_within packet (sl_transport sliced))"

lemma parse_packet_Inr:
  assumes "parse_packet from_ip packet = Inr p"
  obtains sliced net fragmented where
    "from_ip packet = Inr sliced" "sl_net sliced = Some net"
    "parse_net net = Inr (pk_source p, pk_destination p, pk_ecn p, fragmented)"
    "pk_transport p = fst (classify_transport fragmented (sl_transport sliced))"
    "payload_coordinates (snd (classify_transport fragmented (sl_transport sliced)))
       = Inr (pk_payload_at p, pk_payload_len p)"
  using assms
  by (auto simp: parse_packet_def split: sum.splits option.splits prod.splits)

lemma payload_coordinates_Inr:
  "payload_coordinates payload = Inr (a, l) \<Longrightarrow>
     (payload = None \<and> a = 0 \<and> l = 0) \<or> payload = Some (unat a, unat l)"
  by (auto simp: payload_coordinates_def dest!: try_from_Some split: option.splits)

lemma classify_transport_within:
  "payload_within packet t \<Longrightarrow> snd (classify_transport fragmented t) = Some (at, len) \<Longrightarrow>
   at + len \<le> length packet"
  by (auto simp: classify_transport_def split: if_splits option.splits transport_slice.splits)

text \<open>The summary's coordinates always select bytes of the packet it was parsed from.\<close>

lemma packet_payload_total:
  assumes "returns_subslices from_ip" and "parse_packet from_ip packet = Inr p"
  shows "\<exists>payload. packet_payload p packet = Some payload \<and> length payload = unat (pk_payload_len p)"
proof -
  obtain sliced net fragmented where *:
    "from_ip packet = Inr sliced"
    "payload_coordinates (snd (classify_transport fragmented (sl_transport sliced)))
       = Inr (pk_payload_at p, pk_payload_len p)"
    using assms(2) by (rule parse_packet_Inr)
  have "unat (pk_payload_at p) + unat (pk_payload_len p) \<le> length packet"
    using payload_coordinates_Inr [OF *(2)]
  proof
    assume "snd (classify_transport fragmented (sl_transport sliced))
      = Some (unat (pk_payload_at p), unat (pk_payload_len p))"
    then show ?thesis
      using assms(1) *(1) by (auto simp: returns_subslices_def intro: classify_transport_within)
  qed simp
  then show ?thesis by (auto simp: packet_payload_def slice_range_def)
qed

end
