(* ===== verification/Packet.thy ===== *)
theory Packet
  imports Net
begin

text \<open>
  Packet writing and in-place edits of \<^verbatim>\<open>src/l3/packet.rs\<close>: the hop count, complete UDP
  datagrams with their checksums, and the ICMP errors this hop generates.

  The ICMP errors are built by etherparse's \<open>PacketBuilder\<close>, which is a parameter
  \<open>icmp_packet\<close> here: for the addresses, the hop limit and the message kind it gives the size
  of the packet around a quote and the bytes it writes.
\<close>

section \<open>Reading the header\<close>

definition ip_version :: "bytes \<Rightarrow> u8 option" where
  "ip_version packet = map_option (drop_bit 4) (slice_get packet 0)"

definition forbids_fragmentation :: "bytes \<Rightarrow> bool" where
  "forbids_fragmentation packet =
     (case ip_version packet of
        None \<Rightarrow> False
      | Some v \<Rightarrow>
          (if v = 4 then (case slice_get packet 6 of None \<Rightarrow> False | Some flags \<Rightarrow> flags AND 0x40 \<noteq> 0)
           else v = 6))"

section \<open>Spending a hop\<close>

text \<open>The RFC 1624 update of the header checksum after the time to live fell by one.\<close>

definition hop_checksum :: "bytes \<Rightarrow> u16" where
  "hop_checksum packet =
     (let check = ucast (from_be [packet ! 10, packet ! 11] :: u16) + (0x0100 :: u32);
          check = (check AND 0xffff) + drop_bit 16 check
      in ucast check)"

definition spend_hop :: "bytes \<Rightarrow> u8 option \<times> bytes" where
  "spend_hop packet =
     (case ip_version packet of
        None \<Rightarrow> (None, packet)
      | Some v \<Rightarrow>
          (if v = 4 \<and> 20 \<le> length packet then
             (let left = saturating_sub (packet ! 8) 1
              in if left = 0 then (Some 0, packet)
                 else (let aged = packet[8 := left]
                       in (Some left, overwrite aged 10 (to_be_16 (hop_checksum aged)))))
           else if v = 6 \<and> 40 \<le> length packet then
             (let left = saturating_sub (packet ! 7) 1
              in (Some left, if left > 0 then packet[7 := left] else packet))
           else (None, packet)))"

section \<open>Writing UDP datagrams\<close>

definition IPV4_UDP_HEADER :: nat where "IPV4_UDP_HEADER = 20 + 8"
definition IPV6_UDP_HEADER :: nat where "IPV6_UDP_HEADER = 40 + 8"
definition MAX_IPV4_UDP_PAYLOAD :: nat where "MAX_IPV4_UDP_PAYLOAD = 65535 - IPV4_UDP_HEADER"
definition MAX_IPV6_UDP_PAYLOAD :: nat where "MAX_IPV6_UDP_PAYLOAD = 65535 - 8"
definition UDP_PROTOCOL :: u8 where "UDP_PROTOCOL = 17"

datatype write_error = MixedFamilies | PayloadTooLarge | OutputTooSmall | Unquotable

definition udp_datagram_len :: "ip_addr \<Rightarrow> nat \<Rightarrow> nat" where
  "udp_datagram_len family payload_len =
     (case family of V4 _ \<Rightarrow> IPV4_UDP_HEADER | V6 _ \<Rightarrow> IPV6_UDP_HEADER) + payload_len"

definition transmitted_checksum :: "u16 \<Rightarrow> bytes" where
  "transmitted_checksum ck = (if ck = 0 then [0xff, 0xff] else to_be_16 ck)"

definition write_udp_header :: "bytes \<Rightarrow> nat \<Rightarrow> u16 \<Rightarrow> u16 \<Rightarrow> bytes \<Rightarrow> bytes" where
  "write_udp_header datagram at sport dport payload =
     (let d1 = overwrite datagram at (to_be_16 sport);
          d2 = overwrite d1 (at + 2) (to_be_16 dport);
          d3 = overwrite d2 (at + 4) (to_be_16 (of_nat (8 + length payload)));
          d4 = overwrite d3 (at + 6) [0, 0]
      in overwrite d4 (at + 8) payload)"

definition write_udp_v4 ::
    "bytes \<Rightarrow> u32 \<Rightarrow> u16 \<Rightarrow> u32 \<Rightarrow> u16 \<Rightarrow> bytes \<Rightarrow> write_error + (nat \<times> bytes)" where
  "write_udp_v4 out source sport destination dport payload =
     (if MAX_IPV4_UDP_PAYLOAD < length payload then Inl PayloadTooLarge
      else let total = IPV4_UDP_HEADER + length payload
      in if length out < total then Inl OutputTooSmall
      else
        (let d0 = replicate total 0;
             d1 = d0[0 := 0x45];
             d2 = overwrite d1 2 (to_be_16 (of_nat total));
             d3 = overwrite d2 6 (to_be_16 0x4000);
             d4 = d3[8 := 64];
             d5 = d4[9 := UDP_PROTOCOL];
             d6 = overwrite d5 12 (octets4 source);
             d7 = overwrite d6 16 (octets4 destination);
             header_sum = checksum [take 20 d7];
             d8 = overwrite d7 10 (to_be_16 header_sum);
             d9 = write_udp_header d8 20 sport dport payload;
             udp_len = of_nat (8 + length payload);
             udp_sum = checksum [octets4 source, octets4 destination, [0, UDP_PROTOCOL],
                             to_be_16 udp_len, drop 20 d9];
             d10 = overwrite d9 26 (transmitted_checksum udp_sum)
         in Inr (total, overwrite out 0 d10)))"

definition write_udp_v6 ::
    "bytes \<Rightarrow> u128 \<Rightarrow> u16 \<Rightarrow> u128 \<Rightarrow> u16 \<Rightarrow> bytes \<Rightarrow> write_error + (nat \<times> bytes)" where
  "write_udp_v6 out source sport destination dport payload =
     (if MAX_IPV6_UDP_PAYLOAD < length payload then Inl PayloadTooLarge
      else let total = IPV6_UDP_HEADER + length payload
      in if length out < total then Inl OutputTooSmall
      else
        (let d0 = replicate total 0;
             d1 = d0[0 := 0x60];
             udp_len = (of_nat (8 + length payload) :: u16);
             d2 = overwrite d1 4 (to_be_16 udp_len);
             d3 = d2[6 := UDP_PROTOCOL];
             d4 = d3[7 := 64];
             d5 = overwrite d4 8 (octets6 source);
             d6 = overwrite d5 24 (octets6 destination);
             d7 = write_udp_header d6 40 sport dport payload;
             udp_sum = checksum [octets6 source, octets6 destination,
                             to_be_32 (ucast udp_len), [0, 0, 0, UDP_PROTOCOL], drop 40 d7];
             d8 = overwrite d7 46 (transmitted_checksum udp_sum)
         in Inr (total, overwrite out 0 d8)))"

definition write_udp ::
    "bytes \<Rightarrow> internal_endpoint \<Rightarrow> internal_endpoint \<Rightarrow> bytes \<Rightarrow> write_error + (nat \<times> bytes)" where
  "write_udp out source destination payload =
     (case (address source, address destination) of
        (V4 s, V4 d) \<Rightarrow> write_udp_v4 out s (port source) d (port destination) payload
      | (V6 s, V6 d) \<Rightarrow> write_udp_v6 out s (port source) d (port destination) payload
      | _ \<Rightarrow> Inl MixedFamilies)"

section \<open>Generated ICMP errors\<close>

definition MAX_ICMPV4_ERROR :: nat where "MAX_ICMPV4_ERROR = 576"
definition MAX_ICMPV6_ERROR :: nat where "MAX_ICMPV6_ERROR = 1280"
definition ICMP_TTL :: u8 where "ICMP_TTL = 64"

datatype icmp_error = TooBig u16 | TimeExceeded

datatype icmp_kind =
  FragmentationNeeded u16
| TtlExceededInTransit
| PacketTooBig u32
| HopLimitExceeded

record icmp_builder =
  bl_size :: "nat \<Rightarrow> nat"
  bl_write :: "bytes \<Rightarrow> bytes option"

type_synonym icmp_packets = "ip_addr \<Rightarrow> ip_addr \<Rightarrow> u8 \<Rightarrow> icmp_kind \<Rightarrow> icmp_builder"

definition emit :: "bytes \<Rightarrow> nat \<Rightarrow> bytes option \<Rightarrow> write_error + (nat \<times> bytes)" where
  "emit out len written =
     (if length out < len then Inl OutputTooSmall
      else case written of
        None \<Rightarrow> Inl OutputTooSmall
      | Some bs \<Rightarrow> Inr (len, overwrite out 0 bs))"

definition icmp_v4_kind :: "icmp_error \<Rightarrow> icmp_kind" where
  "icmp_v4_kind e = (case e of TooBig m \<Rightarrow> FragmentationNeeded m | TimeExceeded \<Rightarrow> TtlExceededInTransit)"

definition icmp_v6_kind :: "icmp_error \<Rightarrow> icmp_kind" where
  "icmp_v6_kind e = (case e of TooBig m \<Rightarrow> PacketTooBig (ucast m) | TimeExceeded \<Rightarrow> HopLimitExceeded)"

definition write_icmp_error ::
    "ip_parser \<Rightarrow> icmp_packets \<Rightarrow> bytes \<Rightarrow> bytes \<Rightarrow> icmp_error \<Rightarrow> write_error + (nat \<times> bytes)" where
  "write_icmp_error from_ip icmp_packet out quoted error =
     (case parse_packet from_ip quoted of
        Inl _ \<Rightarrow> Inl Unquotable
      | Inr parsed \<Rightarrow>
          (case (pk_destination parsed, pk_source parsed) of
             (V4 source, V4 destination) \<Rightarrow>
               (let builder = icmp_packet (V4 source) (V4 destination) ICMP_TTL (icmp_v4_kind error);
                    quote = take (min (length quoted) (MAX_ICMPV4_ERROR - bl_size builder 0)) quoted
                in emit out (bl_size builder (length quote)) (bl_write builder quote))
           | (V6 source, V6 destination) \<Rightarrow>
               (let builder = icmp_packet (V6 source) (V6 destination) ICMP_TTL (icmp_v6_kind error);
                    quote = take (min (length quoted) (MAX_ICMPV6_ERROR - bl_size builder 0)) quoted
                in emit out (bl_size builder (length quote)) (bl_write builder quote))
           | _ \<Rightarrow> Inl MixedFamilies))"

definition write_too_big ::
    "ip_parser \<Rightarrow> icmp_packets \<Rightarrow> bytes \<Rightarrow> bytes \<Rightarrow> u16 \<Rightarrow> write_error + (nat \<times> bytes)" where
  "write_too_big from_ip icmp_packet out quoted next_hop_mtu =
     write_icmp_error from_ip icmp_packet out quoted (TooBig next_hop_mtu)"

definition write_time_exceeded ::
    "ip_parser \<Rightarrow> icmp_packets \<Rightarrow> bytes \<Rightarrow> bytes \<Rightarrow> write_error + (nat \<times> bytes)" where
  "write_time_exceeded from_ip icmp_packet out quoted =
     write_icmp_error from_ip icmp_packet out quoted TimeExceeded"

section \<open>The hop count and its checksum\<close>

lemma carry_256:
  assumes "(c :: nat) < 65536"
  shows "(c + 256) mod 65536 + (c + 256) div 65536
       = (if c + 256 < 65536 then c + 256 else c + 256 - 65535)"
proof -
  have "(c + 256) div 65536 = (if c + 256 < 65536 then 0 else 1)"
    using assms by (auto intro!: div_nat_eqI)
  moreover have "(c + 256) mod 65536 = c + 256 - (c + 256) div 65536 * 65536"
    by (rule minus_div_mult_eq_mod [symmetric])
  ultimately show ?thesis by auto
qed

lemma unat_carry_256:
  fixes c :: u16
  defines "w \<equiv> ucast c + 0x0100 :: u32"
  shows "unat (ucast ((w AND 0xffff) + drop_bit 16 w) :: u16) =
     (if unat c + 256 < 65536 then unat c + 256 else unat c + 256 - 65535)"
proof -
  let ?f = "if unat c + 256 < 65536 then unat c + 256 else unat c + 256 - 65535"
  have lt: "unat c < 65536" by (rule unat_u16_lt)
  have "unat (ucast c :: u32) = unat c"
    using lt by (simp add: unsigned_ucast_eq take_bit_nat_def del: unat_u16_lt)
  then have w: "unat w = unat c + 256"
    using lt by (simp add: w_def unat_word_ariths del: unat_u16_lt)
  have "unat (w AND 0xffff) = (unat c + 256) mod 65536"
    using unat_and_mask [of w 16] by (simp add: mask_eq_exp_minus_1 w)
  moreover have "unat (drop_bit 16 w) = (unat c + 256) div 65536"
    by (simp only: unat_drop_16 w)
  moreover have "?f < 65536" using lt by (auto simp del: unat_u16_lt)
  ultimately have "unat ((w AND 0xffff) + drop_bit 16 w) = ?f"
    by (simp only: unat_word_ariths carry_256 [OF lt]) simp
  with \<open>?f < 65536\<close> show ?thesis
    by (simp only: unat_ucast_u16) simp
qed

lemma unat_hop_checksum:
  "unat (hop_checksum p) =
     (let c = unat (from_be [p ! 10, p ! 11] :: u16)
      in if c + 256 < 65536 then c + 256 else c + 256 - 65535)"
  unfolding hop_checksum_def Let_def by (rule unat_carry_256)

lemma unat_from_be_pair: "unat (from_be [high, low] :: u16) = unat high * 256 + unat low"
  using of_be_lt [of "[high, low]"]
  by (simp only: from_be_def of_be_pair unat_of_nat) simp

lemma word_sum_update:
  "even i \<Longrightarrow> i < length xs \<Longrightarrow>
   word_sum (xs[i := b]) + unat (xs ! i) * 256 = word_sum xs + unat b * 256"
proof (induction xs arbitrary: i rule: word_sum.induct)
  case (3 high low bs)
  show ?case
  proof (cases i)
    case (Suc j)
    with 3(2) obtain k where "i = Suc (Suc k)" by (cases j) auto
    with 3 show ?thesis by simp
  qed simp
qed simp_all

lemma word_sum_ge: "even i \<Longrightarrow> i < length xs \<Longrightarrow> unat (xs ! i) * 256 \<le> word_sum xs"
  using word_sum_update [of i xs 0] by simp

lemma spend_hop_v4:
  assumes "ip_version packet = Some 4" and "20 \<le> length packet"
    and "1 < unat (packet ! 8)"
  shows "spend_hop packet =
     (Some (packet ! 8 - 1),
      overwrite (packet[8 := packet ! 8 - 1]) 10
        (to_be_16 (hop_checksum (packet[8 := packet ! 8 - 1]))))"
proof -
  have "packet ! 8 \<noteq> 0" "packet ! 8 - 1 \<noteq> 0"
    using assms(3) by (auto simp: word_less_nat_alt)
  then have "saturating_sub (packet ! 8) 1 = packet ! 8 - 1"
    using assms(3) by (simp add: saturating_sub_def word_le_nat_alt Suc_le_eq)
  with \<open>packet ! 8 - 1 \<noteq> 0\<close> assms(1,2) show ?thesis
    by (simp add: spend_hop_def Let_def)
qed

lemma word_sum_spent:
  fixes hdr :: bytes
  assumes "12 \<le> length hdr" and "0 < unat (hdr ! 8)"
  defines "aged \<equiv> hdr[8 := hdr ! 8 - 1]"
  shows "\<exists>k \<in> {0, 65535}. word_sum hdr = word_sum (overwrite aged 10 (to_be_16 (hop_checksum aged))) + k"
proof -
  let ?c = "from_be [aged ! 10, aged ! 11] :: u16"
  let ?new = "overwrite aged 10 (to_be_16 (hop_checksum aged))"
  have "unat (hdr ! 8 - 1) = unat (hdr ! 8) - 1"
    using assms(2) by (intro unat_minus_one) auto
  with word_sum_update [of 8 hdr "hdr ! 8 - 1"] assms(1,2)
  have "word_sum aged + 256 = word_sum hdr"
    by (simp add: aged_def diff_mult_distrib)
  moreover have "take 2 (drop 10 aged) = [aged ! 10, aged ! 11]"
    using assms(1) by (simp add: aged_def take_Suc_conv_app_nth numeral_2_eq_2)
  then have "word_sum ?new + unat ?c = word_sum aged + unat (hop_checksum aged)"
    using word_sum_overwrite [of 10 "to_be_16 (hop_checksum aged)" aged] assms(1)
    by (simp add: aged_def unat_from_be_pair)
  moreover have "unat (hop_checksum aged) = unat ?c + 256
      \<or> unat (hop_checksum aged) + 65535 = unat ?c + 256"
    using unat_hop_checksum [of aged] by (cases "unat ?c + 256 < 65536") (simp_all add: Let_def)
  ultimately have "word_sum hdr = word_sum ?new + 0 \<or> word_sum hdr = word_sum ?new + 65535"
    by linarith
  then show ?thesis by blast
qed

lemma checksum_spent:
  assumes "even (length hdr)" and "12 \<le> length hdr" and "length hdr \<le> 131072"
    and "1 < unat (hdr ! 8)"
  defines "aged \<equiv> hdr[8 := hdr ! 8 - 1]"
  shows "checksum [overwrite aged 10 (to_be_16 (hop_checksum aged))] = 0 \<longleftrightarrow> checksum [hdr] = 0"
proof -
  let ?new = "overwrite aged 10 (to_be_16 (hop_checksum aged))"
  have len: "length ?new = length hdr" using assms(2) by (simp add: aged_def)
  have "unat (hdr ! 8 - 1) = unat (hdr ! 8) - 1"
    using assms(4) by (intro unat_minus_one) auto
  moreover have "?new ! 8 = hdr ! 8 - 1"
    using assms(2) by (simp add: aged_def nth_overwrite)
  ultimately have pos: "0 < word_sum ?new"
    using word_sum_ge [of 8 ?new] assms(2,4) len by simp
  obtain k where k: "k \<in> {0, 65535}" "word_sum hdr = word_sum ?new + k"
    using word_sum_spent [of hdr] assms by (auto simp: aged_def)
  then have "65535 dvd word_sum hdr \<longleftrightarrow> 65535 dvd word_sum ?new"
    by (auto simp: dvd_add_left_iff)
  with pos k show ?thesis
    using checksum_eq_0_iff [of "[hdr]"] checksum_eq_0_iff [of "[?new]"]
      word_sum_lt_u32 [of hdr] word_sum_lt_u32 [of ?new] assms(3) len by simp
qed

lemma take_spent:
  "12 \<le> h \<Longrightarrow> h \<le> length packet \<Longrightarrow>
   take h (overwrite (packet[8 := b]) 10 (to_be_16 (hop_checksum (packet[8 := b]))))
   = overwrite ((take h packet)[8 := b]) 10 (to_be_16 (hop_checksum ((take h packet)[8 := b])))"
  by (simp add: overwrite_def hop_checksum_def take_update_swap take_append min_def drop_take)

lemma unspent_hop:
  assumes "ip_version packet = Some 4" and "20 \<le> length packet"
  shows "fst (spend_hop packet) \<noteq> Some 0 \<longleftrightarrow> 1 < unat (packet ! 8)"
proof (cases "1 < unat (packet ! 8)")
  case True
  then have "packet ! 8 - 1 \<noteq> 0" by (auto simp: word_less_nat_alt)
  with True show ?thesis using spend_hop_v4 [OF assms] by simp
next
  case False
  then have "unat (packet ! 8) = unat (0 :: u8) \<or> unat (packet ! 8) = unat (1 :: u8)"
    by (simp only: unat_0 unat_1) linarith
  then have "packet ! 8 = 0 \<or> packet ! 8 = 1"
    by (metis unsigned_word_eqI)
  with assms show ?thesis
    by (auto simp: spend_hop_def saturating_sub_def)
qed

text \<open>
  C21. Spending a hop of an IPv4 packet that has hops left lowers the time to live by one, changes
  nothing but the time to live and the checksum field, and keeps the header checksum valid exactly
  when it was: for a header of any even length \<open>h\<close> the incremental update of RFC 1624 agrees with
  the full RFC 1071 checksum.
\<close>

theorem spend_hop_checksum:
  assumes "ip_version packet = Some 4" and "20 \<le> length packet"
    and "fst (spend_hop packet) \<noteq> Some 0"
    and "even h" and "20 \<le> h" and "h \<le> 60" and "h \<le> length packet"
  shows "fst (spend_hop packet) = Some (packet ! 8 - 1)
     \<and> snd (spend_hop packet) ! 8 = packet ! 8 - 1
     \<and> length (snd (spend_hop packet)) = length packet
     \<and> (\<forall>i < length packet. i \<notin> {8, 10, 11} \<longrightarrow> snd (spend_hop packet) ! i = packet ! i)
     \<and> (checksum [take h (snd (spend_hop packet))] = 0 \<longleftrightarrow> checksum [take h packet] = 0)"
proof -
  let ?aged = "packet[8 := packet ! 8 - 1]"
  let ?new = "overwrite ?aged 10 (to_be_16 (hop_checksum ?aged))"
  have ttl: "1 < unat (packet ! 8)" using assms(3) unspent_hop [OF assms(1,2)] by simp
  have spent: "spend_hop packet = (Some (packet ! 8 - 1), ?new)"
    by (rule spend_hop_v4 [OF assms(1,2) ttl])
  have "checksum [take h ?new] = 0 \<longleftrightarrow> checksum [take h packet] = 0"
    using checksum_spent [of "take h packet"] assms(4-7) ttl by (simp add: take_spent)
  moreover have "\<forall>i < length packet. i \<notin> {8, 10, 11} \<longrightarrow> ?new ! i = packet ! i"
    using assms(2) by (auto simp: nth_overwrite)
  ultimately show ?thesis
    using assms(2) by (simp add: spent nth_overwrite)
qed

theorem spend_hop_checksum_witness:
  "checksum [take 20 (snd (spend_hop
     [0x45, 0, 0, 20, 0, 0, 0x40, 0, 64, 17, 0x26, 0xd7, 10, 0, 0, 1, 10, 0, 0, 2]))] = 0"
proof -
  let ?p = "[0x45, 0, 0, 20, 0, 0, 0x40, 0, 64, 17, 0x26, 0xd7, 10, 0, 0, 1, 10, 0, 0, 2] :: bytes"
  have v4: "ip_version ?p = Some 4" by (simp add: ip_version_def slice_get_def)
  have len: "20 \<le> length ?p" by simp
  have hops: "fst (spend_hop ?p) \<noteq> Some 0" using v4 unspent_hop [of ?p] by simp
  have h: "even (20 :: nat)" "(20 :: nat) \<le> 20" "(20 :: nat) \<le> 60" by simp_all
  have "checksum [take 20 ?p] = 0" by (subst checksum_eq_0_iff) simp_all
  with spend_hop_checksum [OF v4 len hops h len] show ?thesis by blast
qed

section \<open>UDP datagrams\<close>

text \<open>The bytes of a UDP segment, as one concatenation.\<close>

definition udp_segment :: "u16 \<Rightarrow> u16 \<Rightarrow> bytes \<Rightarrow> bytes \<Rightarrow> bytes" where
  "udp_segment sport dport ck payload =
     to_be_16 sport @ to_be_16 dport @ to_be_16 (of_nat (8 + length payload)) @ ck @ payload"

lemma length_udp_segment [simp]:
  "length (udp_segment sport dport ck payload) = 6 + length ck + length payload"
  by (simp add: udp_segment_def)

lemma overwrite_adjacent:
  "b = a + length xs \<Longrightarrow> b + length ys \<le> length d \<Longrightarrow>
   overwrite (overwrite d a xs) b ys = overwrite d a (xs @ ys)"
  by (simp add: overwrite_def ac_simps)

lemma overwrite_end: "length d = at + length ys \<Longrightarrow> overwrite d at ys = take at d @ ys"
  by (simp add: overwrite_def)

lemma write_udp_header_segment:
  assumes "length d = at + 8 + length payload"
  shows "write_udp_header d at sport dport payload
       = take at d @ udp_segment sport dport [0, 0] payload"
proof -
  have "write_udp_header d at sport dport payload
      = overwrite d at (udp_segment sport dport [0, 0] payload)"
    using assms by (simp add: write_udp_header_def Let_def overwrite_adjacent udp_segment_def)
  then show ?thesis using assms by (simp add: overwrite_end)
qed

text \<open>
  RFC 768's escape keeps the residue: storing the transmitted form of the checksum into the
  zeroed field of a segment makes the segment valid under its pseudo-header, and the stored field
  is never zero.
\<close>

lemma transmitted_checksum_eq:
  "transmitted_checksum ck = to_be_16 (if ck = 0 then 0xffff else ck)"
  by (simp add: transmitted_checksum_def to_be_16_pair)

lemma length_transmitted [simp]: "length (transmitted_checksum ck) = 2"
  by (simp add: transmitted_checksum_def)

lemma transmitted_nonzero: "transmitted_checksum ck \<noteq> [0, 0]"
proof
  assume "transmitted_checksum ck = [0, 0]"
  then have "from_be (to_be_16 (if ck = 0 then 0xffff else ck)) = (from_be [0, 0] :: u16)"
    by (simp only: transmitted_checksum_eq)
  moreover have "(from_be [0, 0] :: u16) = 0" by (simp add: from_be_def)
  ultimately show False by (simp split: if_splits)
qed

lemma transmitted_stored:
  assumes "even (length pre)" and "even at" and "at + 2 \<le> length bs"
    and "take 2 (drop at bs) = [0, 0]" and "length pre + length bs \<le> 131072"
  shows "checksum [pre, overwrite bs at (transmitted_checksum (checksum [pre, bs]))] = 0"
proof (cases "checksum [pre, bs] = 0")
  case True
  let ?s = "word_sum (pre @ bs)" and ?new = "overwrite bs at (to_be_16 (0xffff :: u16))"
  have "?s < 2 ^ 32" "word_sum (pre @ ?new) < 2 ^ 32"
    using assms word_sum_lt_u32 [of "pre @ bs"] word_sum_lt_u32 [of "pre @ ?new"] by simp_all
  moreover have "word_sum (pre @ ?new) = ?s + 65535"
    using word_sum_store [OF assms(1-4), of "0xffff"] by simp
  ultimately show ?thesis
    using True checksum_eq_0_iff [of "[pre, bs]"] checksum_eq_0_iff [of "[pre, ?new]"]
    by (simp add: transmitted_checksum_eq)
next
  case False
  then show ?thesis using checksum_stored [OF assms] by (simp add: transmitted_checksum_eq)
qed

lemma checksum_concat: "concat ps = concat qs \<Longrightarrow> checksum ps = checksum qs"
  by (simp add: checksum_def)

text \<open>The IPv4 header of a written datagram and its pseudo-header.\<close>

definition ipv4_header :: "nat \<Rightarrow> bytes \<Rightarrow> u32 \<Rightarrow> u32 \<Rightarrow> bytes" where
  "ipv4_header len ck source destination =
     [0x45, 0] @ to_be_16 (of_nat len) @ [0, 0, 0x40, 0, 64, 17] @ ck
     @ octets4 source @ octets4 destination"

definition ipv4_pseudo :: "u32 \<Rightarrow> u32 \<Rightarrow> nat \<Rightarrow> bytes" where
  "ipv4_pseudo source destination len =
     octets4 source @ octets4 destination @ [0, 17] @ to_be_16 (of_nat len)"

definition ipv6_header :: "nat \<Rightarrow> u128 \<Rightarrow> u128 \<Rightarrow> bytes" where
  "ipv6_header len source destination =
     [0x60, 0, 0, 0] @ to_be_16 (of_nat len) @ [17, 64] @ octets6 source @ octets6 destination"

definition ipv6_pseudo :: "u128 \<Rightarrow> u128 \<Rightarrow> nat \<Rightarrow> bytes" where
  "ipv6_pseudo source destination len =
     octets6 source @ octets6 destination @ to_be_32 (ucast (of_nat len :: u16)) @ [0, 0, 0, 17]"

definition well_formed_udp4 :: "u32 \<Rightarrow> u16 \<Rightarrow> u32 \<Rightarrow> u16 \<Rightarrow> bytes \<Rightarrow> bytes \<Rightarrow> bool" where
  "well_formed_udp4 source sport destination dport payload bs =
     (let header = take 20 bs; segment = drop 20 bs in
      header = ipv4_header (length bs) (take 2 (drop 10 bs)) source destination
      \<and> segment = udp_segment sport dport (take 2 (drop 26 bs)) payload
      \<and> checksum [header] = 0
      \<and> checksum [ipv4_pseudo source destination (length segment), segment] = 0
      \<and> take 2 (drop 26 bs) \<noteq> [0, 0])"

definition well_formed_udp6 :: "u128 \<Rightarrow> u16 \<Rightarrow> u128 \<Rightarrow> u16 \<Rightarrow> bytes \<Rightarrow> bytes \<Rightarrow> bool" where
  "well_formed_udp6 source sport destination dport payload bs =
     (let segment = drop 40 bs in
      take 40 bs = ipv6_header (length segment) source destination
      \<and> segment = udp_segment sport dport (take 2 (drop 46 bs)) payload
      \<and> checksum [ipv6_pseudo source destination (length segment), segment] = 0
      \<and> take 2 (drop 46 bs) \<noteq> [0, 0])"

lemma list4_cases: "length xs = 4 \<Longrightarrow> \<exists>a b c d. xs = [a, b, c, d]"
  by (auto simp: numeral_eq_Suc length_Suc_conv)

lemma list2_cases: "length xs = 2 \<Longrightarrow> \<exists>a b. xs = [a, b]"
  by (auto simp: numeral_eq_Suc length_Suc_conv)

lemma ipv4_header_writes:
  fixes n :: nat
  assumes "len = 28 + n"
  shows "overwrite (overwrite ((overwrite (overwrite ((replicate len 0)[0 := 0x45]) 2
             (to_be_16 (of_nat len))) 6 (to_be_16 0x4000))[8 := 64, 9 := 17]) 12 (octets4 s)) 16 (octets4 d)
       = ipv4_header len [0, 0] s d @ replicate (8 + n) 0"
proof -
  obtain a b c e where s: "octets4 s = [a, b, c, e]" using list4_cases [OF length_octets4] by blast
  obtain f g h i where d: "octets4 d = [f, g, h, i]" using list4_cases [OF length_octets4] by blast
  obtain x y where t: "to_be_16 (of_nat len :: u16) = [x, y]"
    using list2_cases [OF length_to_be_16] by blast
  have z: "replicate len (0 :: u8)
      = [0,0,0,0,0,0,0,0,0,0,0,0,0,0,0,0,0,0,0,0] @ replicate (8 + n) 0"
    unfolding assms by (simp add: numeral_eq_Suc)
  have f: "to_be_16 0x4000 = [0x40, 0]" by (simp add: to_be_16_pair)
  show ?thesis
    by (simp add: z s d t f overwrite_def ipv4_header_def)
qed

lemma length_ipv4_header [simp]: "length (ipv4_header len ck s d) = 18 + length ck"
  by (simp add: ipv4_header_def)

lemma length_ipv6_header [simp]: "length (ipv6_header len s d) = 40"
  by (simp add: ipv6_header_def)

lemma length_ipv4_pseudo [simp]: "length (ipv4_pseudo s d len) = 12"
  by (simp add: ipv4_pseudo_def)

lemma length_ipv6_pseudo [simp]: "length (ipv6_pseudo s d len) = 40"
  by (simp add: ipv6_pseudo_def to_be_32_def)

lemma overwrite_append_right:
  "length xs \<le> at \<Longrightarrow> overwrite (xs @ zs) at ys = xs @ overwrite zs (at - length xs) ys"
  by (simp add: overwrite_def)

lemma overwrite_append_left:
  "at + length ys \<le> length xs \<Longrightarrow> overwrite (xs @ zs) at ys = overwrite xs at ys @ zs"
  by (simp add: overwrite_def)

lemma ipv4_header_stored:
  "length ck = 2 \<Longrightarrow> overwrite (ipv4_header len [0, 0] s d) 10 ck = ipv4_header len ck s d"
  by (simp add: overwrite_def ipv4_header_def to_be_16_pair)

lemma udp_segment_stored:
  "length ck = 2 \<Longrightarrow> overwrite (udp_segment sp dp [0, 0] payload) 6 ck = udp_segment sp dp ck payload"
  by (simp add: overwrite_def udp_segment_def to_be_16_pair)

lemma udp_segment_valid:
  assumes "even (length pre)" and "length payload \<le> 65535" and "length pre \<le> 40"
  shows "checksum [pre, udp_segment sp dp
     (transmitted_checksum (checksum [pre, udp_segment sp dp [0, 0] payload])) payload] = 0"
proof -
  let ?bs = "udp_segment sp dp [0, 0] payload"
  have "take 2 (drop 6 ?bs) = [0, 0]" by (simp add: udp_segment_def to_be_16_pair)
  then have "checksum [pre, overwrite ?bs 6 (transmitted_checksum (checksum [pre, ?bs]))] = 0"
    using assms by (intro transmitted_stored) auto
  then show ?thesis by (simp add: udp_segment_stored transmitted_checksum_eq)
qed

lemma write_udp_v4_eq:
  fixes payload :: bytes and s d :: u32 and sp dp :: u16
  defines "n \<equiv> length payload"
  defines "hdr \<equiv> \<lambda>ck. ipv4_header (28 + n) ck s d"
    and "pre \<equiv> ipv4_pseudo s d (8 + n)" and "seg \<equiv> \<lambda>ck. udp_segment sp dp ck payload"
  assumes "n \<le> 65507" and "28 + n \<le> length out"
  shows "write_udp_v4 out s sp d dp payload =
     Inr (28 + n, overwrite out 0
       (hdr (to_be_16 (checksum [hdr [0, 0]])) @ seg (transmitted_checksum (checksum [pre, seg [0, 0]]))))"
proof -
  let ?hck = "to_be_16 (checksum [hdr [0, 0]])"
  let ?uck = "transmitted_checksum (checksum [pre, seg [0, 0]])"
  let ?d7 = "hdr [0, 0] @ replicate (8 + n) 0"
  have d8: "overwrite ?d7 10 ?hck = hdr ?hck @ replicate (8 + n) 0"
    by (simp add: overwrite_append_left hdr_def ipv4_header_stored)
  have d9: "write_udp_header (overwrite ?d7 10 ?hck) 20 sp dp payload = hdr ?hck @ seg [0, 0]"
    unfolding d8 by (subst write_udp_header_segment) (simp_all add: n_def hdr_def seg_def)
  have udp: "checksum [octets4 s, octets4 d, [0, 17], to_be_16 (of_nat (8 + length payload)), seg [0, 0]]
      = checksum [pre, seg [0, 0]]"
    by (rule checksum_concat) (simp add: pre_def ipv4_pseudo_def n_def)
  have d10: "overwrite (hdr ?hck @ seg [0, 0]) 26 ?uck = hdr ?hck @ seg ?uck"
    by (simp add: overwrite_append_right hdr_def seg_def udp_segment_stored)
  have hdr: "ipv4_header (28 + n) ck s d = hdr ck" for ck by (simp add: hdr_def)
  have tot: "IPV4_UDP_HEADER + length payload = 28 + n"
    by (simp add: IPV4_UDP_HEADER_def n_def)
  have take7: "take 20 ?d7 = hdr [0, 0]" and drop9: "drop 20 (hdr ?hck @ seg [0, 0]) = seg [0, 0]"
    by (simp_all add: hdr_def)
  have guard: "\<not> MAX_IPV4_UDP_PAYLOAD < length payload" "\<not> length out < 28 + n"
    using assms(5,6) by (simp_all add: MAX_IPV4_UDP_PAYLOAD_def IPV4_UDP_HEADER_def n_def)
  show ?thesis
    by (simp only: write_udp_v4_def Let_def tot guard if_False UDP_PROTOCOL_def
        ipv4_header_writes [OF refl, of n s d] hdr take7 d9 drop9 udp d10)
qed

lemma ipv6_header_writes:
  assumes "len = 48 + n"
  shows "overwrite (overwrite ((overwrite ((replicate len 0)[0 := 0x60]) 4
             (to_be_16 (of_nat (8 + n))))[6 := 17, 7 := 64]) 8 (octets6 s)) 24 (octets6 d)
       = ipv6_header (8 + n) s d @ replicate (8 + n) 0"
proof -
  obtain x y where t: "to_be_16 (of_nat (8 + n) :: u16) = [x, y]"
    using list2_cases [OF length_to_be_16] by blast
  have z: "replicate len (0 :: u8)
      = [0,0,0,0,0,0,0,0] @ replicate 32 0 @ replicate (8 + n) 0"
    unfolding assms by (simp add: numeral_eq_Suc)
  show ?thesis
    unfolding ipv6_header_def t z by (simp add: overwrite_def)
qed

lemma write_udp_v6_eq:
  fixes payload :: bytes and s d :: u128 and sp dp :: u16
  defines "n \<equiv> length payload"
  defines "hdr \<equiv> ipv6_header (8 + n) s d"
    and "pre \<equiv> ipv6_pseudo s d (8 + n)" and "seg \<equiv> \<lambda>ck. udp_segment sp dp ck payload"
  assumes "n \<le> 65527" and "48 + n \<le> length out"
  shows "write_udp_v6 out s sp d dp payload =
     Inr (48 + n, overwrite out 0 (hdr @ seg (transmitted_checksum (checksum [pre, seg [0, 0]]))))"
proof -
  let ?uck = "transmitted_checksum (checksum [pre, seg [0, 0]])"
  have d7: "write_udp_header (hdr @ replicate (8 + n) 0) 40 sp dp payload = hdr @ seg [0, 0]"
    by (subst write_udp_header_segment) (simp_all add: n_def hdr_def seg_def)
  have udp: "checksum [octets6 s, octets6 d, to_be_32 (ucast (of_nat (8 + n) :: u16)),
        [0, 0, 0, 17], seg [0, 0]] = checksum [pre, seg [0, 0]]"
    by (rule checksum_concat) (simp add: pre_def ipv6_pseudo_def)
  have d8: "overwrite (hdr @ seg [0, 0]) 46 ?uck = hdr @ seg ?uck"
    by (simp add: overwrite_append_right hdr_def seg_def udp_segment_stored)
  have drop7: "drop 40 (hdr @ seg [0, 0]) = seg [0, 0]" by (simp add: hdr_def)
  have tot: "IPV6_UDP_HEADER + length payload = 48 + n" "8 + length payload = 8 + n"
    by (simp_all add: IPV6_UDP_HEADER_def n_def)
  have guard: "\<not> MAX_IPV6_UDP_PAYLOAD < length payload" "\<not> length out < 48 + n"
    using assms(5,6) by (simp_all add: MAX_IPV6_UDP_PAYLOAD_def n_def)
  show ?thesis
    by (simp only: write_udp_v6_def Let_def tot guard if_False UDP_PROTOCOL_def
        ipv6_header_writes [OF refl, of n s d] hdr_def [symmetric] d7 drop7 udp d8)
qed

lemma ipv4_header_valid:
  "checksum [ipv4_header len (to_be_16 (checksum [ipv4_header len [0, 0] s d])) s d] = 0"
proof -
  let ?bs = "ipv4_header len [0, 0] s d"
  have "take 2 (drop 10 ?bs) = [0, 0]" by (simp add: ipv4_header_def to_be_16_pair)
  then have "checksum [[], overwrite ?bs 10 (to_be_16 (checksum [[], ?bs]))] = 0"
    by (intro checksum_stored) auto
  moreover have "checksum [[], x] = checksum [x]" for x by (rule checksum_concat) simp
  ultimately show ?thesis by (simp add: ipv4_header_stored)
qed

lemma ipv4_header_field: "length ck = 2 \<Longrightarrow> take 2 (drop 10 (ipv4_header len ck s d)) = ck"
  by (simp add: ipv4_header_def to_be_16_pair)

lemma udp_segment_field: "length ck = 2 \<Longrightarrow> take 2 (drop 6 (udp_segment sp dp ck payload)) = ck"
  by (simp add: udp_segment_def to_be_16_pair)

lemma overwrite_front:
  assumes "overwrite out 0 bs = out'" and "length bs \<le> length out"
  shows "length out' = length out" and "drop (length bs) out' = drop (length bs) out"
    and "take (length bs) out' = bs"
  using assms by (auto simp: overwrite_def)

lemma write_udp_v4_sound:
  assumes "write_udp_v4 out s sp d dp payload = Inr (n, out')"
  shows "n = 28 + length payload \<and> length out' = length out \<and> drop n out' = drop n out
     \<and> well_formed_udp4 s sp d dp payload (take n out')"
proof -
  let ?n = "28 + length payload" and ?pre = "ipv4_pseudo s d (8 + length payload)"
  let ?hdr = "ipv4_header ?n (to_be_16 (checksum [ipv4_header ?n [0, 0] s d])) s d"
  let ?seg = "udp_segment sp dp
    (transmitted_checksum (checksum [?pre, udp_segment sp dp [0, 0] payload])) payload"
  have fits: "length payload \<le> 65507" "?n \<le> length out"
    using assms by (auto simp: write_udp_v4_def Let_def MAX_IPV4_UDP_PAYLOAD_def
        IPV4_UDP_HEADER_def split: if_splits)
  have n: "n = ?n" and out: "overwrite out 0 (?hdr @ ?seg) = out'"
    using assms write_udp_v4_eq [OF fits, of s sp d dp] by (auto simp del: length_ipv4_header)
  have "length (?hdr @ ?seg) = ?n" by simp
  moreover have "well_formed_udp4 s sp d dp payload (?hdr @ ?seg)"
    using fits by (simp add: well_formed_udp4_def Let_def ipv4_header_field udp_segment_field
        ipv4_header_valid udp_segment_valid transmitted_nonzero)
  ultimately show ?thesis
    using overwrite_front [OF out] fits n by metis
qed

lemma write_udp_v6_sound:
  assumes "write_udp_v6 out s sp d dp payload = Inr (n, out')"
  shows "n = 48 + length payload \<and> length out' = length out \<and> drop n out' = drop n out
     \<and> well_formed_udp6 s sp d dp payload (take n out')"
proof -
  let ?n = "48 + length payload" and ?pre = "ipv6_pseudo s d (8 + length payload)"
  let ?hdr = "ipv6_header (8 + length payload) s d"
  let ?seg = "udp_segment sp dp
    (transmitted_checksum (checksum [?pre, udp_segment sp dp [0, 0] payload])) payload"
  have fits: "length payload \<le> 65527" "?n \<le> length out"
    using assms by (auto simp: write_udp_v6_def Let_def MAX_IPV6_UDP_PAYLOAD_def
        IPV6_UDP_HEADER_def split: if_splits)
  then have n: "n = ?n" and out: "overwrite out 0 (?hdr @ ?seg) = out'"
    using assms write_udp_v6_eq [of payload out s sp d dp] by simp_all
  have "length (?hdr @ ?seg) = ?n" by simp
  moreover have "well_formed_udp6 s sp d dp payload (?hdr @ ?seg)"
    using fits by (simp add: well_formed_udp6_def Let_def udp_segment_field
        udp_segment_valid transmitted_nonzero)
  ultimately show ?thesis
    using overwrite_front [OF out] fits n by metis
qed

text \<open>
  C13. A datagram the engine writes is a well-formed UDP datagram: the reported length is the exact
  datagram length, nothing outside it is touched, every header field and the payload are in
  place, and the IPv4 header checksum and the UDP checksum over the pseudo-header verify, with
  the UDP checksum never transmitted as the zero that means none was computed.
\<close>

theorem write_udp_well_formed:
  assumes "write_udp out source destination payload = Inr (n, out')"
  shows "n = udp_datagram_len (address source) (length payload)
     \<and> length out' = length out \<and> drop n out' = drop n out
     \<and> (case (address source, address destination) of
           (V4 s, V4 d) \<Rightarrow> well_formed_udp4 s (port source) d (port destination) payload (take n out')
         | (V6 s, V6 d) \<Rightarrow> well_formed_udp6 s (port source) d (port destination) payload (take n out')
         | _ \<Rightarrow> False)"
  using assms write_udp_v4_sound [of out _ "port source" _ "port destination" payload n out']
    write_udp_v6_sound [of out _ "port source" _ "port destination" payload n out']
  by (auto simp: write_udp_def udp_datagram_len_def IPV4_UDP_HEADER_def IPV6_UDP_HEADER_def
      split: ip_addr.splits)

theorem write_udp_well_formed_witness:
  "\<exists>out'. write_udp (replicate 40 0) (Endpoint (V4 1) 53) (Endpoint (V4 2) 4096) [7, 9] = Inr (30, out')
     \<and> well_formed_udp4 1 53 2 4096 [7, 9] (take 30 out')"
proof -
  obtain out' where "write_udp (replicate 40 0) (Endpoint (V4 1) 53) (Endpoint (V4 2) 4096) [7, 9] = Inr (30, out')"
    using write_udp_v4_eq [of "[7, 9]" "replicate 40 0"] by (simp add: write_udp_def)
  with write_udp_well_formed [OF this] show ?thesis by simp
qed

text \<open>
  Writing a datagram fails only for the three reasons the writer has: the two addresses are
  of different families, the payload is longer than the family's largest, or the output is
  shorter than the datagram.
\<close>

theorem write_udp_error_iff:
  "(\<exists>n out'. write_udp out source destination payload = Inr (n, out')) \<longleftrightarrow>
     (case (address source, address destination) of
        (V4 _, V4 _) \<Rightarrow> length payload \<le> MAX_IPV4_UDP_PAYLOAD
      | (V6 _, V6 _) \<Rightarrow> length payload \<le> MAX_IPV6_UDP_PAYLOAD
      | _ \<Rightarrow> False)
     \<and> udp_datagram_len (address source) (length payload) \<le> length out"
  by (auto simp: write_udp_def write_udp_v4_def write_udp_v6_def Let_def udp_datagram_len_def
      split: ip_addr.splits)

section \<open>ICMP errors\<close>

text \<open>
  What etherparse documents of its ICMP packet builders: the size is the fixed headers (20 or 40
  bytes of IP, 8 of ICMP) plus the payload, and a successful write produces exactly that many bytes.
\<close>

definition icmp_header_len :: "ip_addr \<Rightarrow> nat" where
  "icmp_header_len a = (case a of V4 _ \<Rightarrow> 28 | V6 _ \<Rightarrow> 48)"

definition icmp_sizes :: "icmp_packets \<Rightarrow> bool" where
  "icmp_sizes icmp_packet \<longleftrightarrow>
     (\<forall>s d ttl kind. (\<forall>n. bl_size (icmp_packet s d ttl kind) n = icmp_header_len s + n)
        \<and> (\<forall>quote bs. bl_write (icmp_packet s d ttl kind) quote = Some bs \<longrightarrow>
              length bs = icmp_header_len s + length quote))"

definition icmp_limit :: "ip_addr \<Rightarrow> nat" where
  "icmp_limit a = (case a of V4 _ \<Rightarrow> MAX_ICMPV4_ERROR | V6 _ \<Rightarrow> MAX_ICMPV6_ERROR)"

definition icmp_kind_for :: "ip_addr \<Rightarrow> icmp_error \<Rightarrow> icmp_kind" where
  "icmp_kind_for a e = (case a of V4 _ \<Rightarrow> icmp_v4_kind e | V6 _ \<Rightarrow> icmp_v6_kind e)"

lemma parse_packet_family:
  assumes "parse_packet from_ip packet = Inr p"
  shows "(\<exists>s d. pk_source p = V4 s \<and> pk_destination p = V4 d)
       \<or> (\<exists>s d. pk_source p = V6 s \<and> pk_destination p = V6 d)"
  using assms
proof (rule parse_packet_Inr)
  fix net fragmented
  assume "parse_net net = Inr (pk_source p, pk_destination p, pk_ecn p, fragmented)"
  then show ?thesis
    by (cases net) (simp_all add: parse_net_def, metis+)
qed

lemma write_icmp_error_eq:
  assumes "icmp_sizes icmp_packet" and "parse_packet from_ip quoted = Inr p"
  shows "write_icmp_error from_ip icmp_packet out quoted error =
     (let builder = icmp_packet (pk_destination p) (pk_source p) ICMP_TTL
            (icmp_kind_for (pk_destination p) error);
          quote = take (icmp_limit (pk_destination p) - icmp_header_len (pk_destination p)) quoted
      in emit out (icmp_header_len (pk_destination p) + length quote) (bl_write builder quote))"
  using parse_packet_family [OF assms(2)] assms
  by (auto simp: write_icmp_error_def icmp_sizes_def icmp_limit_def icmp_kind_for_def
      icmp_header_len_def Let_def min_def)

text \<open>
  An ICMP error this hop generates never exceeds the size its family allows (576 bytes for
  IPv4, 1280 for IPv6), goes back to the source of the packet it quotes in that packet's own
  family, writes exactly the length it reports and leaves the rest of the output alone.
\<close>

theorem write_icmp_error_bounded:
  assumes "icmp_sizes icmp_packet"
    and "write_icmp_error from_ip icmp_packet out quoted error = Inr (n, out')"
  shows "\<exists>p quote bs. parse_packet from_ip quoted = Inr p
     \<and> quote = take (icmp_limit (pk_source p) - icmp_header_len (pk_source p)) quoted
     \<and> bl_write (icmp_packet (pk_destination p) (pk_source p) ICMP_TTL
           (icmp_kind_for (pk_source p) error)) quote = Some bs
     \<and> n = length bs \<and> n \<le> icmp_limit (pk_source p) \<and> n \<le> length out
     \<and> take n out' = bs \<and> drop n out' = drop n out"
proof -
  obtain p where p: "parse_packet from_ip quoted = Inr p"
    using assms(2) by (auto simp: write_icmp_error_def split: sum.splits)
  have fam: "icmp_limit (pk_destination p) = icmp_limit (pk_source p)"
    "icmp_header_len (pk_destination p) = icmp_header_len (pk_source p)"
    "icmp_kind_for (pk_destination p) error = icmp_kind_for (pk_source p) error"
    using parse_packet_family [OF p] by (auto simp: icmp_limit_def icmp_header_len_def icmp_kind_for_def)
  let ?quote = "take (icmp_limit (pk_source p) - icmp_header_len (pk_source p)) quoted"
  let ?builder = "icmp_packet (pk_destination p) (pk_source p) ICMP_TTL
    (icmp_kind_for (pk_source p) error)"
  obtain bs where bs: "bl_write ?builder ?quote = Some bs" "n \<le> length out"
    "n = icmp_header_len (pk_source p) + length ?quote" "out' = overwrite out 0 bs"
    using assms(2) unfolding write_icmp_error_eq [OF assms(1) p] fam
    by (auto simp: emit_def Let_def split: if_splits option.splits)
  moreover have "length bs = n"
    using assms(1) bs fam by (auto simp: icmp_sizes_def)
  moreover have "icmp_header_len (pk_source p) \<le> icmp_limit (pk_source p)"
    by (simp add: icmp_header_len_def icmp_limit_def MAX_ICMPV4_ERROR_def MAX_ICMPV6_ERROR_def
        split: ip_addr.splits)
  ultimately show ?thesis
    using p by (intro exI [of _ p] exI [of _ ?quote] exI [of _ bs]) (auto simp: overwrite_def)
qed

text \<open>A parser and a builder that meet the hypotheses, for the witness.\<close>

definition sample_parser :: ip_parser where
  "sample_parser packet =
     Inr \<lparr>sl_net = Some (NetIpv4 \<lparr>v4_source = 1, v4_destination = 2, v4_ecn = 0,
            v4_fragmented = False, v4_ihl = 5, v4_protocol = 17, v4_identification = 0,
            v4_fragments_offset = 0, v4_more_fragments = False, v4_payload = []\<rparr>),
          sl_transport = None\<rparr>"

definition sample_icmp :: icmp_packets where
  "sample_icmp s d ttl kind =
     \<lparr>bl_size = (\<lambda>n. icmp_header_len s + n),
      bl_write = (\<lambda>quote. Some (replicate (icmp_header_len s) 0 @ quote))\<rparr>"

theorem write_icmp_error_bounded_witness:
  "\<exists>n out'. write_icmp_error sample_parser sample_icmp (replicate 40 1) [1, 2, 3] TimeExceeded = Inr (n, out')
     \<and> n \<le> 576 \<and> drop n out' = drop n (replicate 40 1)"
proof -
  have sizes: "icmp_sizes sample_icmp" by (simp add: icmp_sizes_def sample_icmp_def)
  have "\<exists>n out'. write_icmp_error sample_parser sample_icmp (replicate 40 1) [1, 2, 3] TimeExceeded
      = Inr (n, out')"
    by (simp add: write_icmp_error_def sample_parser_def sample_icmp_def parse_packet_def parse_net_def
        classify_transport_def payload_coordinates_def icmp_header_len_def emit_def MAX_ICMPV4_ERROR_def)
  then obtain n out' where w: "write_icmp_error sample_parser sample_icmp (replicate 40 1) [1, 2, 3]
      TimeExceeded = Inr (n, out')" by blast
  moreover have "\<exists>p. parse_packet sample_parser [1, 2, 3] = Inr p \<and> pk_source p = V4 1"
    by (simp add: sample_parser_def parse_packet_def parse_net_def classify_transport_def
        payload_coordinates_def)
  ultimately show ?thesis
    using write_icmp_error_bounded [OF sizes w]
    by (auto simp: icmp_limit_def MAX_ICMPV4_ERROR_def)
qed

end
