(* ===== verification/Planning.thy ===== *)
theory Planning
  imports Net
begin

text \<open>
  The flow planner of \<^verbatim>\<open>src/lib.rs\<close>: MTU and QUIC budgets, live path properties and their
  composition, the plan of a flow, re-planning after a path change, and the classification
  of a packet before and after planning.
\<close>

section \<open>Budgets\<close>

definition MIN_QUIC_MTU :: u16 where "MIN_QUIC_MTU = 1200"
definition HTTPS_PORT :: u16 where "HTTPS_PORT = 443"
definition MIN_IPV6_MTU :: u16 where "MIN_IPV6_MTU = 1280"
definition DNS_PORT :: u16 where "DNS_PORT = 53"

datatype mtu = Mtu (mtu_get: u16)

datatype mtu_error = BelowMinimum u16

definition mtu_new :: "u16 \<Rightarrow> mtu_error + mtu" where
  "mtu_new bytes = (if MIN_IPV6_MTU \<le> bytes then Inr (Mtu bytes) else Inl (BelowMinimum bytes))"

datatype quic_budget = QuicBudget (quic_budget_get: u16)

definition quic_budget_new :: "u16 \<Rightarrow> quic_budget option" where
  "quic_budget_new bytes = (if MIN_QUIC_MTU \<le> bytes then Some (QuicBudget bytes) else None)"

definition mtu_quic_budget :: "mtu \<Rightarrow> quic_budget option" where
  "mtu_quic_budget m = quic_budget_new (mtu_get m)"

definition admits_quic :: "mtu \<Rightarrow> bool" where
  "admits_quic m \<longleftrightarrow> mtu_quic_budget m \<noteq> None"

section \<open>Path properties\<close>

datatype accepts = IpPackets | Flows

datatype datagram_fidelity = FidelityNone | Emulated | Native

datatype nat_behavior = AddressAndPortDependent | AddressDependent | EndpointIndependent

text \<open>The derived orders follow the declaration order of the variants.\<close>

fun fidelity_rank :: "datagram_fidelity \<Rightarrow> nat" where
  "fidelity_rank FidelityNone = 0"
| "fidelity_rank Emulated = 1"
| "fidelity_rank Native = 2"

fun nat_rank :: "nat_behavior \<Rightarrow> nat" where
  "nat_rank AddressAndPortDependent = 0"
| "nat_rank AddressDependent = 1"
| "nat_rank EndpointIndependent = 2"

lemma fidelity_rank_inj: "fidelity_rank a = fidelity_rank b \<Longrightarrow> a = b"
  by (cases a; cases b) auto

lemma nat_rank_inj: "nat_rank a = nat_rank b \<Longrightarrow> a = b"
  by (cases a; cases b) auto

instantiation datagram_fidelity :: linorder
begin

definition less_eq_datagram_fidelity :: "datagram_fidelity \<Rightarrow> datagram_fidelity \<Rightarrow> bool" where
  "a \<le> b \<longleftrightarrow> fidelity_rank a \<le> fidelity_rank b"

definition less_datagram_fidelity :: "datagram_fidelity \<Rightarrow> datagram_fidelity \<Rightarrow> bool" where
  "a < b \<longleftrightarrow> fidelity_rank a < fidelity_rank b"

instance
  by standard
    (auto simp: less_eq_datagram_fidelity_def less_datagram_fidelity_def intro: fidelity_rank_inj)

end

instantiation nat_behavior :: linorder
begin

definition less_eq_nat_behavior :: "nat_behavior \<Rightarrow> nat_behavior \<Rightarrow> bool" where
  "a \<le> b \<longleftrightarrow> nat_rank a \<le> nat_rank b"

definition less_nat_behavior :: "nat_behavior \<Rightarrow> nat_behavior \<Rightarrow> bool" where
  "a < b \<longleftrightarrow> nat_rank a < nat_rank b"

instance
  by standard (auto simp: less_eq_nat_behavior_def less_nat_behavior_def intro: nat_rank_inj)

end

record path_properties =
  datagram_fidelity :: datagram_fidelity
  overhead_bytes :: u16
  max_datagram_size :: "u16 option"
  preserves_ecn :: bool
  nat_behavior :: nat_behavior

datatype chain_error = MixedLayers | OverheadOverflow

definition chain_sizes :: "u16 option \<Rightarrow> u16 option \<Rightarrow> u16 option" where
  "chain_sizes left right =
     (case (left, right) of
        (Some l, Some r) \<Rightarrow> Some (min l r)
      | (l, None) \<Rightarrow> l
      | (None, r) \<Rightarrow> r)"

definition chain :: "path_properties \<Rightarrow> path_properties \<Rightarrow> chain_error + path_properties" where
  "chain self next =
     (case checked_add (overhead_bytes self) (overhead_bytes next) of
        None \<Rightarrow> Inl OverheadOverflow
      | Some overhead \<Rightarrow>
          Inr \<lparr>datagram_fidelity = min (datagram_fidelity self) (datagram_fidelity next),
               overhead_bytes = overhead,
               max_datagram_size = chain_sizes (max_datagram_size self) (max_datagram_size next),
               preserves_ecn = (preserves_ecn self \<and> preserves_ecn next),
               nat_behavior = min (nat_behavior self) (nat_behavior next)\<rparr>)"

section \<open>Policies, plans, actions\<close>

datatype filter_policy = FilterPassThrough | InspectHttp

datatype inspection = Candidate | Excluded

definition ALL_INSPECTIONS :: "inspection list" where
  "ALL_INSPECTIONS = [Candidate, Excluded]"

fun inspection_index :: "inspection \<Rightarrow> nat" where
  "inspection_index Candidate = 0"
| "inspection_index Excluded = 1"

datatype dns_policy = DnsIntercept | DnsForward

datatype transport_path = PacketFastPath mtu | LocalTermination

datatype steering_reason = InspectionRequired | DatagramFidelity | MtuBelowMinimum

datatype quic_policy = QuicPassThrough | SteerToHttp2 steering_reason

record flow_plan =
  plan_transport :: transport_path
  plan_quic :: quic_policy

datatype plan_error = OverheadExceedsPathMtu | InnerMtu mtu_error

datatype replan = Unchanged | Resteer steering_reason flow_plan | Teardown

datatype ingress_action =
  Reassemble
| ResolveDns
| DropSteered
| ForwardPacket flow_plan
| OpenStream flow_plan
| OpenDatagram flow_plan
| HandleIcmp flow_plan
| DropUnsupported

datatype backstop = Lapsed | Active

datatype admission = Settled ingress_action | Planned

definition admit :: "transport \<Rightarrow> dns_policy \<Rightarrow> backstop \<Rightarrow> admission" where
  "admit t dns backstop =
     (case t of
        Fragment \<Rightarrow> Settled Reassemble
      | Other \<Rightarrow> Settled DropUnsupported
      | Udp s d \<Rightarrow>
          (if d = DNS_PORT \<and> dns = DnsIntercept then Settled ResolveDns
           else if d = HTTPS_PORT \<and> backstop = Active then Settled DropSteered
           else Planned)
      | Tcp s d \<Rightarrow> Planned
      | Icmp c \<Rightarrow> Planned)"

fun is_fast_path :: "transport_path \<Rightarrow> bool" where
  "is_fast_path (PacketFastPath _) = True"
| "is_fast_path LocalTermination = False"

definition route_planned :: "transport \<Rightarrow> flow_plan \<Rightarrow> ingress_action" where
  "route_planned t plan =
     (if is_fast_path (plan_transport plan) then ForwardPacket plan
      else case t of
        Tcp s d \<Rightarrow> OpenStream plan
      | Udp s d \<Rightarrow> OpenDatagram plan
      | Icmp c \<Rightarrow> HandleIcmp plan
      | Other \<Rightarrow> DropUnsupported
      | Fragment \<Rightarrow> DropUnsupported)"

definition inspected_flow :: "filter_policy \<Rightarrow> inspection \<Rightarrow> bool" where
  "inspected_flow flt inspection \<longleftrightarrow> flt = InspectHttp \<and> inspection = Candidate"

text \<open>The packet path's inner MTU, what is left of the path MTU after the egress overhead.\<close>

definition plan_inner_mtu :: "path_properties \<Rightarrow> mtu \<Rightarrow> plan_error + mtu" where
  "plan_inner_mtu egress path_mtu =
     (case checked_sub (mtu_get path_mtu) (overhead_bytes egress) of
        None \<Rightarrow> Inl OverheadExceedsPathMtu
      | Some bytes \<Rightarrow> (case mtu_new bytes of Inl e \<Rightarrow> Inl (InnerMtu e) | Inr m \<Rightarrow> Inr m))"

definition plan_transport_path ::
    "bool \<Rightarrow> accepts \<Rightarrow> path_properties \<Rightarrow> mtu \<Rightarrow> plan_error + transport_path" where
  "plan_transport_path inspected accepts egress path_mtu =
     (case (inspected, accepts) of
        (False, IpPackets) \<Rightarrow>
          (case plan_inner_mtu egress path_mtu of
             Inl e \<Rightarrow> Inl e
           | Inr inner \<Rightarrow> Inr (PacketFastPath inner))
      | _ \<Rightarrow> Inr LocalTermination)"

definition datagram_budget :: "path_properties \<Rightarrow> transport_path \<Rightarrow> quic_budget option" where
  "datagram_budget egress path =
     (case path of
        PacketFastPath inner \<Rightarrow> mtu_quic_budget inner
      | LocalTermination \<Rightarrow> Option.bind (max_datagram_size egress) quic_budget_new)"

definition plan_quic_policy :: "bool \<Rightarrow> path_properties \<Rightarrow> quic_budget option \<Rightarrow> quic_policy" where
  "plan_quic_policy inspected egress budget =
     (if inspected then SteerToHttp2 InspectionRequired
      else if datagram_fidelity egress \<noteq> Native then SteerToHttp2 DatagramFidelity
      else if budget = None then SteerToHttp2 MtuBelowMinimum
      else QuicPassThrough)"

definition plan_flow ::
    "filter_policy \<Rightarrow> inspection \<Rightarrow> accepts \<Rightarrow> path_properties \<Rightarrow> mtu \<Rightarrow> plan_error + flow_plan" where
  "plan_flow flt inspection accepts egress path_mtu =
     (let inspected = inspected_flow flt inspection
      in case plan_transport_path inspected accepts egress path_mtu of
           Inl e \<Rightarrow> Inl e
         | Inr path \<Rightarrow>
             Inr \<lparr>plan_transport = path,
                  plan_quic = plan_quic_policy inspected egress (datagram_budget egress path)\<rparr>)"

text \<open>The layer a live flow runs on, recovered from its plan and its inspection verdict.\<close>

definition flow_layer :: "flow_plan \<Rightarrow> bool \<Rightarrow> accepts \<Rightarrow> accepts" where
  "flow_layer current inspected accepts =
     (case plan_transport current of
        PacketFastPath _ \<Rightarrow> IpPackets
      | LocalTermination \<Rightarrow> (if inspected then accepts else Flows))"

definition replan_flow ::
    "flow_plan \<Rightarrow> filter_policy \<Rightarrow> inspection \<Rightarrow> accepts \<Rightarrow> path_properties \<Rightarrow> mtu
     \<Rightarrow> plan_error + replan" where
  "replan_flow current flt inspection accepts next path_mtu =
     (if accepts \<noteq> flow_layer current (inspected_flow flt inspection) accepts then Inr Teardown
      else case plan_flow flt inspection accepts next path_mtu of
        Inl e \<Rightarrow> Inl e
      | Inr next_plan \<Rightarrow>
          (if is_fast_path (plan_transport next_plan) \<noteq> is_fast_path (plan_transport current)
           then Inr Teardown
           else Inr (case (plan_quic current, plan_quic next_plan) of
                  (QuicPassThrough, SteerToHttp2 reason) \<Rightarrow> Resteer reason next_plan
                | _ \<Rightarrow> Unchanged)))"

definition route_ingress ::
    "transport \<Rightarrow> flow_plan \<Rightarrow> dns_policy \<Rightarrow> backstop \<Rightarrow> ingress_action" where
  "route_ingress t plan dns backstop =
     (case admit t dns backstop of
        Settled action \<Rightarrow> action
      | Planned \<Rightarrow> route_planned t plan)"

section \<open>Budgets are floors\<close>

named_theorems planning_simps \<open>unfolding of the planner's definitions\<close>

lemmas planning_defs [planning_simps] =
  MIN_QUIC_MTU_def MIN_IPV6_MTU_def mtu_new_def quic_budget_new_def mtu_quic_budget_def
  plan_inner_mtu_def plan_transport_path_def datagram_budget_def plan_quic_policy_def
  inspected_flow_def

lemma mtu_new_Inr: "mtu_new bytes = Inr m \<longleftrightarrow> MIN_IPV6_MTU \<le> bytes \<and> m = Mtu bytes"
  by (auto simp: mtu_new_def)

lemma ipv6_floor_admits_quic: "mtu_new bytes = Inr m \<Longrightarrow> admits_quic m"
  by (auto simp: admits_quic_def planning_simps word_le_nat_alt split: if_splits)

lemma plan_inner_mtu_Inr:
  "plan_inner_mtu egress path_mtu = Inr inner \<Longrightarrow>
     unat (mtu_get inner) + unat (overhead_bytes egress) = unat (mtu_get path_mtu) \<and>
     1280 \<le> unat (mtu_get inner)"
  by (auto simp: planning_simps word_le_nat_alt dest!: unat_checked_sub
      split: option.splits if_splits sum.splits)

lemma plan_flow_Inr:
  assumes "plan_flow flt inspection accepts egress path_mtu = Inr plan"
  shows "plan_transport_path (inspected_flow flt inspection) accepts egress path_mtu
           = Inr (plan_transport plan)"
    and "plan_quic plan
           = plan_quic_policy (inspected_flow flt inspection) egress
               (datagram_budget egress (plan_transport plan))"
  using assms by (auto simp: plan_flow_def Let_def split: sum.splits)

lemma plan_transport_path_fast:
  "plan_transport_path inspected accepts egress path_mtu = Inr (PacketFastPath inner) \<longleftrightarrow>
     \<not> inspected \<and> accepts = IpPackets \<and> plan_inner_mtu egress path_mtu = Inr inner"
  by (auto simp: plan_transport_path_def split: bool.splits accepts.splits sum.splits)

lemma plan_transport_path_local:
  "plan_transport_path inspected accepts egress path_mtu = Inr LocalTermination \<longleftrightarrow>
     inspected \<or> accepts = Flows"
  by (auto simp: plan_transport_path_def split: bool.splits accepts.splits sum.splits)

lemma datagram_budget_fast:
  "plan_inner_mtu egress path_mtu = Inr inner \<Longrightarrow> datagram_budget egress (PacketFastPath inner) \<noteq> None"
  using plan_inner_mtu_Inr [of egress path_mtu inner]
  by (auto simp: datagram_budget_def mtu_quic_budget_def quic_budget_new_def MIN_QUIC_MTU_def
      word_le_nat_alt)

section \<open>Properties of the planner\<close>

text \<open>
  QUIC passes exactly when the flow is not inspected, the egress carries native
  datagrams and the datagram budget reaches RFC 9000's 1200 bytes: on the packet path it
  always does, because the inner MTU, which together with the overhead makes up the path MTU,
  is at least the IPv6 minimum; on a terminated flow it does when the declared ceiling does.
\<close>

theorem plan_flow_quic_passes_iff:
  assumes "plan_flow flt inspection accepts egress path_mtu = Inr plan"
  shows "(plan_quic plan = QuicPassThrough \<longleftrightarrow>
            \<not> (flt = InspectHttp \<and> inspection = Candidate) \<and> datagram_fidelity egress = Native \<and>
            (plan_transport plan = LocalTermination \<longrightarrow>
               (\<exists>ceiling. max_datagram_size egress = Some ceiling \<and> 1200 \<le> ceiling))) \<and>
         (\<forall>inner. plan_transport plan = PacketFastPath inner \<longrightarrow>
            unat (mtu_get inner) + unat (overhead_bytes egress) = unat (mtu_get path_mtu) \<and>
            1280 \<le> unat (mtu_get inner))"
proof (cases "plan_transport plan")
  case (PacketFastPath inner)
  then have inner: "plan_inner_mtu egress path_mtu = Inr inner"
    and free: "\<not> inspected_flow flt inspection"
    using plan_flow_Inr(1) [OF assms] by (simp_all add: plan_transport_path_fast)
  then show ?thesis
    using plan_flow_Inr(2) [OF assms] PacketFastPath datagram_budget_fast [OF inner]
      plan_inner_mtu_Inr [OF inner]
    by (auto simp: plan_quic_policy_def inspected_flow_def)
next
  case LocalTermination
  then show ?thesis
    using plan_flow_Inr(2) [OF assms]
    by (auto simp: planning_simps split: if_splits bind_splits)
qed

theorem plan_flow_quic_passes_iff_witness:
  "let egress = \<lparr>datagram_fidelity = Native, overhead_bytes = 60, max_datagram_size = None,
                 preserves_ecn = True, nat_behavior = EndpointIndependent\<rparr>;
       plan = \<lparr>plan_transport = PacketFastPath (Mtu 1440), plan_quic = QuicPassThrough\<rparr>
   in plan_flow InspectHttp Excluded IpPackets egress (Mtu 1500) = Inr plan \<and>
      unat (mtu_get (Mtu 1440)) + unat (overhead_bytes egress) = unat (mtu_get (Mtu 1500))"
proof -
  let ?egress = "\<lparr>datagram_fidelity = Native, overhead_bytes = 60, max_datagram_size = None,
                 preserves_ecn = True, nat_behavior = EndpointIndependent\<rparr>"
  let ?plan = "\<lparr>plan_transport = PacketFastPath (Mtu 1440), plan_quic = QuicPassThrough\<rparr>"
  have h: "plan_flow InspectHttp Excluded IpPackets ?egress (Mtu 1500) = Inr ?plan"
    by (simp add: plan_flow_def planning_simps checked_sub_def)
  show ?thesis using plan_flow_quic_passes_iff [OF h] h by simp
qed

lemma chain_commute: "chain a b = chain b a"
  by (simp add: chain_def checked_add_commute [of "overhead_bytes b"] min.commute conj_commute
      chain_sizes_def split: option.splits)

lemma chain_sizes_assoc: "chain_sizes (chain_sizes a b) c = chain_sizes a (chain_sizes b c)"
  by (cases a; cases b; cases c) (simp_all add: chain_sizes_def min.assoc)

lemma chain_assoc:
  "(case chain a b of Inl e \<Rightarrow> Inl e | Inr ab \<Rightarrow> chain ab c)
     = (case chain b c of Inl e \<Rightarrow> Inl e | Inr bc \<Rightarrow> chain a bc)"
  using checked_add_assoc [of "overhead_bytes a" "overhead_bytes b" "overhead_bytes c"]
  by (cases "checked_add (overhead_bytes a) (overhead_bytes b)";
      cases "checked_add (overhead_bytes b) (overhead_bytes c)")
    (simp_all add: chain_def chain_sizes_assoc min.assoc split: option.splits)

lemma chain_Inr:
  "chain a b = Inr p \<Longrightarrow>
     unat (overhead_bytes p) = unat (overhead_bytes a) + unat (overhead_bytes b) \<and>
     datagram_fidelity p = min (datagram_fidelity a) (datagram_fidelity b) \<and>
     nat_behavior p = min (nat_behavior a) (nat_behavior b) \<and>
     preserves_ecn p = (preserves_ecn a \<and> preserves_ecn b) \<and>
     max_datagram_size p = chain_sizes (max_datagram_size a) (max_datagram_size b)"
  by (auto simp: chain_def dest!: unat_checked_add split: option.splits)

text \<open>
  Composing egresses is a weakest-link operation: it is commutative and, errors included,
  associative; it fails only when the overheads overflow their sixteen bits, and otherwise the
  overhead is the exact sum and no other dimension is better than in either member.
\<close>

theorem chain_weakest_link:
  "chain a b = chain b a \<and>
   (case chain a b of Inl e \<Rightarrow> Inl e | Inr ab \<Rightarrow> chain ab c)
     = (case chain b c of Inl e \<Rightarrow> Inl e | Inr bc \<Rightarrow> chain a bc) \<and>
   (case chain a b of
      Inl e \<Rightarrow> e = OverheadOverflow \<and> 65536 \<le> unat (overhead_bytes a) + unat (overhead_bytes b)
    | Inr p \<Rightarrow>
        unat (overhead_bytes p) = unat (overhead_bytes a) + unat (overhead_bytes b) \<and>
        datagram_fidelity p = min (datagram_fidelity a) (datagram_fidelity b) \<and>
        nat_behavior p = min (nat_behavior a) (nat_behavior b) \<and>
        preserves_ecn p = (preserves_ecn a \<and> preserves_ecn b) \<and>
        max_datagram_size p = chain_sizes (max_datagram_size a) (max_datagram_size b))"
proof (intro conjI)
  show "chain a b = chain b a" by (rule chain_commute)
  show "(case chain a b of Inl e \<Rightarrow> Inl e | Inr ab \<Rightarrow> chain ab c)
     = (case chain b c of Inl e \<Rightarrow> Inl e | Inr bc \<Rightarrow> chain a bc)" by (rule chain_assoc)
next
  show "case chain a b of
      Inl e \<Rightarrow> e = OverheadOverflow \<and> 65536 \<le> unat (overhead_bytes a) + unat (overhead_bytes b)
    | Inr p \<Rightarrow>
        unat (overhead_bytes p) = unat (overhead_bytes a) + unat (overhead_bytes b) \<and>
        datagram_fidelity p = min (datagram_fidelity a) (datagram_fidelity b) \<and>
        nat_behavior p = min (nat_behavior a) (nat_behavior b) \<and>
        preserves_ecn p = (preserves_ecn a \<and> preserves_ecn b) \<and>
        max_datagram_size p = chain_sizes (max_datagram_size a) (max_datagram_size b)"
  proof (cases "chain a b")
    case (Inl e)
    then show ?thesis
      by (auto simp: chain_def checked_add_def split: option.splits if_splits)
  next
    case (Inr p)
    then show ?thesis using chain_Inr [OF Inr] by simp
  qed
qed






text \<open>A terminated flow re-planned as \<open>Excluded\<close> on a packet egress is always torn down.\<close>

lemma replan_flow_excluded_terminated:
  "plan_transport plan = LocalTermination \<Longrightarrow>
   replan_flow plan flt Excluded IpPackets next path_mtu = Inr Teardown"
  by (simp add: replan_flow_def flow_layer_def inspected_flow_def)

end
