(* ===== verification/Path_Mtu.thy ===== *)
theory Path_Mtu
  imports Packet Planning
begin

text \<open>
  Path MTU decisions of \<^verbatim>\<open>src/l3/path.rs\<close>: the parser of TCP options, the clamp of a SYN's
  maximum segment size in both families with the full recomputation of the TCP checksum, and the
  test of an inbound Packet Too Big message against the known flows.
\<close>

section \<open>TCP options\<close>

definition OPTION_END :: u8 where "OPTION_END = 0"
definition OPTION_NOOP :: u8 where "OPTION_NOOP = 1"
definition OPTION_MSS :: u8 where "OPTION_MSS = 2"
definition FLAG_SYN :: u8 where "FLAG_SYN = 0x02"

record tcp_option =
  op_kind :: u8
  op_at :: nat
  op_value :: bytes

text \<open>The options the iterator yields from a reader on; each step consumes at least one byte.\<close>

function options_from :: "reader \<Rightarrow> tcp_option list" where
  "options_from r =
     (case reader_u8 r of
        None \<Rightarrow> []
      | Some (kind, r1) \<Rightarrow>
          (if kind = OPTION_END then []
           else if kind = OPTION_NOOP then options_from r1
           else (case reader_u8 r1 of
                   None \<Rightarrow> []
                 | Some (len, r2) \<Rightarrow>
                     (if unat len < 2 then []
                      else (case reader_take (unat len - 2) r2 of
                              None \<Rightarrow> []
                            | Some (v, r3) \<Rightarrow>
                                \<lparr>op_kind = kind, op_at = 20 + reader_position r2, op_value = v\<rparr>
                                # options_from r3)))))"
  by pat_completeness auto

termination options_from
proof (relation "measure (\<lambda>r. length (rd_bytes r) - rd_at r)", goal_cases)
  case (2 r x kind r1)
  then show ?case by (auto simp: reader_u8_Some)
next
  case (3 r x kind r1 y len r2 z v r3)
  then show ?case by (auto simp: reader_u8_Some reader_take_Some)
qed simp

declare options_from.simps [simp del]

definition tcp_options :: "bytes \<Rightarrow> tcp_option list" where
  "tcp_options segment =
     (let header_len = unat (drop_bit 4 (case slice_get segment 12 of None \<Rightarrow> 0 | Some b \<Rightarrow> b)) * 4;
          options = (case slice_range segment 20 header_len of None \<Rightarrow> [] | Some bs \<Rightarrow> bs)
      in options_from (reader_new options))"

definition mss_above :: "bytes \<Rightarrow> u16 \<Rightarrow> nat option" where
  "mss_above segment clamp =
     (case slice_get segment 13 of
        None \<Rightarrow> None
      | Some flags \<Rightarrow>
          (if flags AND FLAG_SYN = 0 then None
           else case find (\<lambda>option. op_kind option = OPTION_MSS) (tcp_options segment) of
             None \<Rightarrow> None
           | Some mss \<Rightarrow>
               (case reader_u16 (reader_new (op_value mss)) of
                  None \<Rightarrow> None
                | Some (advertised, _) \<Rightarrow> if clamp < advertised then Some (op_at mss) else None)))"

section \<open>The clamp\<close>

definition clamp_ipv4 :: "bytes \<Rightarrow> u16 \<Rightarrow> bool \<times> bytes" where
  "clamp_ipv4 packet clamp =
     (let ihl = unat (packet ! 0 AND 0x0f) * 4
      in if ihl < 20 \<or> length packet < ihl + 20 \<or> packet ! 9 \<noteq> 6 then (False, packet)
      else let total = unat (from_be [packet ! 2, packet ! 3] :: u16)
      in if length packet < total \<or> total < ihl + 20 then (False, packet)
      else case mss_above (take (total - ihl) (drop ihl packet)) clamp of
        None \<Rightarrow> (False, packet)
      | Some at \<Rightarrow>
          (let p1 = overwrite packet (ihl + at) (to_be_16 clamp);
               tcp_len = of_nat (total - ihl) :: u16;
               p2 = overwrite p1 (ihl + 16) [0, 0];
               ck = checksum [take 4 (drop 12 p2), take 4 (drop 16 p2), [0, 6], to_be_16 tcp_len,
                              take (total - ihl) (drop ihl p2)]
           in (True, overwrite p2 (ihl + 16) (to_be_16 ck))))"

definition clamp_ipv6 :: "bytes \<Rightarrow> u16 \<Rightarrow> bool \<times> bytes" where
  "clamp_ipv6 packet clamp =
     (if length packet < 60 \<or> packet ! 6 \<noteq> 6 then (False, packet)
      else let payload_len = unat (from_be [packet ! 4, packet ! 5] :: u16);
               total = 40 + payload_len
      in if length packet < total then (False, packet)
      else case mss_above (take (total - 40) (drop 40 packet)) clamp of
        None \<Rightarrow> (False, packet)
      | Some at \<Rightarrow>
          (let p1 = overwrite packet (40 + at) (to_be_16 clamp);
               p2 = overwrite p1 56 [0, 0];
               ck = checksum [take 16 (drop 8 p2), take 16 (drop 24 p2),
                              to_be_32 (of_nat payload_len), [0, 0, 0, 6],
                              take (total - 40) (drop 40 p2)]
           in (True, overwrite p2 56 (to_be_16 ck))))"

definition clamp_mss :: "bytes \<Rightarrow> mtu \<Rightarrow> bool \<times> bytes" where
  "clamp_mss packet inner_mtu =
     (case ip_version packet of
        None \<Rightarrow> (False, packet)
      | Some v \<Rightarrow>
          (if v = 4 then clamp_ipv4 packet (saturating_sub (mtu_get inner_mtu) 40)
           else if v = 6 then clamp_ipv6 packet (saturating_sub (mtu_get inner_mtu) 60)
           else (False, packet)))"

section \<open>The option parser\<close>

lemma options_from_nonempty:
  assumes "options_from r \<noteq> []"
  obtains (Noop) r1 where "reader_u8 r = Some (OPTION_NOOP, r1)" "OPTION_NOOP \<noteq> OPTION_END"
      "options_from r = options_from r1"
  | (Option) kind r1 len r2 v r3 where "reader_u8 r = Some (kind, r1)"
      "kind \<noteq> OPTION_END" "kind \<noteq> OPTION_NOOP" "reader_u8 r1 = Some (len, r2)" "\<not> unat len < 2"
      "reader_take (unat len - 2) r2 = Some (v, r3)"
      "options_from r = \<lparr>op_kind = kind, op_at = 20 + reader_position r2, op_value = v\<rparr> # options_from r3"
proof (cases "reader_u8 r")
  case None
  with assms show ?thesis by (simp add: options_from.simps [of r])
next
  case (Some p)
  obtain kind r1 where p: "p = (kind, r1)" by (cases p)
  note r = options_from.simps [of r]
  show ?thesis
  proof (cases "kind = OPTION_END \<or> kind = OPTION_NOOP")
    case True
    with assms Some p Noop [of r1] show ?thesis by (auto simp: r OPTION_END_def OPTION_NOOP_def)
  next
    case False
    with assms Some p obtain len r2 where r2: "reader_u8 r1 = Some (len, r2)" "\<not> unat len < 2"
      by (cases "reader_u8 r1") (auto simp: r split: if_splits)
    with assms Some p False obtain v r3 where "reader_take (unat len - 2) r2 = Some (v, r3)"
      by (cases "reader_take (unat len - 2) r2") (auto simp: r)
    with Some p False r2 Option show ?thesis by (auto simp: r)
  qed
qed

text \<open>Every option lies inside the option bytes, past the point the reader had reached.\<close>

lemma options_from_within:
  "option \<in> set (options_from r) \<Longrightarrow>
     rd_at r + 22 \<le> op_at option
     \<and> op_at option - 20 + length (op_value option) \<le> length (rd_bytes r)
     \<and> op_value option = take (length (op_value option)) (drop (op_at option - 20) (rd_bytes r))"
proof (induction r rule: options_from.induct)
  case (1 r)
  then have "options_from r \<noteq> []" by auto
  then show ?case
  proof (cases r rule: options_from_nonempty)
    case (Noop r1)
    with "1.IH"(1) [OF Noop(1) refl Noop(2) refl] "1.prems" show ?thesis
      by (auto simp: reader_u8_Some)
  next
    case (Option kind r1 len r2 v r3)
    consider "option = \<lparr>op_kind = kind, op_at = 20 + reader_position r2, op_value = v\<rparr>"
      | "option \<in> set (options_from r3)"
      using 1(3) Option(7) by auto
    then show ?thesis
      using Option "1.IH"(2) [OF Option(1) refl Option(2,3,4) refl Option(5,6) refl]
      by cases (auto simp: reader_u8_Some reader_take_Some reader_rest_def reader_position_def)
  qed
qed

text \<open>
  Rewriting the value of the first option of a kind does not change how the options are split:
  the same option is found at the same place, with the new value.
\<close>

lemma find_option_stable:
  assumes "find (\<lambda>option. op_kind option = k) (options_from r) = Some found"
    and "length bs = length (rd_bytes r)"
    and "\<And>i. i < op_at found - 20 \<Longrightarrow> bs ! i = rd_bytes r ! i"
    and "\<And>i. op_at found - 20 + length (op_value found) \<le> i \<Longrightarrow> i < length bs \<Longrightarrow> bs ! i = rd_bytes r ! i"
  shows "find (\<lambda>option. op_kind option = k) (options_from (r\<lparr>rd_bytes := bs\<rparr>)) =
     Some (found\<lparr>op_value := take (length (op_value found)) (drop (op_at found - 20) bs)\<rparr>)"
  using assms
proof (induction r rule: options_from.induct)
  case (1 r)
  note IH = "1.IH" and hit = "1.prems"(1) and same = "1.prems"(2-)
  let ?find = "find (\<lambda>option. op_kind option = k)" and ?r' = "r\<lparr>rd_bytes := bs\<rparr>"
  have "found \<in> set (options_from r)" using hit by (metis find_Some_iff nth_mem)
  then have at: "rd_at r + 2 \<le> op_at found - 20" and "options_from r \<noteq> []"
    using options_from_within [of found r] by auto
  from this(2) show ?case
  proof (cases r rule: options_from_nonempty)
    case (Noop r1)
    then have "reader_u8 ?r' = Some (OPTION_NOOP, r1\<lparr>rd_bytes := bs\<rparr>)"
      using same at by (auto simp: reader_u8_Some)
    then have "options_from ?r' = options_from (r1\<lparr>rd_bytes := bs\<rparr>)"
      using Noop(2) by (simp add: options_from.simps [of ?r'])
    with Noop hit same IH(1) [OF Noop(1) refl Noop(2) refl] show ?thesis
      by (simp add: reader_u8_Some)
  next
    case (Option kind r1 len r2 v r3)
    then have "reader_u8 ?r' = Some (kind, r1\<lparr>rd_bytes := bs\<rparr>)"
      "reader_u8 (r1\<lparr>rd_bytes := bs\<rparr>) = Some (len, r2\<lparr>rd_bytes := bs\<rparr>)"
      using same at by (auto simp: reader_u8_Some)
    moreover have "reader_take (unat len - 2) (r2\<lparr>rd_bytes := bs\<rparr>)
        = Some (take (unat len - 2) (drop (rd_at r2) bs), r3\<lparr>rd_bytes := bs\<rparr>)"
      using Option same(1) by (auto simp: reader_take_Some reader_u8_Some reader_rest_def)
    ultimately have r': "options_from ?r' = \<lparr>op_kind = kind, op_at = 20 + reader_position r2,
        op_value = take (unat len - 2) (drop (rd_at r2) bs)\<rparr> # options_from (r3\<lparr>rd_bytes := bs\<rparr>)"
      using Option by (simp add: options_from.simps [of ?r'] reader_position_def)
    show ?thesis
    proof (cases "kind = k")
      case True
      then show ?thesis
        using hit Option by (auto simp: r' reader_take_Some reader_position_def reader_rest_def)
    next
      case False
      with hit Option(7) have "?find (options_from r3) = Some found" by simp
      from IH(2) [OF Option(1) refl Option(2,3,4) refl Option(5,6) refl this]
      show ?thesis using False Option same by (simp add: r' reader_u8_Some reader_take_Some)
    qed
  qed
qed

section \<open>The clamped segment\<close>

text \<open>Both families rewrite the option, zero the checksum field and store the new checksum.\<close>

definition clamped_segment :: "bytes \<Rightarrow> bytes \<Rightarrow> nat \<Rightarrow> u16 \<Rightarrow> bytes" where
  "clamped_segment pseudo segment at clamp =
     (let s2 = overwrite (overwrite segment at (to_be_16 clamp)) 16 [0, 0]
      in overwrite s2 16 (to_be_16 (checksum [pseudo, s2])))"

lemma tcp_options_eq:
  fixes segment :: bytes
  defines "n \<equiv> unat (drop_bit 4 (segment ! 12)) * 4"
  assumes "20 \<le> length segment" and "n \<le> length segment"
  shows "tcp_options segment = options_from (reader_new (take (n - 20) (drop 20 segment)))"
  using assms by (auto simp: tcp_options_def Let_def slice_get_def slice_range_def)

lemma mss_above_Some:
  assumes "mss_above segment clamp = Some at"
  obtains mss where "find (\<lambda>option. op_kind option = OPTION_MSS) (tcp_options segment) = Some mss"
    "op_at mss = at" "2 \<le> length (op_value mss)" "22 \<le> at"
    "at + length (op_value mss) \<le> unat (drop_bit 4 (segment ! 12)) * 4"
    "unat (drop_bit 4 (segment ! 12)) * 4 \<le> length segment"
proof -
  define n where "n = unat (drop_bit 4 (case slice_get segment 12 of None \<Rightarrow> 0 | Some b \<Rightarrow> b)) * 4"
  obtain mss where mss: "find (\<lambda>option. op_kind option = OPTION_MSS) (tcp_options segment) = Some mss"
    "op_at mss = at" "2 \<le> length (op_value mss)" "segment ! 13 AND FLAG_SYN \<noteq> 0"
    using assms by (auto simp: mss_above_def slice_get_def reader_u16_Some reader_new_def
        split: option.splits if_splits)
  let ?r = "reader_new (case slice_range segment 20 n of None \<Rightarrow> [] | Some bs \<Rightarrow> bs)"
  have "mss \<in> set (options_from ?r)"
    using mss(1) by (auto simp: tcp_options_def Let_def n_def find_Some_iff)
  then have within: "22 \<le> op_at mss" "op_at mss - 20 + length (op_value mss)
      \<le> length (case slice_range segment 20 n of None \<Rightarrow> [] | Some bs \<Rightarrow> bs)"
    using options_from_within [of mss ?r] by (auto simp: reader_new_def)
  with mss(3) have "20 \<le> n" "n \<le> length segment" "at + length (op_value mss) \<le> n"
    using mss(2) by (auto simp: slice_range_def split: if_splits)
  moreover from this have "n = unat (drop_bit 4 (segment ! 12)) * 4"
    by (simp add: n_def slice_get_def)
  ultimately show thesis
    using mss within that [of mss] by simp
qed

lemma mss_above_bounds:
  assumes "mss_above segment clamp = Some at"
  shows "22 \<le> at" and "at + 2 \<le> length segment"
  using assms by (auto elim!: mss_above_Some)

lemma clamped_segment_nth:
  assumes "mss_above segment clamp = Some at" and "i < length segment"
  shows "clamped_segment pseudo segment at clamp ! i =
     (if at \<le> i \<and> i < at + 2 then to_be_16 clamp ! (i - at)
      else if 16 \<le> i \<and> i < 18 then to_be_16 (checksum [pseudo,
        overwrite (overwrite segment at (to_be_16 clamp)) 16 [0, 0]]) ! (i - 16)
      else segment ! i)"
  using mss_above_bounds [OF assms(1)] assms(2)
  by (auto simp: clamped_segment_def Let_def nth_overwrite)

lemma length_clamped_segment:
  "mss_above segment clamp = Some at \<Longrightarrow>
   length (clamped_segment pseudo segment at clamp) = length segment"
  using mss_above_bounds [of segment clamp at] by (simp add: clamped_segment_def Let_def)

lemma clamped_segment_valid:
  assumes "mss_above segment clamp = Some at" and "even (length pseudo)"
    and "length pseudo + length segment \<le> 131072"
  shows "checksum [pseudo, clamped_segment pseudo segment at clamp] = 0"
  using mss_above_bounds [OF assms(1)] assms(2,3) unfolding clamped_segment_def Let_def
  by (intro checksum_stored) (simp_all add: overwrite_def)

lemma clamped_segment_value:
  assumes "mss_above segment clamp = Some at"
  shows "take 2 (drop at (clamped_segment pseudo segment at clamp)) = to_be_16 clamp"
  using mss_above_bounds [OF assms]
  by (intro nth_equalityI)
    (simp_all add: length_clamped_segment [OF assms] clamped_segment_nth [OF assms])

text \<open>The clamped segment advertises no segment size above the clamp.\<close>

lemma mss_above_clamped:
  assumes "mss_above segment clamp = Some at"
  shows "mss_above (clamped_segment pseudo segment at clamp) clamp = None"
  using assms
proof (rule mss_above_Some)
  let ?s = "clamped_segment pseudo segment at clamp"
  define n where "n = unat (drop_bit 4 (segment ! 12)) * 4"
  let ?options = "\<lambda>bs :: bytes. take (n - 20) (drop 20 bs)"
  fix mss
  assume mss: "find (\<lambda>option. op_kind option = OPTION_MSS) (tcp_options segment) = Some mss"
    and at: "op_at mss = at" "2 \<le> length (op_value mss)" "22 \<le> at"
      "at + length (op_value mss) \<le> unat (drop_bit 4 (segment ! 12)) * 4"
      "unat (drop_bit 4 (segment ! 12)) * 4 \<le> length segment"
  note nth = clamped_segment_nth [OF assms] and len = length_clamped_segment [OF assms]
  have n: "at + length (op_value mss) \<le> n" "n \<le> length segment" using at by (simp_all add: n_def)
  have opts: "tcp_options segment = options_from (reader_new (?options segment))"
    "tcp_options ?s = options_from ((reader_new (?options segment))\<lparr>rd_bytes := ?options ?s\<rparr>)"
    using at n by (simp_all add: tcp_options_eq len nth reader_new_def n_def)
  have "find (\<lambda>option. op_kind option = OPTION_MSS) (tcp_options ?s) =
     Some (mss\<lparr>op_value := take (length (op_value mss)) (drop (op_at mss - 20) (?options ?s))\<rparr>)"
    unfolding opts(2)
    by (rule find_option_stable [OF mss [unfolded opts(1)]])
      (use at n in \<open>auto simp: len nth reader_new_def\<close>)
  moreover have "take 2 (take (length (op_value mss)) (drop (at - 20) (?options ?s))) = to_be_16 clamp"
    using clamped_segment_value [OF assms, of pseudo] at n
    by (auto simp: min_def drop_take)
  ultimately show ?thesis
    using at by (auto simp: mss_above_def reader_u16_Some reader_new_def split: option.splits)
qed

section \<open>The clamped packet\<close>

text \<open>Where the TCP segment of a packet lies, its pseudo-header and the clamp of its family.\<close>

definition tcp_bounds :: "bytes \<Rightarrow> nat \<times> nat" where
  "tcp_bounds packet =
     (if ip_version packet = Some 4
      then (unat (packet ! 0 AND 0x0f) * 4, unat (from_be [packet ! 2, packet ! 3] :: u16))
      else (40, 40 + unat (from_be [packet ! 4, packet ! 5] :: u16)))"

definition tcp_segment :: "bytes \<Rightarrow> bytes" where
  "tcp_segment packet = (let (a, b) = tcp_bounds packet in take (b - a) (drop a packet))"

definition tcp_pseudo :: "bytes \<Rightarrow> bytes" where
  "tcp_pseudo packet =
     (let (a, b) = tcp_bounds packet in
      if ip_version packet = Some 4
      then take 8 (drop 12 packet) @ [0, 6] @ to_be_16 (of_nat (b - a))
      else take 32 (drop 8 packet) @ to_be_32 (of_nat (b - a)) @ [0, 0, 0, 6])"

definition mss_clamp :: "bytes \<Rightarrow> mtu \<Rightarrow> u16" where
  "mss_clamp packet inner_mtu =
     saturating_sub (mtu_get inner_mtu) (if ip_version packet = Some 4 then 40 else 60)"

definition splice :: "bytes \<Rightarrow> nat \<Rightarrow> nat \<Rightarrow> bytes \<Rightarrow> bytes" where
  "splice packet a b segment = take a packet @ segment @ drop b packet"

lemma overwrite_splice:
  assumes "a \<le> b" and "b \<le> length packet" and "length segment = b - a"
    and "at + length ys \<le> length segment"
  shows "overwrite (splice packet a b segment) (a + at) ys = splice packet a b (overwrite segment at ys)"
  using assms by (auto simp: overwrite_def splice_def min_def)

lemma splice_same:
  assumes "a \<le> b" and "b \<le> length packet"
  shows "splice packet a b (take (b - a) (drop a packet)) = packet"
proof -
  have "drop b packet = drop (b - a) (drop a packet)" using assms by simp
  then show ?thesis unfolding splice_def by (simp only: append_take_drop_id)
qed

lemma take_drop_splice:
  "h + k \<le> a \<Longrightarrow> a \<le> length packet \<Longrightarrow> take k (drop h (splice packet a b segment)) = take k (drop h packet)"
  by (auto simp: splice_def drop_take min_def)

lemma segment_splice:
  "a \<le> length packet \<Longrightarrow> length segment = n \<Longrightarrow> take n (drop a (splice packet a b segment)) = segment"
  by (simp add: splice_def)

lemma clamp_splice:
  assumes "a \<le> b" and "b \<le> length packet"
    and "mss_above (take (b - a) (drop a packet)) clamp = Some at"
  shows "overwrite (overwrite packet (a + at) (to_be_16 clamp)) (a + 16) [0, 0]
       = splice packet a b
           (overwrite (overwrite (take (b - a) (drop a packet)) at (to_be_16 clamp)) 16 [0, 0])"
proof -
  let ?s = "take (b - a) (drop a packet)"
  have len: "length ?s = b - a" using assms by simp
  note bounds = mss_above_bounds [OF assms(3), unfolded len]
  have "overwrite packet (a + at) (to_be_16 clamp) = splice packet a b (overwrite ?s at (to_be_16 clamp))"
    using overwrite_splice [OF assms(1,2) len, of at "to_be_16 clamp"] bounds
    by (simp only: splice_same [OF assms(1,2)] len) simp
  then show ?thesis
    using overwrite_splice [OF assms(1,2), of "overwrite ?s at (to_be_16 clamp)" 16 "[0, 0]"] bounds len
    by simp
qed

lemma take_add_drop: "take m (drop h xs) @ take n (drop (h + m) xs) = take (m + n) (drop h xs)"
  by (simp add: take_add add.commute)

lemma clamp_ipv4_True:
  assumes "clamp_ipv4 packet clamp = (True, packet')" and "ip_version packet = Some 4"
  shows "case tcp_bounds packet of (a, b) \<Rightarrow> 20 \<le> a \<and> a + 20 \<le> b \<and> b \<le> length packet
     \<and> b \<le> 65535 \<and> packet ! 9 = 6
     \<and> (\<exists>at. mss_above (tcp_segment packet) clamp = Some at \<and>
          packet' = splice packet a b
            (clamped_segment (tcp_pseudo packet) (tcp_segment packet) at clamp))"
proof -
  define a where "a = unat (packet ! 0 AND 0x0f) * 4"
  define b where "b = unat (from_be [packet ! 2, packet ! 3] :: u16)"
  let ?s = "take (b - a) (drop a packet)"
  have ab: "tcp_bounds packet = (a, b)" and seg: "tcp_segment packet = ?s"
    using assms(2) by (simp_all add: tcp_bounds_def tcp_segment_def a_def b_def)
  have g: "20 \<le> a" "a + 20 \<le> b" "b \<le> length packet" "packet ! 9 = 6"
    and "\<exists>at. mss_above ?s clamp = Some at"
    using assms(1) unfolding clamp_ipv4_def a_def [symmetric] b_def [symmetric] Let_def
    by (auto split: if_splits option.splits)
  then obtain at where at: "mss_above ?s clamp = Some at" by blast
  let ?p2 = "overwrite (overwrite packet (a + at) (to_be_16 clamp)) (a + 16) [0, 0]"
  let ?s2 = "overwrite (overwrite ?s at (to_be_16 clamp)) 16 [0, 0]"
  have p2: "?p2 = splice packet a b ?s2"
    using clamp_splice [of a b packet clamp at] at g by simp
  have len2: "length ?s2 = b - a" using mss_above_bounds [OF at] g by simp
  have s2: "take (b - a) (drop a ?p2) = ?s2"
    unfolding p2 using g len2 by (intro segment_splice) auto
  have "take 4 (drop 12 ?p2) = take 4 (drop 12 packet)" "take 4 (drop 16 ?p2) = take 4 (drop 16 packet)"
    unfolding p2 using g by (simp_all add: take_drop_splice)
  then have ck: "checksum [take 4 (drop 12 ?p2), take 4 (drop 16 ?p2), [0, 6], to_be_16 (of_nat (b - a)), ?s2]
      = checksum [tcp_pseudo packet, ?s2]"
    using take_add_drop [of 4 12 packet 4] assms(2)
    by (intro checksum_concat) (simp add: tcp_pseudo_def ab)
  have "packet' = overwrite ?p2 (a + 16) (to_be_16 (checksum [tcp_pseudo packet, ?s2]))"
    using assms(1) g at unfolding clamp_ipv4_def a_def [symmetric] b_def [symmetric] Let_def
    by (simp add: s2 ck del: of_nat_diff)
  also have "\<dots> = splice packet a b (clamped_segment (tcp_pseudo packet) ?s at clamp)"
    unfolding p2 clamped_segment_def Let_def using g len2 mss_above_bounds [OF at]
    by (intro overwrite_splice) simp_all
  finally show ?thesis
    using g at by (simp add: ab seg b_def less_imp_le_nat flip: less_Suc_eq_le)
qed

lemma clamp_ipv6_True:
  assumes "clamp_ipv6 packet clamp = (True, packet')" and "ip_version packet = Some 6"
  shows "case tcp_bounds packet of (a, b) \<Rightarrow> a = 40 \<and> a \<le> b \<and> 60 \<le> length packet \<and> b \<le> length packet
     \<and> b \<le> 65575 \<and> packet ! 6 = 6
     \<and> (\<exists>at. mss_above (tcp_segment packet) clamp = Some at \<and>
          packet' = splice packet a b
            (clamped_segment (tcp_pseudo packet) (tcp_segment packet) at clamp))"
proof -
  define n where "n = unat (from_be [packet ! 4, packet ! 5] :: u16)"
  define b where "b = 40 + n"
  let ?s = "take (b - 40) (drop 40 packet)"
  have ab: "tcp_bounds packet = (40, b)" and seg: "tcp_segment packet = ?s"
    using assms(2) by (simp_all add: tcp_bounds_def tcp_segment_def b_def n_def)
  have g: "60 \<le> length packet" "b \<le> length packet" "packet ! 6 = 6"
    and "\<exists>at. mss_above ?s clamp = Some at"
    using assms(1) unfolding clamp_ipv6_def n_def [symmetric] b_def [symmetric] Let_def
    by (auto split: if_splits option.splits)
  then obtain at where at: "mss_above ?s clamp = Some at" by blast
  let ?p2 = "overwrite (overwrite packet (40 + at) (to_be_16 clamp)) (40 + 16) [0, 0]"
  let ?s2 = "overwrite (overwrite ?s at (to_be_16 clamp)) 16 [0, 0]"
  have p2: "?p2 = splice packet 40 b ?s2"
    using clamp_splice [of 40 b packet clamp at] at g by (simp add: b_def)
  have len2: "length ?s2 = b - 40" using mss_above_bounds [OF at] g by simp
  have s2: "take (b - 40) (drop 40 ?p2) = ?s2"
    unfolding p2 using g len2 by (intro segment_splice) auto
  have "take 16 (drop 8 ?p2) = take 16 (drop 8 packet)" "take 16 (drop 24 ?p2) = take 16 (drop 24 packet)"
    unfolding p2 using g by (simp_all add: take_drop_splice)
  then have ck: "checksum [take 16 (drop 8 ?p2), take 16 (drop 24 ?p2), to_be_32 (of_nat n), [0, 0, 0, 6], ?s2]
      = checksum [tcp_pseudo packet, ?s2]"
    using take_add_drop [of 16 8 packet 16] assms(2)
    by (intro checksum_concat) (simp add: tcp_pseudo_def ab b_def)
  have "packet' = overwrite ?p2 (40 + 16) (to_be_16 (checksum [tcp_pseudo packet, ?s2]))"
    using assms(1) g at s2 ck unfolding clamp_ipv6_def n_def [symmetric] b_def [symmetric] Let_def
    by simp
  also have "\<dots> = splice packet 40 b (clamped_segment (tcp_pseudo packet) ?s at clamp)"
    unfolding p2 clamped_segment_def Let_def using g len2 mss_above_bounds [OF at]
    by (intro overwrite_splice) (simp_all add: b_def)
  finally show ?thesis
    using g at by (simp add: ab seg) (simp add: b_def n_def less_imp_le_nat flip: less_Suc_eq_le)
qed

lemma clamp_mss_True:
  assumes "clamp_mss packet inner_mtu = (True, packet')"
  obtains a b at where "tcp_bounds packet = (a, b)" "20 \<le> a" "a \<le> b" "b \<le> length packet" "b \<le> 65575"
    "mss_above (tcp_segment packet) (mss_clamp packet inner_mtu) = Some at"
    "packet' = splice packet a b
       (clamped_segment (tcp_pseudo packet) (tcp_segment packet) at (mss_clamp packet inner_mtu))"
    "ip_version packet \<noteq> Some 4 \<longrightarrow> a = 40"
proof -
  obtain v where v: "ip_version packet = Some v"
    using assms by (auto simp: clamp_mss_def split: option.splits)
  then consider "v = 4" "clamp_ipv4 packet (mss_clamp packet inner_mtu) = (True, packet')"
    | "v = 6" "clamp_ipv6 packet (mss_clamp packet inner_mtu) = (True, packet')"
    using assms by (auto simp: clamp_mss_def mss_clamp_def split: if_splits)
  then show thesis
  proof cases
    case 1
    then show thesis using clamp_ipv4_True [OF 1(2)] v by (auto intro!: that)
  next
    case 2
    then show thesis using clamp_ipv6_True [OF 2(2)] v by (auto intro!: that)
  qed
qed

lemma nth_splice: "i < a \<Longrightarrow> a \<le> length packet \<Longrightarrow> splice packet a b segment ! i = packet ! i"
  by (simp add: splice_def nth_append)

lemma splice_frame:
  assumes "tcp_bounds packet = (a, b)" and "20 \<le> a" and "a \<le> b" and "b \<le> length packet"
    and "length segment = b - a" and "ip_version packet \<noteq> Some 4 \<longrightarrow> a = 40"
  defines "packet' \<equiv> splice packet a b segment"
  shows "length packet' = length packet" and "ip_version packet' = ip_version packet"
    and "tcp_bounds packet' = tcp_bounds packet" and "tcp_segment packet' = segment"
    and "tcp_pseudo packet' = tcp_pseudo packet"
proof -
  have nth: "packet' ! i = packet ! i" if "i < a" for i
    using that assms by (simp add: nth_splice)
  show len: "length packet' = length packet"
    using assms by (simp add: splice_def)
  show v: "ip_version packet' = ip_version packet"
    using assms(2-4) len nth by (simp add: ip_version_def slice_get_def)
  show bounds: "tcp_bounds packet' = tcp_bounds packet"
    using assms(2) by (simp add: tcp_bounds_def v nth)
  show "tcp_segment packet' = segment"
    using assms by (simp add: tcp_segment_def bounds [unfolded packet'_def] segment_splice)
  have "take k (drop h packet') = take k (drop h packet)" if "h + k \<le> a" for h k
    using that assms by (simp add: take_drop_splice)
  then show "tcp_pseudo packet' = tcp_pseudo packet"
    using assms(1,2,6) by (simp add: tcp_pseudo_def bounds v)
qed

lemma clamp_ipv4_keeps: "fst (clamp_ipv4 packet clamp) \<or> clamp_ipv4 packet clamp = (False, packet)"
  unfolding clamp_ipv4_def Let_def by (simp split: option.split)

lemma clamp_ipv6_keeps: "fst (clamp_ipv6 packet clamp) \<or> clamp_ipv6 packet clamp = (False, packet)"
  unfolding clamp_ipv6_def Let_def by (simp split: option.split)

lemma clamp_mss_False:
  "\<not> fst (clamp_mss packet inner_mtu) \<Longrightarrow> clamp_mss packet inner_mtu = (False, packet)"
  using clamp_ipv4_keeps [of packet "saturating_sub (mtu_get inner_mtu) 40"]
    clamp_ipv6_keeps [of packet "saturating_sub (mtu_get inner_mtu) 60"]
  by (simp add: clamp_mss_def split: option.splits if_splits)

lemma clamp_mss_settled:
  assumes "clamp_mss packet inner_mtu = (True, packet')"
  shows "mss_above (tcp_segment packet') (mss_clamp packet' inner_mtu) = None"
  using assms
proof (rule clamp_mss_True)
  fix a b at
  let ?s = "tcp_segment packet" and ?c = "mss_clamp packet inner_mtu" and ?pre = "tcp_pseudo packet"
  assume ab: "tcp_bounds packet = (a, b)" "20 \<le> a" "a \<le> b" "b \<le> length packet"
    and at: "mss_above ?s ?c = Some at"
    and out: "packet' = splice packet a b (clamped_segment ?pre ?s at ?c)"
    and v: "ip_version packet \<noteq> Some 4 \<longrightarrow> a = 40"
  have "length (clamped_segment ?pre ?s at ?c) = b - a"
    using ab by (simp add: length_clamped_segment [OF at]) (simp add: tcp_segment_def)
  note frame = splice_frame [OF ab this v, folded out]
  show ?thesis by (simp add: mss_clamp_def frame mss_above_clamped [OF at, unfolded mss_clamp_def])
qed

text \<open>
  C12. When the clamp reports a change, the packet keeps its length and every byte outside the
  segment-size option and the TCP checksum, the option now carries exactly the clamp of the
  packet's family, and the TCP checksum over the pseudo-header verifies.
\<close>

theorem clamp_mss_sound:
  assumes "clamp_mss packet inner_mtu = (True, packet')"
  shows "\<exists>a b at. tcp_bounds packet = (a, b) \<and> 22 \<le> at \<and> a + at + 2 \<le> b \<and> b \<le> length packet
     \<and> mss_above (tcp_segment packet) (mss_clamp packet inner_mtu) = Some at
     \<and> length packet' = length packet
     \<and> take 2 (drop at (tcp_segment packet')) = to_be_16 (mss_clamp packet inner_mtu)
     \<and> (\<forall>i < length packet. i \<notin> {a + 16, a + 17, a + at, a + at + 1} \<longrightarrow> packet' ! i = packet ! i)
     \<and> checksum [tcp_pseudo packet', tcp_segment packet'] = 0"
  using assms
proof (rule clamp_mss_True)
  fix a b at
  let ?s = "tcp_segment packet" and ?c = "mss_clamp packet inner_mtu" and ?pre = "tcp_pseudo packet"
  assume ab: "tcp_bounds packet = (a, b)" "20 \<le> a" "a \<le> b" "b \<le> length packet" "b \<le> 65575"
    and at: "mss_above ?s ?c = Some at"
    and out: "packet' = splice packet a b (clamped_segment ?pre ?s at ?c)"
    and v: "ip_version packet \<noteq> Some 4 \<longrightarrow> a = 40"
  have len: "length ?s = b - a" using ab by (simp add: tcp_segment_def)
  then have clamped: "length (clamped_segment ?pre ?s at ?c) = b - a"
    by (simp add: length_clamped_segment [OF at])
  note frame = splice_frame [OF ab(1-4) clamped v, folded out]
  have pre: "even (length ?pre)" "length ?pre \<le> 40"
    using ab v by (auto simp: tcp_pseudo_def to_be_32_def)
  have "packet' ! i = packet ! i" if "i < length packet" "i \<notin> {a + 16, a + 17, a + at, a + at + 1}" for i
  proof (cases "a \<le> i \<and> i < b")
    case True
    then have "packet' ! i = clamped_segment ?pre ?s at ?c ! (i - a)"
      using ab clamped by (auto simp: out splice_def nth_append)
    also have "\<dots> = ?s ! (i - a)"
      using True that len by (subst clamped_segment_nth [OF at]) auto
    also have "\<dots> = packet ! i" using True ab by (auto simp: tcp_segment_def)
    finally show ?thesis .
  next
    case False
    then show ?thesis using that ab clamped by (auto simp: out splice_def nth_append)
  qed
  moreover have "checksum [tcp_pseudo packet', tcp_segment packet'] = 0"
    unfolding frame using pre ab len by (intro clamped_segment_valid [OF at]) auto
  ultimately show ?thesis
    using ab at frame mss_above_bounds [OF at] clamped_segment_value [OF at] len by auto
qed

text \<open>
  Clamping is idempotent: a packet the clamp has gone over is left alone by a second pass,
  since no segment size above the clamp remains in it.
\<close>

theorem clamp_mss_idempotent:
  "clamp_mss (snd (clamp_mss packet inner_mtu)) inner_mtu = (False, snd (clamp_mss packet inner_mtu))"
proof (cases "fst (clamp_mss packet inner_mtu)")
  case False
  then show ?thesis using clamp_mss_False [of packet inner_mtu] by simp
next
  case True
  then obtain packet' where packet': "clamp_mss packet inner_mtu = (True, packet')"
    by (metis prod.collapse)
  then have "mss_above (tcp_segment packet') (mss_clamp packet' inner_mtu) = None"
    by (rule clamp_mss_settled)
  moreover have "\<exists>at. mss_above (tcp_segment packet') (mss_clamp packet' inner_mtu) = Some at"
    if "fst (clamp_mss packet' inner_mtu)"
  proof -
    from that have "clamp_mss packet' inner_mtu = (True, snd (clamp_mss packet' inner_mtu))"
      by (simp add: prod_eq_iff)
    then show ?thesis by (rule clamp_mss_True) blast
  qed
  ultimately have "\<not> fst (clamp_mss packet' inner_mtu)" by auto
  then show ?thesis using clamp_mss_False [of packet' inner_mtu] packet' by simp
qed

theorem clamp_mss_sound_witness:
  "\<exists>packet'. clamp_mss ([0x45, 0, 0, 44, 0, 0, 0x40, 0, 64, 6, 0, 0, 10, 0, 0, 1, 10, 0, 0, 2,
      0, 80, 0, 80, 0, 0, 0, 0, 0, 0, 0, 0, 0x60, 2, 0, 0, 0, 0, 0, 0, 2, 4, 6, 0]) (Mtu 1280) = (True, packet')
    \<and> checksum [tcp_pseudo packet', tcp_segment packet'] = 0"
proof -
  let ?p = "[0x45, 0, 0, 44, 0, 0, 0x40, 0, 64, 6, 0, 0, 10, 0, 0, 1, 10, 0, 0, 2,
      0, 80, 0, 80, 0, 0, 0, 0, 0, 0, 0, 0, 0x60, 2, 0, 0, 0, 0, 0, 0, 2, 4, 6, 0] :: bytes"
  let ?s = "drop 20 ?p"
  have "options_from (reader_new [2, 4, 6, 0]) =
      \<lparr>op_kind = 2, op_at = 22, op_value = [6, 0]\<rparr>
      # options_from \<lparr>rd_bytes = [2, 4, 6, 0], rd_at = Suc (Suc (Suc (Suc 0)))\<rparr>"
    by (subst options_from.simps)
      (simp add: reader_u8_def reader_take_def reader_array_def reader_rest_def reader_new_def
        slice_range_def OPTION_END_def OPTION_NOOP_def reader_position_def)
  moreover have "tcp_options ?s = options_from (reader_new [2, 4, 6, 0])"
    by (subst tcp_options_eq) simp_all
  ultimately have "find (\<lambda>option. op_kind option = OPTION_MSS) (tcp_options ?s)
      = Some \<lparr>op_kind = 2, op_at = 22, op_value = [6, 0]\<rparr>"
    by (simp only: OPTION_MSS_def find.simps) simp
  then have "mss_above ?s 1240 = Some 22"
    unfolding mss_above_def
    by (simp add: FLAG_SYN_def slice_get_def reader_u16_def reader_array_def reader_rest_def
        reader_new_def from_be_def)
  then have "fst (clamp_mss ?p (Mtu 1280))"
    by (simp add: clamp_mss_def clamp_ipv4_def ip_version_def slice_get_def Let_def from_be_def
        saturating_sub_def)
  then have changed: "clamp_mss ?p (Mtu 1280) = (True, snd (clamp_mss ?p (Mtu 1280)))"
    by (simp only: prod_eq_iff fst_conv snd_conv simp_thms)
  from clamp_mss_sound [OF changed]
  have "checksum [tcp_pseudo (snd (clamp_mss ?p (Mtu 1280))),
      tcp_segment (snd (clamp_mss ?p (Mtu 1280)))] = 0"
    by (elim exE conjE)
  with changed show ?thesis by (intro exI conjI)
qed

end
