(* ===== verification/Pool.thy ===== *)
theory Pool
  imports Prelude
begin

text \<open>
  The buffer pool of \<^verbatim>\<open>src/pool.rs\<close>: a budget of equally sized buffers, lazily allocated and
  recycled. A loan (\<open>Pooled\<close>) is its bytes; it has one owner, so returning it is the operation
  \<open>pool_drop\<close> on those bytes. The interleavings of takes and returns by all owners are the step
  relation \<open>pool_step\<close>, whose state lists the outstanding loans beside the pool.
\<close>

section \<open>Model\<close>

record buffer_pool =
  slice_size :: nat
  pool_capacity :: nat
  pl_free :: "bytes list"
  pl_live :: nat
  pl_exhausted :: u64

definition pool_new :: "nat \<Rightarrow> nat \<Rightarrow> buffer_pool" where
  "pool_new sz cap =
     \<lparr>slice_size = sz, pool_capacity = cap, pl_free = [], pl_live = 0, pl_exhausted = 0\<rparr>"

text \<open>\<open>reserve\<close> gives an empty buffer: a recycled one, or a fresh one within the budget.\<close>

definition reserve :: "nat \<Rightarrow> buffer_pool \<Rightarrow> bytes option \<times> buffer_pool" where
  "reserve len p =
     (if slice_size p < len then (None, p)
      else if pl_free p \<noteq> [] then (Some (last (pl_free p)), p\<lparr>pl_free := butlast (pl_free p)\<rparr>)
      else if pool_capacity p \<le> pl_live p then
        (None, p\<lparr>pl_exhausted := saturating_add (pl_exhausted p) 1\<rparr>)
      else (Some [], p\<lparr>pl_live := pl_live p + 1\<rparr>))"

definition pool_take :: "bytes \<Rightarrow> buffer_pool \<Rightarrow> bytes option \<times> buffer_pool" where
  "pool_take bs p =
     (case reserve (length bs) p of
        (None, p') \<Rightarrow> (None, p')
      | (Some buffer, p') \<Rightarrow> (Some (buffer @ bs), p'))"

text \<open>\<open>Vec::resize\<close> with zero fill.\<close>

definition vec_resize :: "nat \<Rightarrow> bytes \<Rightarrow> bytes" where
  "vec_resize len bs = take len bs @ replicate (len - length bs) 0"

definition take_zeroed :: "nat \<Rightarrow> buffer_pool \<Rightarrow> bytes option \<times> buffer_pool" where
  "take_zeroed len p =
     (case reserve len p of
        (None, p') \<Rightarrow> (None, p')
      | (Some buffer, p') \<Rightarrow> (Some (vec_resize len buffer), p'))"

definition available :: "buffer_pool \<Rightarrow> nat" where
  "available p = pool_capacity p - pl_live p + length (pl_free p)"

definition pooled_resize :: "buffer_pool \<Rightarrow> nat \<Rightarrow> bytes \<Rightarrow> bool \<times> bytes" where
  "pooled_resize p len loan =
     (if slice_size p < len then (False, loan) else (True, vec_resize len loan))"

text \<open>\<open>Drop\<close>: the buffer is cleared and goes back to the cache.\<close>

definition pool_drop :: "bytes \<Rightarrow> buffer_pool \<Rightarrow> buffer_pool" where
  "pool_drop loan p = p\<lparr>pl_free := pl_free p @ [[]]\<rparr>"

section \<open>Invariant\<close>

definition on_loan :: "buffer_pool \<Rightarrow> nat" where
  "on_loan p = pl_live p - length (pl_free p)"

text \<open>\<open>free.len() <= live <= capacity\<close>, and the cache holds cleared buffers only.\<close>

definition pool_ok :: "buffer_pool \<Rightarrow> bool" where
  "pool_ok p \<longleftrightarrow> length (pl_free p) \<le> pl_live p \<and> pl_live p \<le> pool_capacity p \<and> set (pl_free p) \<subseteq> {[]}"

named_theorems pool_simps \<open>definitions of the pool operations\<close>

lemmas pool_defs [pool_simps] =
  reserve_def pool_take_def take_zeroed_def pool_drop_def vec_resize_def

lemma available_loaned: "pool_ok p \<Longrightarrow> available p + on_loan p = pool_capacity p"
  by (simp add: pool_ok_def available_def on_loan_def)

lemma last_free: "pool_ok p \<Longrightarrow> pl_free p \<noteq> [] \<Longrightarrow> last (pl_free p) = []"
  using last_in_set [of "pl_free p"] unfolding pool_ok_def by blast

lemma pool_ok_new [simp]: "pool_ok (pool_new n cap)" "on_loan (pool_new n cap) = 0"
  by (simp_all add: pool_ok_def pool_new_def on_loan_def)

lemma reserve_spec:
  assumes "pool_ok p" and "reserve len p = (r, p')"
  shows "pool_ok p' \<and> slice_size p' = slice_size p \<and> pool_capacity p' = pool_capacity p
     \<and> (r = Some [] \<and> len \<le> slice_size p \<and> 0 < available p \<and> on_loan p' = on_loan p + 1
        \<or> r = None \<and> (slice_size p < len \<or> available p = 0) \<and> on_loan p' = on_loan p)"
proof (cases "pl_free p" rule: rev_cases)
  case Nil
  with assms show ?thesis
    by (auto simp: reserve_def pool_ok_def available_def on_loan_def split: if_splits)
next
  case (snoc rest buffer)
  with assms last_free [OF assms(1)] show ?thesis
    by (auto simp: reserve_def pool_ok_def available_def on_loan_def split: if_splits)
qed

lemma reserve_succeeds_iff:
  "pool_ok p \<Longrightarrow> fst (reserve len p) \<noteq> None \<longleftrightarrow> len \<le> slice_size p \<and> on_loan p < pool_capacity p"
  using reserve_spec [of p len "fst (reserve len p)" "snd (reserve len p)"] available_loaned [of p]
  by auto

lemma pool_take_reserve:
  "pool_take bs p = map_prod (map_option (\<lambda>buffer. buffer @ bs)) id (reserve (length bs) p)"
  by (simp add: pool_take_def split: prod.splits option.splits)

lemma take_zeroed_reserve:
  "take_zeroed len p = map_prod (map_option (vec_resize len)) id (reserve len p)"
  by (simp add: take_zeroed_def split: prod.splits option.splits)

lemma pool_ok_drop:
  "pool_ok p \<Longrightarrow> 0 < on_loan p \<Longrightarrow>
     pool_ok (pool_drop loan p) \<and> on_loan (pool_drop loan p) = on_loan p - 1"
  by (auto simp: pool_drop_def pool_ok_def on_loan_def)

section \<open>All owners together\<close>

inductive pool_step :: "bytes list \<times> buffer_pool \<Rightarrow> bytes list \<times> buffer_pool \<Rightarrow> bool" where
  Take: "pool_take bs p = (Some loan, p') \<Longrightarrow> pool_step (loans, p) (loan # loans, p')"
| TakeZeroed: "take_zeroed len p = (Some loan, p') \<Longrightarrow> pool_step (loans, p) (loan # loans, p')"
| Refused: "pool_take bs p = (None, p') \<Longrightarrow> pool_step (loans, p) (loans, p')"
| RefusedZeroed: "take_zeroed len p = (None, p') \<Longrightarrow> pool_step (loans, p) (loans, p')"
| Resize: "pooled_resize p len loan = (b, loan') \<Longrightarrow>
     pool_step (before @ loan # after, p) (before @ loan' # after, p)"
| Drop: "pool_step (before @ loan # after, p) (before @ after, pool_drop loan p)"

inductive_cases pool_stepE: "pool_step (loans, p) s'"

definition pool_inv :: "nat \<Rightarrow> nat \<Rightarrow> bytes list \<times> buffer_pool \<Rightarrow> bool" where
  "pool_inv sz cap s \<longleftrightarrow>
     (case s of (loans, p) \<Rightarrow> pool_ok p \<and> slice_size p = sz \<and> pool_capacity p = cap
        \<and> on_loan p = length loans \<and> (\<forall>loan \<in> set loans. length loan \<le> sz))"

lemma length_vec_resize [simp]: "length (vec_resize len bs) = len"
  by (simp add: vec_resize_def)

lemma pool_inv_granted:
  assumes "pool_inv sz cap (loans, p)" and "reserve len p = (Some buffer, p')"
    and "length (f buffer) = length buffer + len \<or> length (f buffer) = len"
  shows "pool_inv sz cap (f buffer # loans, p')"
  using reserve_spec [OF _ assms(2)] assms(1,3) by (auto simp: pool_inv_def)

lemma pool_inv_refused:
  "pool_inv sz cap (loans, p) \<Longrightarrow> reserve len p = (None, p') \<Longrightarrow> pool_inv sz cap (loans, p')"
  using reserve_spec [of p len None p'] by (auto simp: pool_inv_def)

lemma pool_step_inv:
  assumes "pool_step s s'" and "pool_inv sz cap s"
  shows "pool_inv sz cap s'"
  using assms
proof (induction rule: pool_step.induct)
  case (Take bs p loan p' loans)
  then obtain buffer where "reserve (length bs) p = (Some buffer, p')" "loan = buffer @ bs"
    by (auto simp: pool_take_def split: prod.splits option.splits)
  with Take.prems show ?case
    using pool_inv_granted [of sz cap loans p "length bs" buffer p' "\<lambda>b. b @ bs"] by simp
next
  case (TakeZeroed len p loan p' loans)
  then obtain buffer where "reserve len p = (Some buffer, p')" "loan = vec_resize len buffer"
    by (auto simp: take_zeroed_def split: prod.splits option.splits)
  with TakeZeroed.prems show ?case
    using pool_inv_granted [of sz cap loans p len buffer p' "vec_resize len"] by simp
next
  case (Refused bs p p' loans)
  then show ?case
    by (auto simp: pool_take_def split: prod.splits option.splits intro: pool_inv_refused)
next
  case (RefusedZeroed len p p' loans)
  then show ?case
    by (auto simp: take_zeroed_def split: prod.splits option.splits intro: pool_inv_refused)
next
  case (Resize p len loan b loan' before after)
  then show ?case by (auto simp: pool_inv_def pooled_resize_def split: if_splits)
next
  case (Drop before loan after p)
  then show ?case using pool_ok_drop [of p loan] by (auto simp: pool_inv_def pool_drop_def)
qed

text \<open>
  C19. Whatever the interleaving of takes, resizes and returns by all owners, the buffers on loan
  are exactly the outstanding ones: their number and the number still available add up to the
  capacity, the bytes they hold never exceed \<open>capacity x slice_size\<close>, and a take of a
  datagram that fits is refused only when every buffer of the budget is on loan.
\<close>

theorem pool_budget:
  assumes "pool_step\<^sup>*\<^sup>* ([], pool_new sz cap) (loans, p)"
  shows "length loans + available p = cap
     \<and> sum_list (map length loans) \<le> cap * sz
     \<and> (length bs \<le> sz \<longrightarrow> (fst (pool_take bs p) = None \<longleftrightarrow> length loans = cap))"
proof -
  have "pool_inv sz cap ([], pool_new sz cap)"
    by (simp add: pool_inv_def) (simp add: pool_new_def)
  with assms have "pool_inv sz cap (loans, p)"
    by (induction rule: rtranclp_induct) (auto intro: pool_step_inv)
  moreover have "sum_list (map length loans) \<le> length loans * sz"
    using calculation sum_list_mono [of loans length "\<lambda>_. sz"]
    by (simp add: pool_inv_def sum_list_triv)
  ultimately show ?thesis
    using available_loaned [of p] reserve_succeeds_iff [of p "length bs"]
    by (auto simp: pool_inv_def pool_take_reserve intro: order_trans)
qed

theorem pool_budget_witness:
  "length [[7 :: u8]] + available (snd (pool_take [7] (pool_new 4 2))) = 2"
proof -
  have "pool_step ([], pool_new 4 2) ([[7]], snd (pool_take [7] (pool_new 4 2)))"
    by (rule pool_step.Take [of "[7]"]) (simp add: pool_take_def reserve_def pool_new_def)
  then have "pool_step\<^sup>*\<^sup>* ([], pool_new 4 2) ([[7]], snd (pool_take [7] (pool_new 4 2)))"
    by (rule r_into_rtranclp [of pool_step])
  from pool_budget [OF this] show ?thesis by blast
qed

end
