(* ===== verification/Fragments.thy ===== *)
theory Fragments
  imports Net
begin

text \<open>
  Fragments and one datagram under reassembly (\<^verbatim>\<open>src/l3/reassembly.rs\<close>): the parse of a fragment
  over the slices etherparse returns, the bitmap of received 8-byte blocks, the verdict on one more
  fragment of a datagram, and the packet rebuilt from a complete one.
\<close>

section \<open>Fragments\<close>

definition MAX_DATAGRAM_BYTES :: nat where "MAX_DATAGRAM_BYTES = 65535"
definition BLOCK_BITS :: nat where "BLOCK_BITS = MAX_DATAGRAM_BYTES div 8 + 1"
definition BITMAP_WORDS :: nat where "BITMAP_WORDS = (BLOCK_BITS + 63) div 64"
definition IPV6_FRAGMENT :: u8 where "IPV6_FRAGMENT = 44"
definition IPV6_FRAGMENT_BYTES :: nat where "IPV6_FRAGMENT_BYTES = 8"
definition IPV6_HEADER_BYTES :: nat where "IPV6_HEADER_BYTES = 40"

record fragment =
  fr_source :: ip_addr
  fr_destination :: ip_addr
  fr_protocol :: u8
  fr_identification :: u32
  fr_offset :: u16
  fr_more :: bool
  fr_payload :: bytes
  fr_headers :: bytes
  fr_next_header_at :: "nat option"

text \<open>The walk along the extension headers; each step moves past the byte it has read.\<close>

function fragment_header_from :: "bytes \<Rightarrow> nat \<Rightarrow> nat \<Rightarrow> (nat \<times> nat) option" where
  "fragment_header_from packet next_header_at at =
     (case slice_get packet next_header_at of
        None \<Rightarrow> None
      | Some nxt \<Rightarrow>
          (if nxt = IPV6_FRAGMENT then
             (case slice_range packet at (at + IPV6_FRAGMENT_BYTES) of
                None \<Rightarrow> None
              | Some _ \<Rightarrow> Some (next_header_at, at))
           else if nxt = 0 \<or> nxt = 43 \<or> nxt = 60 then
             (case slice_get packet (at + 1) of
                None \<Rightarrow> None
              | Some len \<Rightarrow> fragment_header_from packet at (at + (unat len + 1) * 8))
           else if nxt = 51 then
             (case slice_get packet (at + 1) of
                None \<Rightarrow> None
              | Some len \<Rightarrow> fragment_header_from packet at (at + (unat len + 2) * 4))
           else None))"
  by pat_completeness auto

termination fragment_header_from
  by (relation "measure (\<lambda>(packet, _, at). length packet - at)")
    (auto simp: slice_get_def split: if_splits)

declare fragment_header_from.simps [simp del]

definition ipv6_fragment_header :: "bytes \<Rightarrow> (nat \<times> nat) option" where
  "ipv6_fragment_header packet = fragment_header_from packet 6 IPV6_HEADER_BYTES"

definition fragment_parse :: "ip_parser \<Rightarrow> bytes \<Rightarrow> packet_error + fragment option" where
  "fragment_parse from_ip packet =
     (case from_ip packet of
        Inl e \<Rightarrow> Inl (Malformed e)
      | Inr sliced \<Rightarrow>
          (case sl_net sliced of
             None \<Rightarrow> Inr None
           | Some (NetIpv4 v) \<Rightarrow>
               (if \<not> v4_fragmented v then Inr None
                else Inr (Some
                  \<lparr>fr_source = V4 (v4_source v), fr_destination = V4 (v4_destination v),
                   fr_protocol = v4_protocol v, fr_identification = ucast (v4_identification v),
                   fr_offset = v4_fragments_offset v * 8, fr_more = v4_more_fragments v,
                   fr_payload = v4_payload v,
                   fr_headers = (case slice_range packet 0 (unat (v4_ihl v) * 4) of
                                   None \<Rightarrow> [] | Some bs \<Rightarrow> bs),
                   fr_next_header_at = None\<rparr>))
           | Some (NetIpv6 v) \<Rightarrow>
               (if \<not> v6_fragmented v then Inr None
                else case v6_fragment_header v of
                  None \<Rightarrow> Inr None
                | Some h \<Rightarrow>
                    (case ipv6_fragment_header packet of
                       None \<Rightarrow> Inr None
                     | Some (next_header_at, fragment_at) \<Rightarrow>
                         Inr (Some
                           \<lparr>fr_source = V6 (v6_source v), fr_destination = V6 (v6_destination v),
                            fr_protocol = frag_next_header h,
                            fr_identification = frag_identification h,
                            fr_offset = frag_offset h * 8, fr_more = frag_more_fragments h,
                            fr_payload = (if fragment_at + IPV6_FRAGMENT_BYTES \<le> length packet
                              then drop (fragment_at + IPV6_FRAGMENT_BYTES) packet else []),
                            fr_headers = (case slice_range packet 0 fragment_at of
                                            None \<Rightarrow> [] | Some bs \<Rightarrow> bs),
                            fr_next_header_at = Some next_header_at\<rparr>)))
           | Some NetArp \<Rightarrow> Inr None))"

section \<open>The rebuilt packet\<close>

definition rebuild :: "bytes \<Rightarrow> nat option \<Rightarrow> u8 \<Rightarrow> bytes \<Rightarrow> bytes option" where
  "rebuild headers next_header_at protocol data =
     (let packet = headers @ data in
      case next_header_at of
        None \<Rightarrow>
          (if length packet < 20 \<or> drop_bit 4 (packet ! 0) \<noteq> 4 then None
           else case try_from (length packet) :: u16 option of
             None \<Rightarrow> None
           | Some tot \<Rightarrow>
               (let p1 = overwrite packet 2 (to_be_16 tot);
                    p2 = p1[6 := p1 ! 6 AND 0xc0, 7 := 0];
                    p3 = overwrite p2 10 [0, 0];
                    ck = checksum [take (unat (p3 ! 0 AND 0x0f) * 4) p3]
                in Some (overwrite p3 10 (to_be_16 ck))))
      | Some at \<Rightarrow>
          (if length packet < IPV6_HEADER_BYTES \<or> drop_bit 4 (packet ! 0) \<noteq> 6 then None
           else if length packet \<le> at then None
           else let p1 = packet[at := protocol]
           in case try_from (length p1 - IPV6_HEADER_BYTES) :: u16 option of
             None \<Rightarrow> None
           | Some payload \<Rightarrow> Some (overwrite p1 4 (to_be_16 payload))))"

section \<open>A pending datagram\<close>

record expiry =
  ex_at :: instant
  ex_slot :: instant

definition expiry_filed :: "instant \<Rightarrow> expiry" where
  "expiry_filed at = \<lparr>ex_at = at, ex_slot = at\<rparr>"

definition expiry_refresh :: "instant \<Rightarrow> expiry \<Rightarrow> expiry" where
  "expiry_refresh at e = e\<lparr>ex_at := at\<rparr>"

definition expiry_refiled :: "expiry \<Rightarrow> instant option \<times> expiry" where
  "expiry_refiled e =
     (if ex_slot e \<noteq> ex_at e then (Some (ex_slot e), e\<lparr>ex_slot := ex_at e\<rparr>) else (None, e))"

record pending =
  pd_data :: bytes
  pd_received :: "u64 list"
  pd_received_blocks :: u32
  pd_total :: "nat option"
  pd_expiry :: expiry
  pd_poisoned :: bool
  pd_headers :: bytes
  pd_next_header_at :: "nat option"

definition pending_new :: "expiry \<Rightarrow> pending" where
  "pending_new e =
     \<lparr>pd_data = [], pd_received = replicate BITMAP_WORDS 0, pd_received_blocks = 0,
      pd_total = None, pd_expiry = e, pd_poisoned = False, pd_headers = [],
      pd_next_header_at = None\<rparr>"

definition block_received :: "pending \<Rightarrow> nat \<Rightarrow> bool" where
  "block_received p block \<longleftrightarrow>
     (pd_received p ! (block div 64)) AND push_bit (block mod 64) 1 \<noteq> 0"

definition mark_block :: "nat \<Rightarrow> u64 list \<Rightarrow> u64 list" where
  "mark_block block ws =
     ws[block div 64 := (ws ! (block div 64)) OR push_bit (block mod 64) 1]"

definition mark_received :: "nat \<Rightarrow> nat \<Rightarrow> pending \<Rightarrow> pending" where
  "mark_received first_block last_block p =
     p\<lparr>pd_received := fold mark_block [first_block..<Suc last_block] (pd_received p),
       pd_received_blocks := pd_received_blocks p + of_nat (last_block - first_block + 1)\<rparr>"

definition is_complete :: "pending \<Rightarrow> bool" where
  "is_complete p =
     (case pd_total p of
        None \<Rightarrow> False
      | Some tot \<Rightarrow> unat (pd_received_blocks p) = (tot + 7) div 8)"

datatype verdict = VDiscarded | VPending | VComplete

text \<open>The part of \<open>push\<close> that runs on the datagram's own entry.\<close>

definition store_fragment :: "fragment \<Rightarrow> pending \<Rightarrow> pending" where
  "store_fragment f p =
     (let offset = unat (fr_offset f);
          extent = offset + length (fr_payload f);
          p1 = (if offset = 0
                then p\<lparr>pd_headers := fr_headers f, pd_next_header_at := fr_next_header_at f\<rparr> else p);
          p2 = (if length (pd_data p1) < extent
                then p1\<lparr>pd_data := pd_data p1 @ replicate (extent - length (pd_data p1)) 0\<rparr> else p1);
          p3 = p2\<lparr>pd_data := overwrite (pd_data p2) offset (fr_payload f)\<rparr>
      in mark_received (offset div 8) ((extent - 1) div 8) p3)"

definition accept_fragment :: "fragment \<Rightarrow> pending \<Rightarrow> verdict \<times> pending" where
  "accept_fragment f p =
     (let offset = unat (fr_offset f);
          extent = offset + length (fr_payload f) in
      if pd_poisoned p then (VDiscarded, p)
      else if (case pd_total p of
                 None \<Rightarrow> False
               | Some tot \<Rightarrow> \<not> fr_more f \<and> extent \<noteq> tot \<or> tot < extent)
        then (VDiscarded, p\<lparr>pd_poisoned := True\<rparr>)
      else if list_ex (block_received p) [offset div 8..<Suc ((extent - 1) div 8)]
        then (VDiscarded, p\<lparr>pd_poisoned := True\<rparr>)
      else let p1 = store_fragment f p in
        if \<not> fr_more f \<and> extent < length (pd_data p1) then (VDiscarded, p1\<lparr>pd_poisoned := True\<rparr>)
        else let p2 = (if \<not> fr_more f then p1\<lparr>pd_total := Some extent\<rparr> else p1)
        in (if is_complete p2 then VComplete else VPending, p2))"

definition fragment_usable :: "fragment \<Rightarrow> bool" where
  "fragment_usable f \<longleftrightarrow>
     fr_payload f \<noteq> [] \<and> unat (fr_offset f) + length (fr_payload f) \<le> MAX_DATAGRAM_BYTES
     \<and> \<not> (fr_more f \<and> length (fr_payload f) mod 8 \<noteq> 0)"

section \<open>The block bitmap\<close>

definition blocks :: "u64 list \<Rightarrow> nat set" where
  "blocks ws = {b. b < 64 * length ws \<and> bit (ws ! (b div 64)) (b mod 64)}"

lemma finite_blocks [simp]: "finite (blocks ws)"
  by (rule finite_subset [of _ "{..<64 * length ws}"]) (auto simp: blocks_def)

lemma blocks_replicate [simp]: "blocks (replicate n 0) = {}"
  by (auto simp: blocks_def less_mult_imp_div_less mult.commute)

lemma length_mark_block [simp]: "length (mark_block b ws) = length ws"
  by (simp add: mark_block_def)

lemma block_received_iff:
  "b < 64 * length (pd_received p) \<Longrightarrow> block_received p b \<longleftrightarrow> b \<in> blocks (pd_received p)"
  by (simp add: block_received_def blocks_def push_bit_eq_mult and_exp_eq_0_iff_not_bit)

lemma blocks_mark:
  assumes "b < 64 * length ws"
  shows "blocks (mark_block b ws) = insert b (blocks ws)"
proof (rule set_eqI)
  fix c
  have same: "c = b \<longleftrightarrow> c div 64 = b div 64 \<and> c mod 64 = b mod 64"
    by (metis div_mult_mod_eq)
  show "c \<in> blocks (mark_block b ws) \<longleftrightarrow> c \<in> insert b (blocks ws)"
    using assms same
    by (auto simp: blocks_def mark_block_def nth_list_update bit_or_iff bit_exp_iff
        less_mult_imp_div_less mult.commute split: if_splits)
qed

lemma blocks_mark_range:
  "\<forall>b \<in> set bs. b < 64 * length ws \<Longrightarrow>
   blocks (fold mark_block bs ws) = blocks ws \<union> set bs \<and> length (fold mark_block bs ws) = length ws"
  by (induction bs arbitrary: ws) (auto simp: blocks_mark)

section \<open>One datagram\<close>

definition fr_extent :: "fragment \<Rightarrow> nat" where
  "fr_extent f = unat (fr_offset f) + length (fr_payload f)"

definition fr_blocks :: "fragment \<Rightarrow> nat set" where
  "fr_blocks f = {unat (fr_offset f) div 8..(fr_extent f - 1) div 8}"

text \<open>What the parser and the first test of \<open>push\<close> establish of a fragment.\<close>

definition fragment_ok :: "fragment \<Rightarrow> bool" where
  "fragment_ok f \<longleftrightarrow> fragment_usable f \<and> 8 dvd unat (fr_offset f)"

definition holds :: "pending \<Rightarrow> fragment \<Rightarrow> bool" where
  "holds p f \<longleftrightarrow> fr_extent f \<le> length (pd_data p)
     \<and> (\<forall>i < length (fr_payload f). pd_data p ! (unat (fr_offset f) + i) = fr_payload f ! i)"

text \<open>A datagram that has taken in exactly the fragments \<open>fs\<close>.\<close>

definition assembled :: "fragment list \<Rightarrow> pending \<Rightarrow> bool" where
  "assembled fs p \<longleftrightarrow>
     length (pd_received p) = BITMAP_WORDS
     \<and> (\<forall>f \<in> set fs. fragment_ok f \<and> holds p f)
     \<and> blocks (pd_received p) = (\<Union>f \<in> set fs. fr_blocks f)
     \<and> unat (pd_received_blocks p) = card (blocks (pd_received p))
     \<and> (pd_data p = [] \<or> length (pd_data p) \<in> fr_extent ` set fs)
     \<and> (\<forall>f \<in> set fs. unat (fr_offset f) = 0 \<longrightarrow>
          pd_headers p = fr_headers f \<and> pd_next_header_at p = fr_next_header_at f)
     \<and> (\<forall>f \<in> set fs. \<not> fr_more f \<longrightarrow> pd_total p = Some (fr_extent f))
     \<and> (pd_total p \<noteq> None \<longrightarrow> (\<exists>f \<in> set fs. \<not> fr_more f))
     \<and> pd_total p \<in> {None, Some (length (pd_data p))}"

lemma assembledD:
  assumes "assembled fs p"
  shows "length (pd_received p) = BITMAP_WORDS"
    and "f \<in> set fs \<Longrightarrow> fragment_ok f" and "f \<in> set fs \<Longrightarrow> holds p f"
    and "blocks (pd_received p) = (\<Union>f \<in> set fs. fr_blocks f)"
    and "unat (pd_received_blocks p) = card (blocks (pd_received p))"
    and "pd_data p = [] \<or> length (pd_data p) \<in> fr_extent ` set fs"
    and "f \<in> set fs \<Longrightarrow> unat (fr_offset f) = 0 \<Longrightarrow>
      pd_headers p = fr_headers f \<and> pd_next_header_at p = fr_next_header_at f"
    and "f \<in> set fs \<Longrightarrow> \<not> fr_more f \<Longrightarrow> pd_total p = Some (fr_extent f)"
    and "pd_total p = Some t \<Longrightarrow> (\<exists>f \<in> set fs. \<not> fr_more f) \<and> t = length (pd_data p)"
  using assms by (auto simp: assembled_def)

lemma fragment_okD:
  assumes "fragment_ok f"
  shows "fr_payload f \<noteq> []" and "fr_extent f \<le> 65535" and "unat (fr_offset f) < fr_extent f"
    and "fr_more f \<Longrightarrow> 8 dvd fr_extent f" and "8 dvd unat (fr_offset f)"
  using assms
  by (auto simp: fragment_ok_def fragment_usable_def fr_extent_def MAX_DATAGRAM_BYTES_def
      dvd_add_right_iff mod_eq_0_iff_dvd)

lemma fr_blocks_lt: "fragment_ok f \<Longrightarrow> b \<in> fr_blocks f \<Longrightarrow> b < 64 * BITMAP_WORDS"
  using fragment_okD(2) [of f]
  by (auto simp: fr_blocks_def BITMAP_WORDS_def BLOCK_BITS_def MAX_DATAGRAM_BYTES_def)

text \<open>A byte of a fragment lies in one of its blocks, so fragments of disjoint blocks share no byte.\<close>

lemma fr_blocks_byte: "unat (fr_offset f) \<le> i \<Longrightarrow> i < fr_extent f \<Longrightarrow> i div 8 \<in> fr_blocks f"
  by (auto simp: fr_blocks_def intro: div_le_mono)

lemma fr_blocks_covers:
  assumes "fragment_ok f" and "b \<in> fr_blocks f" and "i div 8 = b" and "fr_more f \<or> i < fr_extent f"
  shows "unat (fr_offset f) \<le> i \<and> i < fr_extent f"
proof
  obtain k where k: "unat (fr_offset f) = 8 * k" using fragment_okD(5) [OF assms(1)] by (auto elim: dvdE)
  with assms(2,3) show "unat (fr_offset f) \<le> i" by (auto simp: fr_blocks_def)
  show "i < fr_extent f"
  proof (cases "i < fr_extent f")
    case False
    with assms(4) have "fr_more f" by simp
    then obtain m where m: "fr_extent f = 8 * m" using fragment_okD(4) [OF assms(1)] by (auto elim: dvdE)
    then have "(fr_extent f - 1) div 8 < m"
      using fragment_okD(3) [OF assms(1)] by (simp add: div_less_iff_less_mult)
    with assms(2,3) have "i div 8 < m" by (simp add: fr_blocks_def)
    then show ?thesis using m by (simp add: div_less_iff_less_mult mult.commute)
  qed
qed

text \<open>The buffer grown to a fragment's extent with the fragment written into it.\<close>

definition place :: "fragment \<Rightarrow> bytes \<Rightarrow> bytes" where
  "place f data =
     overwrite (data @ replicate (fr_extent f - length data) 0) (unat (fr_offset f)) (fr_payload f)"

lemma length_place: "length (place f data) = max (length data) (fr_extent f)"
  by (simp add: place_def fr_extent_def)

lemma nth_place:
  "i < max (length data) (fr_extent f) \<Longrightarrow>
   place f data ! i =
     (if unat (fr_offset f) \<le> i \<and> i < fr_extent f then fr_payload f ! (i - unat (fr_offset f))
      else if i < length data then data ! i else 0)"
  by (auto simp: place_def fr_extent_def nth_overwrite nth_append)

lemma store_fragment_fields:
  fixes f p
  defines "p' \<equiv> store_fragment f p"
  shows "pd_data p' = place f (pd_data p)"
    and "pd_received p' = fold mark_block [unat (fr_offset f) div 8..<Suc ((fr_extent f - 1) div 8)] (pd_received p)"
    and "pd_received_blocks p' = pd_received_blocks p
      + of_nat ((fr_extent f - 1) div 8 - unat (fr_offset f) div 8 + 1)"
    and "pd_headers p' = (if unat (fr_offset f) = 0 then fr_headers f else pd_headers p)"
    and "pd_next_header_at p' = (if unat (fr_offset f) = 0 then fr_next_header_at f else pd_next_header_at p)"
    and "pd_total p' = pd_total p" and "pd_poisoned p' = pd_poisoned p" and "pd_expiry p' = pd_expiry p"
  by (simp_all add: p'_def store_fragment_def mark_received_def Let_def fr_extent_def place_def
      del: upt_Suc of_nat_Suc)

lemma card_fr_blocks:
  "fragment_ok f \<Longrightarrow> card (fr_blocks f) = (fr_extent f - 1) div 8 - unat (fr_offset f) div 8 + 1"
proof -
  assume "fragment_ok f"
  then have "unat (fr_offset f) div 8 \<le> (fr_extent f - 1) div 8"
    using fragment_okD(3) [of f] by (intro div_le_mono) simp
  then show ?thesis by (simp add: fr_blocks_def Suc_diff_le)
qed

lemma blocks_bound: "\<forall>b \<in> B. b < (8192 :: nat) \<Longrightarrow> card B \<le> 8192"
  using card_mono [of "{..<8192}" B] by auto

lemma set_block_range: "set [unat (fr_offset f) div 8..<Suc ((fr_extent f - 1) div 8)] = fr_blocks f"
  by (auto simp: fr_blocks_def)

lemma store_blocks:
  assumes "assembled fs p" and "fragment_ok f"
    and "fr_blocks f \<inter> blocks (pd_received p) = {}"
  shows "length (pd_received (store_fragment f p)) = BITMAP_WORDS"
    and "blocks (pd_received (store_fragment f p)) = fr_blocks f \<union> blocks (pd_received p)"
    and "unat (pd_received_blocks (store_fragment f p)) = card (fr_blocks f \<union> blocks (pd_received p))"
proof -
  have words: "64 * BITMAP_WORDS = 8192"
    by (simp add: BITMAP_WORDS_def BLOCK_BITS_def MAX_DATAGRAM_BYTES_def)
  have lt: "b < 64 * length (pd_received p)" if "b \<in> fr_blocks f" for b
    using that assms fr_blocks_lt by (auto simp: assembled_def)
  have *: "\<forall>b \<in> set [unat (fr_offset f) div 8..<Suc ((fr_extent f - 1) div 8)]. b < 64 * length (pd_received p)"
    unfolding set_block_range using lt by blast
  show "length (pd_received (store_fragment f p)) = BITMAP_WORDS"
    and "blocks (pd_received (store_fragment f p)) = fr_blocks f \<union> blocks (pd_received p)"
    using blocks_mark_range [OF *] assms(1) unfolding store_fragment_fields set_block_range
    by (auto simp: assembled_def)
  have fin: "finite (fr_blocks f)" by (simp add: fr_blocks_def)
  have "length (pd_received p) = 128"
    using assms(1) words by (simp add: assembled_def)
  then have "\<forall>b \<in> fr_blocks f \<union> blocks (pd_received p). b < 8192"
    using lt by (auto simp: blocks_def)
  then have "card (fr_blocks f \<union> blocks (pd_received p)) \<le> 8192"
    by (rule blocks_bound)
  moreover have "card (fr_blocks f \<union> blocks (pd_received p))
      = card (fr_blocks f) + card (blocks (pd_received p))"
    using fin assms(3) by (simp add: card_Un_disjoint)
  ultimately show "unat (pd_received_blocks (store_fragment f p)) = card (fr_blocks f \<union> blocks (pd_received p))"
    using assms(1) card_fr_blocks [OF assms(2)]
    unfolding store_fragment_fields
    by (simp add: assembled_def unat_word_ariths unat_of_nat del: of_nat_Suc of_nat_add)
qed

lemma holds_store:
  assumes "assembled fs p" and "fragment_ok f"
    and "fr_blocks f \<inter> blocks (pd_received p) = {}" and "g \<in> set (f # fs)"
  shows "holds (store_fragment f p) g"
proof (cases "g = f")
  case True
  then show ?thesis
    unfolding holds_def store_fragment_fields length_place
    by (auto simp: fr_extent_def nth_place)
next
  case False
  with assms(4) have g: "g \<in> set fs" by simp
  then have old: "holds p g" and "fr_blocks g \<subseteq> blocks (pd_received p)"
    using assms(1) by (auto simp: assembled_def)
  then have "\<not> (unat (fr_offset f) \<le> i \<and> i < fr_extent f)"
    if "unat (fr_offset g) \<le> i" "i < fr_extent g" for i
    using fr_blocks_byte [of f i] fr_blocks_byte [OF that] assms(3) by auto
  then have "place f (pd_data p) ! (unat (fr_offset g) + i) = pd_data p ! (unat (fr_offset g) + i)"
    if "i < length (fr_payload g)" for i
    using that old by (subst nth_place) (auto simp: holds_def fr_extent_def)
  with old show ?thesis
    by (auto simp: holds_def store_fragment_fields length_place)
qed

lemma store_assembled:
  assumes "assembled fs p" and "fragment_ok f" and "fr_blocks f \<inter> blocks (pd_received p) = {}"
    and "fr_more f \<Longrightarrow> pd_total p = None \<or> fr_extent f \<le> length (pd_data p)"
    and "\<not> fr_more f \<Longrightarrow> length (pd_data p) \<le> fr_extent f \<and> pd_total p \<in> {None, Some (fr_extent f)}"
  defines "p1 \<equiv> store_fragment f p"
  shows "assembled (f # fs) (if \<not> fr_more f then p1\<lparr>pd_total := Some (fr_extent f)\<rparr> else p1)"
proof -
  note old = assembledD [OF assms(1)]
  have blocks: "length (pd_received p1) = BITMAP_WORDS"
    "blocks (pd_received p1) = fr_blocks f \<union> blocks (pd_received p)"
    "unat (pd_received_blocks p1) = card (fr_blocks f \<union> blocks (pd_received p))"
    unfolding p1_def by (rule store_blocks [OF assms(1-3)])+
  have zero: "0 \<in> fr_blocks g" if "unat (fr_offset g) = 0" for g
    using that by (simp add: fr_blocks_def)
  have fresh: "unat (fr_offset f) \<noteq> 0" if "g \<in> set fs" "unat (fr_offset g) = 0" for g
    using that old(4) assms(3) zero [of f] zero [of g] by auto
  have len: "length (pd_data p1) = max (length (pd_data p)) (fr_extent f)"
    and tot: "pd_total p1 = pd_total p"
    by (simp_all add: p1_def store_fragment_fields length_place)
  have hold: "\<forall>g \<in> set (f # fs). fragment_ok g \<and> holds p1 g"
    using assms(2) old(2) holds_store [OF assms(1-3)] by (auto simp: p1_def)
  have headers: "\<forall>g \<in> set (f # fs). unat (fr_offset g) = 0 \<longrightarrow>
      pd_headers p1 = fr_headers g \<and> pd_next_header_at p1 = fr_next_header_at g"
    using old(7) fresh unfolding p1_def store_fragment_fields by (metis set_ConsD)
  have extent: "length (pd_data p1) \<in> fr_extent ` set (f # fs)"
    using old(6) len by (auto simp: max_def)
  have union: "fr_blocks f \<union> blocks (pd_received p) = (\<Union>g \<in> set (f # fs). fr_blocks g)"
    using old(4) by simp
  show ?thesis
  proof (cases "fr_more f")
    case True
    have "pd_total p \<in> {None, Some (length (pd_data p1))}"
      using assms(4) [OF True] old(9) len by (cases "pd_total p") (auto simp: max_def)
    moreover have "\<forall>g \<in> set (f # fs). \<not> fr_more g \<longrightarrow> pd_total p = Some (fr_extent g)"
      using old(8) True by auto
    moreover have "pd_total p \<noteq> None \<longrightarrow> (\<exists>g \<in> set (f # fs). \<not> fr_more g)"
      using old(9) by auto
    ultimately show ?thesis
      unfolding assembled_def if_not_P [OF True [THEN not_not [THEN iffD2]]] tot
      using hold headers extent blocks union by simp
  next
    case False
    have "fr_extent g = fr_extent f" if "g \<in> set fs" "\<not> fr_more g" for g
      using assms(5) [OF False] old(8) [OF that] by simp
    then have "\<forall>g \<in> set (f # fs). \<not> fr_more g \<longrightarrow> fr_extent g = fr_extent f" by simp
    moreover have "length (pd_data p1) = fr_extent f"
      using len assms(5) [OF False] by simp
    ultimately show ?thesis
      using False hold headers extent blocks union by (simp add: assembled_def holds_def)
  qed
qed

lemma overlaps_iff:
  assumes "assembled fs p" and "fragment_ok f"
  shows "list_ex (block_received p) [unat (fr_offset f) div 8..<Suc ((fr_extent f - 1) div 8)]
     \<longleftrightarrow> fr_blocks f \<inter> blocks (pd_received p) \<noteq> {}"
proof -
  have "block_received p b \<longleftrightarrow> b \<in> blocks (pd_received p)" if "b \<in> fr_blocks f" for b
    using that assms fr_blocks_lt [OF assms(2)] by (auto simp: assembled_def block_received_iff)
  then show ?thesis unfolding list_ex_iff set_block_range by auto
qed

text \<open>
  The verdict on a fragment, for a datagram that is not poisoned: a fragment that contradicts the
  known length or overlaps poisons the datagram, any other one is taken in.
\<close>

lemma accept_assembled:
  assumes "assembled fs p" and "\<not> pd_poisoned p" and "fragment_ok f"
    and "accept_fragment f p = (v, p')"
  shows "if v = VDiscarded then pd_poisoned p'
     else \<not> pd_poisoned p' \<and> assembled (f # fs) p' \<and> fr_blocks f \<inter> blocks (pd_received p) = {}
       \<and> (v = VComplete \<longleftrightarrow> is_complete p') \<and> pd_expiry p' = pd_expiry p"
proof (cases "v = VDiscarded")
  case True
  with assms(2,4) show ?thesis
    by (auto simp: accept_fragment_def Let_def split: if_splits)
next
  case False
  let ?p1 = "store_fragment f p"
  have fit: "fr_blocks f \<inter> blocks (pd_received p) = {}"
    "pd_total p = Some t \<Longrightarrow> fr_extent f \<le> t \<and> (fr_more f \<or> fr_extent f = t)"
    "fr_more f \<or> length (pd_data ?p1) \<le> fr_extent f" for t
    using False assms(4) overlaps_iff [OF assms(1,3)]
    by (auto simp: accept_fragment_def Let_def fr_extent_def split: if_splits option.splits)
  then have p': "p' = (if \<not> fr_more f then ?p1\<lparr>pd_total := Some (fr_extent f)\<rparr> else ?p1)"
    and v: "v = VComplete \<longleftrightarrow> is_complete p'"
    using False assms(4) by (auto simp: accept_fragment_def Let_def fr_extent_def split: if_splits)
  have "length (pd_data p) \<le> fr_extent f \<and> pd_total p \<in> {None, Some (fr_extent f)}"
    if "\<not> fr_more f"
    using fit(2,3) that by (cases "pd_total p") (auto simp: store_fragment_fields length_place)
  moreover have "pd_total p = None \<or> fr_extent f \<le> length (pd_data p)"
    using fit(2) assms(1) by (cases "pd_total p") (auto simp: assembled_def)
  ultimately have "assembled (f # fs) p'"
    unfolding p' using store_assembled [OF assms(1,3) fit(1)] by blast
  with False fit(1) v assms(2) show ?thesis by (simp add: p' store_fragment_fields)
qed

text \<open>
  The soundness of the completion test: the received blocks lie below the datagram's end, so
  counting as many of them as the datagram has means that every byte has arrived.
\<close>

lemma complete_covered:
  assumes "assembled fs p" and "is_complete p" and "i < length (pd_data p)"
  shows "\<exists>f \<in> set fs. unat (fr_offset f) \<le> i \<and> i < fr_extent f"
proof -
  let ?n = "length (pd_data p)"
  have tot: "pd_total p = Some ?n" and count: "card (blocks (pd_received p)) = (?n + 7) div 8"
    using assms(1,2) by (auto simp: is_complete_def assembled_def split: option.splits)
  have "b < (?n + 7) div 8" if "b \<in> blocks (pd_received p)" for b
  proof -
    obtain f where f: "fragment_ok f" "fr_extent f \<le> ?n" "b \<in> fr_blocks f"
      using \<open>b \<in> blocks (pd_received p)\<close> assms(1) by (auto simp: assembled_def holds_def)
    then have "b \<le> (fr_extent f - 1) div 8" by (simp add: fr_blocks_def)
    also have "\<dots> \<le> (?n - 1) div 8" using f by (intro div_le_mono) simp
    also have "\<dots> < (?n + 7) div 8" using assms(3) by simp
    finally show ?thesis .
  qed
  then have "blocks (pd_received p) = {..<(?n + 7) div 8}"
    using count by (intro card_subset_eq) auto
  moreover have "i div 8 < (?n + 7) div 8" using assms(3) by simp
  ultimately have "i div 8 \<in> blocks (pd_received p)" by blast
  moreover have "blocks (pd_received p) = (\<Union>f \<in> set fs. fr_blocks f)"
    using assms(1) unfolding assembled_def by blast
  ultimately obtain f where f: "f \<in> set fs" "i div 8 \<in> fr_blocks f" by blast
  show ?thesis
  proof (cases "fr_more f")
    case True
    with f assms(1) fr_blocks_covers [of f "i div 8" i] show ?thesis by (auto simp: assembled_def)
  next
    case False
    with f tot assms(1) have "fr_extent f = ?n" by (auto simp: assembled_def)
    with f assms fr_blocks_covers [of f "i div 8" i] show ?thesis by (auto simp: assembled_def)
  qed
qed

section \<open>Fragments of one datagram\<close>

text \<open>\<open>f\<close> is a fragment of the datagram \<open>d\<close> as a sender cuts it.\<close>

definition fragment_of :: "bytes \<Rightarrow> fragment \<Rightarrow> bool" where
  "fragment_of d f \<longleftrightarrow> fragment_ok f \<and> fr_extent f \<le> length d
     \<and> (\<forall>i < length (fr_payload f). fr_payload f ! i = d ! (unat (fr_offset f) + i))
     \<and> (\<not> fr_more f \<longleftrightarrow> fr_extent f = length d)"

text \<open>Fragments that share no block and together cover the datagram, in whatever order.\<close>

definition fragments_cover :: "bytes \<Rightarrow> fragment list \<Rightarrow> bool" where
  "fragments_cover d fs \<longleftrightarrow> (\<forall>f \<in> set fs. fragment_of d f)
     \<and> sorted_wrt (\<lambda>f g. fr_blocks f \<inter> fr_blocks g = {}) fs
     \<and> (\<Union>f \<in> set fs. fr_blocks f) = {..<(length d + 7) div 8}"

lemma assembled_new [simp]: "assembled [] (pending_new e)" "\<not> pd_poisoned (pending_new e)"
  by (simp_all add: assembled_def pending_new_def)

lemma assembled_length:
  assumes "assembled fs p" and "\<forall>f \<in> set fs. fragment_of d f"
  shows "length (pd_data p) \<le> length d" and "pd_total p \<in> {None, Some (length d)}"
proof -
  show le: "length (pd_data p) \<le> length d"
    using assms by (auto simp: assembled_def fragment_of_def)
  show "pd_total p \<in> {None, Some (length d)}"
    using assms by (auto simp: assembled_def fragment_of_def)
qed

lemma accept_fragment_of:
  assumes "assembled fs p" and "\<not> pd_poisoned p" and "\<forall>g \<in> set fs. fragment_of d g"
    and "fragment_of d f" and "fr_blocks f \<inter> (\<Union>g \<in> set fs. fr_blocks g) = {}"
  shows "fst (accept_fragment f p) \<noteq> VDiscarded"
proof -
  have ok: "fragment_ok f" using assms(4) by (simp add: fragment_of_def)
  have "fr_blocks f \<inter> blocks (pd_received p) = {}"
    using assms(1,5) by (simp add: assembled_def)
  moreover have "length (pd_data (store_fragment f p)) \<le> length d"
    using assembled_length [OF assms(1,3)] assms(4)
    by (simp add: store_fragment_fields length_place fragment_of_def)
  ultimately show ?thesis
    using assembled_length [OF assms(1,3)] assms(2,4) overlaps_iff [OF assms(1) ok]
    by (auto simp: accept_fragment_def Let_def fr_extent_def fragment_of_def split: option.splits)
qed

text \<open>A datagram that has taken in fragments of \<open>d\<close> is complete once they cover \<open>d\<close>, and is then \<open>d\<close>.\<close>

lemma complete_iff_covered:
  assumes "assembled fs p" and "\<forall>f \<in> set fs. fragment_of d f" and "d \<noteq> []"
  shows "is_complete p \<longleftrightarrow> (\<Union>f \<in> set fs. fr_blocks f) = {..<(length d + 7) div 8}"
    and "is_complete p \<Longrightarrow> pd_data p = d"
proof -
  have blocks: "blocks (pd_received p) = (\<Union>f \<in> set fs. fr_blocks f)"
    and count: "unat (pd_received_blocks p) = card (blocks (pd_received p))"
    using assms(1) by (auto simp: assembled_def)
  have sub: "fr_blocks f \<subseteq> {..<(length d + 7) div 8}" if "f \<in> set fs" for f
  proof -
    have "(fr_extent f - 1) div 8 \<le> (length d - 1) div 8"
      using that assms(2) by (intro div_le_mono) (auto simp: fragment_of_def)
    also have "\<dots> < (length d + 7) div 8" using assms(3) by (cases d) auto
    finally show ?thesis by (auto simp: fr_blocks_def)
  qed
  have total: "pd_total p = Some (length d)"
    if "(\<Union>f \<in> set fs. fr_blocks f) = {..<(length d + 7) div 8}"
  proof -
    have "(length d - 1) div 8 \<in> {..<(length d + 7) div 8}" using assms(3) by (cases d) auto
    with that obtain f where f: "f \<in> set fs" "(length d - 1) div 8 \<in> fr_blocks f" by blast
    then have ok: "fragment_ok f" "fr_extent f \<le> length d" using assms(2) by (auto simp: fragment_of_def)
    have "\<not> fr_more f"
    proof
      assume "fr_more f"
      with fr_blocks_covers [OF ok(1) f(2) refl] have "length d - 1 < fr_extent f" by blast
      with ok(2) \<open>fr_more f\<close> f assms(2,3) show False by (cases d) (auto simp: fragment_of_def)
    qed
    with f assms(1,2) show ?thesis by (auto simp: assembled_def fragment_of_def)
  qed
  show "is_complete p \<longleftrightarrow> (\<Union>f \<in> set fs. fr_blocks f) = {..<(length d + 7) div 8}"
  proof
    assume complete: "is_complete p"
    then have "card (\<Union>f \<in> set fs. fr_blocks f) = (length d + 7) div 8"
      using assembled_length(2) [OF assms(1,2)] count blocks by (auto simp: is_complete_def)
    with sub show "(\<Union>f \<in> set fs. fr_blocks f) = {..<(length d + 7) div 8}"
      by (intro card_subset_eq) auto
  next
    assume "(\<Union>f \<in> set fs. fr_blocks f) = {..<(length d + 7) div 8}"
    with total count blocks show "is_complete p" by (simp add: is_complete_def)
  qed
  assume complete: "is_complete p"
  then have len: "length (pd_data p) = length d"
    using assembled_length(2) [OF assms(1,2)] assms(1)
    by (auto simp: is_complete_def assembled_def)
  show "pd_data p = d"
  proof (rule nth_equalityI [OF len])
    fix i assume i: "i < length (pd_data p)"
    obtain f where f: "f \<in> set fs" "unat (fr_offset f) \<le> i" "i < fr_extent f"
      using complete_covered [OF assms(1) complete i] by blast
    then obtain j where j: "i = unat (fr_offset f) + j" "j < length (fr_payload f)"
      using le_Suc_ex [OF f(2)] by (auto simp: fr_extent_def)
    with f assms(1) have "pd_data p ! i = fr_payload f ! j" by (auto simp: assembled_def holds_def)
    with f j assms(2) show "pd_data p ! i = d ! i" by (simp add: fragment_of_def)
  qed
qed

section \<open>Rebuilding\<close>

text \<open>What the parser hands over as the inherited headers: the whole IPv4 header, or the IPv6 headers
  up to the Fragment header with the position of the Next Header byte before it.\<close>

definition inherited_headers :: "bytes \<Rightarrow> nat option \<Rightarrow> bool" where
  "inherited_headers headers next_header_at =
     (case next_header_at of
        None \<Rightarrow> 20 \<le> length headers \<and> length headers = unat (headers ! 0 AND 0x0f) * 4
      | Some at \<Rightarrow> 40 \<le> length headers \<and> 6 \<le> at \<and> at < length headers)"

lemma drop_overwrite_low:
  "at + length ys \<le> h \<Longrightarrow> h \<le> length xs \<Longrightarrow> drop h (overwrite xs at ys) = drop h xs"
  by (rule nth_equalityI) (simp_all add: nth_overwrite)

lemma rebuild_ipv4:
  assumes "rebuild headers None protocol data = Some packet" and "inherited_headers headers None"
  shows "drop (length headers) packet = data \<and> length packet = length headers + length data
     \<and> take 2 (drop 2 packet) = to_be_16 (of_nat (length packet)) \<and> length packet \<le> 65535
     \<and> packet ! 6 = headers ! 6 AND 0xc0 \<and> packet ! 7 = 0
     \<and> checksum [take (length headers) packet] = 0
     \<and> (\<forall>i < length headers. i \<notin> {2, 3, 6, 7, 10, 11} \<longrightarrow> packet ! i = headers ! i)"
proof -
  let ?h = "length headers" and ?bs = "headers @ data"
  define p1 where "p1 = overwrite ?bs 2 (to_be_16 (of_nat (length ?bs)))"
  define p2 where "p2 = p1[6 := p1 ! 6 AND 0xc0, 7 := 0]"
  define p3 where "p3 = overwrite p2 10 [0, 0]"
  have h: "20 \<le> ?h" "?h = unat (headers ! 0 AND 0x0f) * 4"
    using assms(2) by (simp_all add: inherited_headers_def)
  have "unat (headers ! 0 AND 0x0f) < 256" by (rule unat_u8_lt)
  with h(2) have h60: "?h \<le> 1020" by linarith
  have even: "even ?h" by (subst h(2)) simp
  have len: "length p1 = ?h + length data" "length p2 = ?h + length data" "length p3 = ?h + length data"
    using h by (simp_all add: p1_def p2_def p3_def)
  have n1: "p1 ! i = (if 2 \<le> i \<and> i < 4 then to_be_16 (of_nat (length ?bs)) ! (i - 2) else headers ! i)"
    if "i < ?h" for i
    using that h(1) by (simp add: p1_def nth_overwrite nth_append)
  have n2: "p2 ! i = (if i = 7 then 0 else if i = 6 then headers ! 6 AND 0xc0 else p1 ! i)"
    if "i < ?h" for i
    using that h(1) len by (simp add: p2_def nth_list_update n1)
  have n3: "p3 ! i = (if 10 \<le> i \<and> i < 12 then 0 else p2 ! i)" if "i < ?h" for i
    using that h(1) len by (auto simp: p3_def nth_overwrite less_Suc_eq numeral_eq_Suc)
  define ck where "ck = checksum [take ?h p3]"
  have "headers \<noteq> []" using h(1) by auto
  then have "p3 ! 0 = headers ! 0" "?bs ! 0 = headers ! 0"
    by (simp_all add: n3 n2 n1 nth_append)
  then have p30: "unat (p3 ! 0 AND 0x0f) * 4 = ?h" using h(2) by simp
  have le: "length ?bs < 2 ^ 16" and guard: "\<not> (length ?bs < 20 \<or> drop_bit 4 (?bs ! 0) \<noteq> 4)"
    using assms(1) by (auto simp: rebuild_def Let_def try_from_def split: if_splits)
  then have fits: "(try_from (length ?bs) :: u16 option) = Some (of_nat (length ?bs))"
    by (simp add: try_from_def)
  have "rebuild headers None protocol data = Some (overwrite p3 10 (to_be_16 ck))"
    unfolding rebuild_def Let_def
    by (simp only: guard if_False option.case fits p1_def [symmetric] p2_def [symmetric]
        p3_def [symmetric] p30 ck_def)
  with assms(1) have packet: "packet = overwrite p3 10 (to_be_16 ck)" by simp
  then have lp: "length packet = ?h + length data" using h(1) len by simp
  have np: "packet ! i = (if 10 \<le> i \<and> i < 12 then to_be_16 ck ! (i - 10) else p3 ! i)" if "i < ?h" for i
    using that h(1) len by (simp add: packet nth_overwrite)
  have "take ?h packet = overwrite (take ?h p3) 10 (to_be_16 ck)"
    using h(1) len by (simp add: packet overwrite_def drop_take)
  moreover have "take 2 (drop 10 (take ?h p3)) = [0, 0]"
    using h(1) len by (simp add: p3_def overwrite_def drop_take)
  then have "checksum [[], overwrite (take ?h p3) 10 (to_be_16 (checksum [[], take ?h p3]))] = 0"
    using h(1) h60 even len by (intro checksum_stored) simp_all
  ultimately have "checksum [take ?h packet] = 0"
    by (simp add: ck_def checksum_def)
  moreover have "drop ?h packet = data"
    using h(1) len by (simp add: packet p3_def p2_def p1_def drop_overwrite_low drop_update_cancel)
  moreover have "take 2 (drop 2 packet) = to_be_16 (of_nat (length packet))"
    using h(1) by (intro nth_equalityI) (simp_all add: np n3 n2 n1 lp)
  moreover have "packet ! 6 = headers ! 6 AND 0xc0" "packet ! 7 = 0"
    using h(1) by (simp_all add: np n3 n2)
  moreover have "packet ! i = headers ! i" if "i < ?h" "i \<notin> {2, 3, 6, 7, 10, 11}" for i
  proof -
    have "i < 2 \<or> 4 \<le> i" "i < 10 \<or> 12 \<le> i" using that by auto
    with that show ?thesis by (elim disjE) (simp_all add: np n3 n2 n1)
  qed
  moreover have "length packet \<le> 65535" using le lp by simp
  ultimately show ?thesis using lp by blast
qed

lemma rebuild_ipv6:
  assumes "rebuild headers (Some at) protocol data = Some packet" and "inherited_headers headers (Some at)"
  shows "drop (length headers) packet = data \<and> length packet = length headers + length data
     \<and> take 2 (drop 4 packet) = to_be_16 (of_nat (length packet - 40)) \<and> length packet \<le> 65575
     \<and> packet ! at = protocol
     \<and> (\<forall>i < length headers. i \<notin> {4, 5, at} \<longrightarrow> packet ! i = headers ! i)"
proof -
  let ?h = "length headers" and ?p1 = "(headers @ data)[at := protocol]"
  have h: "40 \<le> ?h" "6 \<le> at" "at < ?h"
    using assms(2) by (simp_all add: inherited_headers_def)
  have le: "?h + length data - 40 < 2 ^ 16"
    and packet: "packet = overwrite ?p1 4 (to_be_16 (of_nat (?h + length data - 40)))"
    using assms(1) by (auto simp: rebuild_def Let_def try_from_def IPV6_HEADER_BYTES_def
        simp del: of_nat_diff split: if_splits)
  have lp: "length packet = ?h + length data" using h by (simp add: packet)
  have np: "packet ! i = (if 4 \<le> i \<and> i < 6 then to_be_16 (of_nat (?h + length data - 40)) ! (i - 4)
      else if i = at then protocol else headers ! i)" if "i < ?h" for i
    using that h by (simp add: packet nth_overwrite nth_append nth_list_update del: of_nat_diff)
  have "drop ?h packet = data"
    using h by (simp add: packet drop_overwrite_low drop_update_cancel del: of_nat_diff)
  moreover have "take 2 (drop 4 packet) = to_be_16 (of_nat (length packet - 40))"
    using h by (intro nth_equalityI) (simp_all add: np lp del: of_nat_diff)
  moreover have "packet ! i = headers ! i" if "i < ?h" "i \<notin> {4, 5, at}" for i
  proof -
    have "i < 4 \<or> 6 \<le> i" using that by auto
    with that show ?thesis by (elim disjE) (simp_all add: np)
  qed
  moreover have "packet ! at = protocol" using h by (simp add: np)
  moreover have "length packet \<le> 65575" using le lp by simp
  ultimately show ?thesis using lp by blast
qed

text \<open>
  C25. A packet rebuilt from inherited headers carries the reassembled data unchanged behind them
  and declares its real length. For IPv4 the fragmentation fields are cleared and the header checksum
  verifies; for IPv6 the Fragment header is gone and the Next Header byte before it names the
  transport. No other header byte changes.
\<close>

theorem rebuild_sound:
  assumes "rebuild headers next_header_at protocol data = Some packet"
    and "inherited_headers headers next_header_at"
  shows "drop (length headers) packet = data \<and> length packet = length headers + length data
     \<and> (case next_header_at of
          None \<Rightarrow>
            take 2 (drop 2 packet) = to_be_16 (of_nat (length packet)) \<and> length packet \<le> 65535
            \<and> packet ! 6 = headers ! 6 AND 0xc0 \<and> packet ! 7 = 0
            \<and> checksum [take (length headers) packet] = 0
            \<and> (\<forall>i < length headers. i \<notin> {2, 3, 6, 7, 10, 11} \<longrightarrow> packet ! i = headers ! i)
        | Some at \<Rightarrow>
            take 2 (drop 4 packet) = to_be_16 (of_nat (length packet - 40)) \<and> length packet \<le> 65575
            \<and> packet ! at = protocol
            \<and> (\<forall>i < length headers. i \<notin> {4, 5, at} \<longrightarrow> packet ! i = headers ! i))"
proof (cases next_header_at)
  case None
  with assms rebuild_ipv4 [of headers protocol data packet] show ?thesis by auto
next
  case (Some at)
  with assms rebuild_ipv6 [of headers at protocol data packet] show ?thesis by auto
qed

theorem rebuild_sound_witness:
  "\<exists>packet. rebuild ([0x45, 0, 0, 28, 0, 1, 0x20, 0, 64, 17, 0, 0, 10, 0, 0, 1, 10, 0, 0, 2]) None 17 [1, 2, 3, 4]
      = Some packet \<and> drop 20 packet = [1, 2, 3, 4] \<and> packet ! 6 = 0"
proof -
  let ?h = "[0x45, 0, 0, 28, 0, 1, 0x20, 0, 64, 17, 0, 0, 10, 0, 0, 1, 10, 0, 0, 2] :: bytes"
  obtain packet where packet: "rebuild ?h None 17 [1, 2, 3, 4] = Some packet"
    by (simp add: rebuild_def try_from_def Let_def)
  have headers: "inherited_headers ?h None" by (simp add: inherited_headers_def)
  have len: "length ?h = 20" by simp
  have "drop 20 packet = [1, 2, 3, 4]" "packet ! 6 = ?h ! 6 AND 0xc0"
    using rebuild_sound [OF packet headers] by (simp_all only: option.case len)
  with packet show ?thesis by (intro exI [of _ packet]) simp
qed

end
