(* ===== verification/Btree.thy ===== *)
theory Btree
  imports Prelude "HOL-Library.Multiset"
begin

text \<open>
  The part of \<open>BTreeMap\<close> the engine uses, as association lists in key order, and the index of
  deadlines built on it: a map from instants to the keys filed under them. Its content as a whole
  is the list \<open>filed\<close> of pairs of an instant and a key.

  The locales of this theory are the contract of a table whose entries expire: \<open>lazy_expiry\<close>
  promises that no entry leaves before its deadline, \<open>exact_expiry\<close> that none outlives it.
\<close>

section \<open>Sorted maps\<close>

definition bt_ok :: "('k :: linorder \<times> 'v) list \<Rightarrow> bool" where
  "bt_ok m \<longleftrightarrow> sorted_wrt (<) (map fst m)"

text \<open>\<open>entry(k).or_insert(d)\<close> followed by an update of the value.\<close>

fun bt_entry :: "'k :: linorder \<Rightarrow> 'v \<Rightarrow> ('v \<Rightarrow> 'v) \<Rightarrow> ('k \<times> 'v) list \<Rightarrow> ('k \<times> 'v) list" where
  "bt_entry k d f [] = [(k, f d)]"
| "bt_entry k d f ((k', v) # m) =
     (if k < k' then (k, f d) # (k', v) # m
      else if k = k' then (k, f v) # m
      else (k', v) # bt_entry k d f m)"

definition bt_push :: "'k :: linorder \<Rightarrow> 'v \<Rightarrow> ('k \<times> 'v list) list \<Rightarrow> ('k \<times> 'v list) list" where
  "bt_push k x m = bt_entry k [] (\<lambda>xs. xs @ [x]) m"

text \<open>\<open>Vec::swap_remove\<close>\<close>

definition swap_remove :: "nat \<Rightarrow> 'a list \<Rightarrow> 'a list" where
  "swap_remove i xs = butlast (xs[i := last xs])"

definition filed :: "('k \<times> 'v list) list \<Rightarrow> ('k \<times> 'v) list" where
  "filed m = concat (map (\<lambda>(t, ks). map (Pair t) ks) m)"

lemma filed_Nil [simp]: "filed [] = []"
  by (simp add: filed_def)

lemma filed_Cons [simp]: "filed ((t, ks) # m) = map (Pair t) ks @ filed m"
  by (simp add: filed_def)

lemma set_filed: "(t, k) \<in> set (filed m) \<longleftrightarrow> (\<exists>ks. (t, ks) \<in> set m \<and> k \<in> set ks)"
  by (auto simp: filed_def)

lemma keys_bt_entry: "fst ` set (bt_entry k d f m) = insert k (fst ` set m)"
  by (induction k d f m rule: bt_entry.induct) auto

lemma bt_ok_entry [simp]: "bt_ok m \<Longrightarrow> bt_ok (bt_entry k d f m)"
proof (induction k d f m rule: bt_entry.induct)
  case (2 k d f k' v m)
  then show ?case
    using keys_bt_entry [of k d f m] by (fastforce simp: bt_ok_def)
qed (simp add: bt_ok_def)

lemma bt_ok_push [simp]: "bt_ok m \<Longrightarrow> bt_ok (bt_push k x m)"
  by (simp add: bt_push_def)

lemma mset_filed_push: "mset (filed (bt_push t k m)) = add_mset (t, k) (mset (filed m))"
  unfolding bt_push_def by (induction m) (auto simp: ac_simps)

lemma nonempty_push:
  "\<forall>(t, ks) \<in> set m. ks \<noteq> [] \<Longrightarrow> \<forall>(t, ks) \<in> set (bt_push t' k m). ks \<noteq> []"
  unfolding bt_push_def by (induction m) (auto split: if_splits)

lemma mset_swap_remove: "i < length xs \<Longrightarrow> mset (swap_remove i xs) = mset xs - {#xs ! i#}"
proof (induction xs rule: rev_induct)
  case (snoc x xs)
  show ?case
  proof (cases "i < length xs")
    case True
    then have "mset (xs[i := x]) = add_mset x (mset xs - {#xs ! i#})" by (simp add: mset_update)
    with True show ?thesis by (simp add: swap_remove_def list_update_append nth_append)
  next
    case False
    with snoc.prems have "i = length xs" by simp
    then show ?thesis by (simp add: swap_remove_def)
  qed
qed simp

text \<open>The buckets up to an instant are the pairs filed up to it.\<close>

lemma filed_append [simp]: "filed (m @ m') = filed m @ filed m'"
  by (simp add: filed_def)

lemma filed_due:
  assumes "bt_ok m"
  shows "set (filed (takeWhile (\<lambda>(t, _). t \<le> now) m)) = {(t, k) \<in> set (filed m). t \<le> now}"
    and "set (filed (dropWhile (\<lambda>(t, _). t \<le> now) m)) = {(t, k) \<in> set (filed m). now < t}"
proof -
  let ?P = "\<lambda>(t, _ :: 'b list). t \<le> now"
  have low: "t \<le> now" if "(t, k) \<in> set (filed (takeWhile ?P m))" for t k
    using that by (auto simp: set_filed dest: set_takeWhileD)
  have high: "now < t" if "(t, k) \<in> set (filed (dropWhile ?P m))" for t k
  proof -
    have "now < t" if "(t, ks) \<in> set (dropWhile ?P m)" for ks
      using that assms by (induction m) (auto simp: bt_ok_def split: if_splits)
    with that show ?thesis by (auto simp: set_filed)
  qed
  have "filed m = filed (takeWhile ?P m) @ filed (dropWhile ?P m)"
    by (simp only: filed_append [symmetric] takeWhile_dropWhile_id)
  then have split: "(t, k) \<in> set (filed m) \<longleftrightarrow>
      (t, k) \<in> set (filed (takeWhile ?P m)) \<or> (t, k) \<in> set (filed (dropWhile ?P m))" for t k
    by simp
  have "(t, k) \<in> set (filed (takeWhile ?P m)) \<longleftrightarrow> (t, k) \<in> set (filed m) \<and> t \<le> now"
    and "(t, k) \<in> set (filed (dropWhile ?P m)) \<longleftrightarrow> (t, k) \<in> set (filed m) \<and> now < t" for t k
    using low [of t k] high [of t k] split [of t k] by (meson leD)+
  then show "set (filed (takeWhile ?P m)) = {(t, k) \<in> set (filed m). t \<le> now}"
    and "set (filed (dropWhile ?P m)) = {(t, k) \<in> set (filed m). now < t}"
    by (simp_all add: set_eq_iff)
qed

lemma bt_ok_dropWhile [simp]: "bt_ok m \<Longrightarrow> bt_ok (dropWhile P m)"
  by (induction m) (auto simp: bt_ok_def)

section \<open>Tables whose entries expire\<close>

locale lazy_expiry =
  fixes deadline :: "'s \<Rightarrow> 'k \<Rightarrow> instant option" and evict :: "instant \<Rightarrow> 's \<Rightarrow> 's"
    and consistent :: "'s \<Rightarrow> bool"
  assumes evict_consistent: "consistent s \<Longrightarrow> consistent (evict now s)"
    and evict_keeps: "consistent s \<Longrightarrow> deadline s k = Some d \<Longrightarrow> now < d \<Longrightarrow> deadline (evict now s) k = Some d"
    and evict_invents_nothing: "consistent s \<Longrightarrow> deadline (evict now s) k = Some d \<Longrightarrow> deadline s k = Some d"
begin

lemma evictions_consistent: "consistent s \<Longrightarrow> consistent (fold evict nows s)"
  by (induction nows arbitrary: s) (auto intro: evict_consistent)

text \<open>No run of evictions removes an entry before its deadline.\<close>

lemma survives:
  "consistent s \<Longrightarrow> deadline s k = Some d \<Longrightarrow> \<forall>now \<in> set nows. now < d \<Longrightarrow>
   deadline (fold evict nows s) k = Some d"
  by (induction nows arbitrary: s) (auto intro: evict_consistent evict_keeps)

end

locale exact_expiry = lazy_expiry +
  assumes evict_removes: "consistent s \<Longrightarrow> deadline (evict now s) k = Some d \<Longrightarrow> now < d"
begin

text \<open>After a run of evictions an entry is there exactly when its deadline lies past all of them.\<close>

lemma survives_iff:
  "consistent s \<Longrightarrow>
   deadline (fold evict nows s) k = Some d \<longleftrightarrow>
     deadline s k = Some d \<and> (\<forall>now \<in> set nows. now < d)"
proof (induction nows arbitrary: s)
  case (Cons now nows)
  have "deadline (evict now s) k = Some d \<longleftrightarrow> deadline s k = Some d \<and> now < d"
    using Cons.prems evict_removes evict_keeps evict_invents_nothing by blast
  with Cons.IH [OF evict_consistent [OF Cons.prems], of now] show ?case by simp
qed simp

end

end
