(* ===== verification/Reassembly.thy ===== *)
theory Reassembly
  imports Fragments Btree
begin

text \<open>
  The reassembler of \<^verbatim>\<open>src/l3/reassembly.rs\<close>: the pending datagrams by key, the index of their
  expiry with one slot per datagram, and the two operations \<open>push\<close> and \<open>expire\<close>.

  The invariant \<open>reassembler_ok\<close> says that the index files every pending datagram exactly once
  under its slot and nothing else; the properties are about every reachable state.
\<close>

section \<open>Model\<close>

record frag_key =
  fk_source :: ip_addr
  fk_destination :: ip_addr
  fk_identification :: u32
  fk_protocol :: u8

definition fragment_key :: "fragment \<Rightarrow> frag_key" where
  "fragment_key f =
     \<lparr>fk_source = fr_source f, fk_destination = fr_destination f,
      fk_identification = fr_identification f, fk_protocol = fr_protocol f\<rparr>"

lemma fk_protocol_key [simp]: "fk_protocol (fragment_key f) = fr_protocol f"
  by (simp add: fragment_key_def)

datatype push_outcome = Pending | Complete bytes | Discarded

record reassembler =
  rs_timeout :: duration
  rs_max_pending :: nat
  rs_pending :: "(frag_key, pending) hash_map"
  rs_expirations :: "(instant \<times> frag_key list) list"
  rs_discarded :: u64

definition reassembler_new :: "duration \<Rightarrow> nat \<Rightarrow> reassembler" where
  "reassembler_new timeout max_pending =
     \<lparr>rs_timeout = timeout, rs_max_pending = max_pending, rs_pending = [],
      rs_expirations = [], rs_discarded = 0\<rparr>"

definition rs_next_deadline :: "reassembler \<Rightarrow> instant option" where
  "rs_next_deadline rs = (case rs_expirations rs of [] \<Rightarrow> None | (t, _) # _ \<Rightarrow> Some t)"

text \<open>\<open>expire\<close>: one surfaced key, the drain of the due buckets, and the re-filing afterwards.\<close>

type_synonym drain_state = "(frag_key, pending) hash_map \<times> nat \<times> (instant \<times> frag_key) list"

definition expire_key :: "instant \<Rightarrow> frag_key \<Rightarrow> drain_state \<Rightarrow> drain_state" where
  "expire_key now k s =
     (case s of (pend, evicted, rebucket) \<Rightarrow>
        (case hm_get pend k of
           None \<Rightarrow> (pend, evicted, rebucket)
         | Some p \<Rightarrow>
             (if ex_at (pd_expiry p) \<le> now then (hm_remove k pend, evicted + 1, rebucket)
              else (hm_insert k (p\<lparr>pd_expiry := snd (expiry_refiled (pd_expiry p))\<rparr>) pend, evicted,
                    rebucket @ [(ex_at (pd_expiry p), k)]))))"

fun drain :: "instant \<Rightarrow> (instant \<times> frag_key list) list \<Rightarrow> drain_state \<Rightarrow>
    (instant \<times> frag_key list) list \<times> drain_state" where
  "drain now [] s = ([], s)"
| "drain now ((t, ks) # rest) s =
     (if t \<le> now then drain now rest (fold (expire_key now) ks s) else ((t, ks) # rest, s))"

definition rs_expire :: "instant \<Rightarrow> reassembler \<Rightarrow> nat \<times> reassembler" where
  "rs_expire now rs =
     (case drain now (rs_expirations rs) (rs_pending rs, 0, []) of
        (rest, pend, evicted, rebucket) \<Rightarrow>
          (evicted, rs\<lparr>rs_pending := pend,
                       rs_expirations := fold (\<lambda>(t, k). bt_push t k) rebucket rest\<rparr>))"

definition forget_slot :: "instant \<Rightarrow> frag_key \<Rightarrow> reassembler \<Rightarrow> reassembler" where
  "forget_slot t k rs =
     (case map_of (rs_expirations rs) t of
        None \<Rightarrow> rs
      | Some keys \<Rightarrow>
          (let keys' = (if k \<in> set keys
                        then swap_remove (length (takeWhile (\<lambda>c. c \<noteq> k) keys)) keys else keys)
           in rs\<lparr>rs_expirations :=
                   (if keys' = [] then AList.delete t (rs_expirations rs)
                    else map (\<lambda>(u, ks). (u, if u = t then keys' else ks)) (rs_expirations rs))\<rparr>))"

definition rs_discard :: "reassembler \<Rightarrow> push_outcome \<times> reassembler" where
  "rs_discard rs = (Discarded, rs\<lparr>rs_discarded := saturating_add (rs_discarded rs) 1\<rparr>)"

definition rs_file :: "frag_key \<Rightarrow> instant \<Rightarrow> reassembler \<Rightarrow> reassembler" where
  "rs_file k deadline rs =
     (case hm_get (rs_pending rs) k of
        Some p \<Rightarrow> rs
      | None \<Rightarrow> rs\<lparr>rs_expirations := bt_push deadline k (rs_expirations rs),
                   rs_pending := hm_insert k (pending_new (expiry_filed deadline)) (rs_pending rs)\<rparr>)"

definition rs_complete :: "frag_key \<Rightarrow> pending \<Rightarrow> reassembler \<Rightarrow> push_outcome \<times> reassembler" where
  "rs_complete k p rs =
     (let rs1 = forget_slot (ex_slot (pd_expiry p)) k (rs\<lparr>rs_pending := hm_remove k (rs_pending rs)\<rparr>);
          data = take (case pd_total p of None \<Rightarrow> 0 | Some tot \<Rightarrow> tot) (pd_data p)
      in case rebuild (pd_headers p) (pd_next_header_at p) (fk_protocol k) data of
           None \<Rightarrow> rs_discard rs1
         | Some packet \<Rightarrow> (Complete packet, rs1))"

definition rs_deliver :: "fragment \<Rightarrow> instant \<Rightarrow> reassembler \<Rightarrow> push_outcome \<times> reassembler" where
  "rs_deliver f now rs =
     (let k = fragment_key f;
          deadline = (case instant_add now (rs_timeout rs) of None \<Rightarrow> now | Some d \<Rightarrow> d);
          rs1 = rs_file k deadline rs
      in case hm_get (rs_pending rs1) k of
           None \<Rightarrow> (Discarded, rs1)
         | Some p0 \<Rightarrow>
             (let p = p0\<lparr>pd_expiry := expiry_refresh deadline (pd_expiry p0)\<rparr>
              in case accept_fragment f p of (verdict, p') \<Rightarrow>
                   (let rs2 = rs1\<lparr>rs_pending := hm_insert k p' (rs_pending rs1)\<rparr>
                    in case verdict of
                         VDiscarded \<Rightarrow> rs_discard rs2
                       | VPending \<Rightarrow> (Pending, rs2)
                       | VComplete \<Rightarrow> rs_complete k p' rs2)))"

definition push :: "fragment \<Rightarrow> instant \<Rightarrow> reassembler \<Rightarrow> push_outcome \<times> reassembler" where
  "push f now rs =
     (if \<not> fragment_usable f then rs_discard rs
      else if \<not> hm_contains (rs_pending rs) (fragment_key f)
              \<and> length (rs_pending rs) = rs_max_pending rs then
        (let rs1 = snd (rs_expire now rs)
         in if length (rs_pending rs1) = rs_max_pending rs1 then rs_discard rs1
            else rs_deliver f now rs1)
      else rs_deliver f now rs)"

section \<open>Invariant\<close>

definition rs_slots :: "reassembler \<Rightarrow> (instant \<times> frag_key) set" where
  "rs_slots rs = {(ex_slot (pd_expiry p), k) | k p. hm_get (rs_pending rs) k = Some p}"

definition reassembler_ok :: "reassembler \<Rightarrow> bool" where
  "reassembler_ok rs \<longleftrightarrow> hm_ok (rs_pending rs) \<and> bt_ok (rs_expirations rs)
     \<and> distinct (map snd (filed (rs_expirations rs)))
     \<and> set (filed (rs_expirations rs)) = rs_slots rs
     \<and> (\<forall>(t, ks) \<in> set (rs_expirations rs). ks \<noteq> [])
     \<and> length (rs_pending rs) \<le> rs_max_pending rs"

lemma rs_slots_iff [simp]:
  "(t, k) \<in> rs_slots rs \<longleftrightarrow> (\<exists>p. hm_get (rs_pending rs) k = Some p \<and> t = ex_slot (pd_expiry p))"
  by (auto simp: rs_slots_def)

lemma pairs_eqI: "(\<And>t k. (t, k) \<in> A \<longleftrightarrow> (t, k) \<in> B) \<Longrightarrow> A = B"
  by auto

text \<open>One slot per pending datagram: the index is exactly as large as the map.\<close>

lemma index_size:
  assumes "reassembler_ok rs"
  shows "length (filed (rs_expirations rs)) = length (rs_pending rs)"
proof -
  have "snd ` set (filed (rs_expirations rs)) = dom (hm_get (rs_pending rs))"
    using assms by (force simp: reassembler_ok_def rs_slots_def image_iff)
  then have "card (set (map snd (filed (rs_expirations rs)))) = length (rs_pending rs)"
    using assms hm_ok_card [of "rs_pending rs"] by (simp add: reassembler_ok_def)
  with assms show ?thesis by (simp only: distinct_card reassembler_ok_def length_map)
qed

lemma reassembler_ok_new: "0 < n \<Longrightarrow> reassembler_ok (reassembler_new timeout n)"
  by (simp add: reassembler_ok_def reassembler_new_def rs_slots_def bt_ok_def)

lemma drain_eq:
  "drain now m s =
     (dropWhile (\<lambda>(t, _). t \<le> now) m,
      fold (expire_key now) (map snd (filed (takeWhile (\<lambda>(t, _). t \<le> now) m))) s)"
  by (induction now m s rule: drain.induct) (simp_all add: comp_def)

text \<open>What draining distinct keys does to each entry.\<close>

definition after_expiry :: "instant \<Rightarrow> pending \<Rightarrow> pending option" where
  "after_expiry now p =
     (if ex_at (pd_expiry p) \<le> now then None
      else Some (p\<lparr>pd_expiry := expiry_filed (ex_at (pd_expiry p))\<rparr>))"

lemma refiled_eq: "snd (expiry_refiled e) = expiry_filed (ex_at e)"
  by (cases e) (simp add: expiry_refiled_def expiry_filed_def)

definition refiled_slot :: "instant \<Rightarrow> (frag_key, pending) hash_map \<Rightarrow> frag_key \<Rightarrow> (instant \<times> frag_key) list" where
  "refiled_slot now pend k =
     (case Option.bind (hm_get pend k) (after_expiry now) of
        None \<Rightarrow> [] | Some p \<Rightarrow> [(ex_slot (pd_expiry p), k)])"

lemma expire_key_step:
  assumes "expire_key now k (pend, n, rb) = (pend', n', rb')" and "hm_ok pend"
  shows "hm_ok pend'" and "hm_get pend' = (hm_get pend)(k := Option.bind (hm_get pend k) (after_expiry now))"
    and "rb' = rb @ refiled_slot now pend k" and "length pend' + n' = length pend + n"
proof -
  show "hm_ok pend'" "hm_get pend' = (hm_get pend)(k := Option.bind (hm_get pend k) (after_expiry now))"
    "rb' = rb @ refiled_slot now pend k"
    using assms
    by (auto simp: expire_key_def after_expiry_def refiled_slot_def refiled_eq expiry_filed_def
        split: option.splits if_splits)
  have "0 < length pend" if "hm_get pend k \<noteq> None" using that by (cases pend) auto
  with assms show "length pend' + n' = length pend + n"
    by (auto simp: expire_key_def length_hm_remove length_hm_insert split: option.splits if_splits)
qed

lemma fold_expire_key:
  assumes "fold (expire_key now) ks (pend, n, rb) = (pend', n', rb')" and "distinct ks" and "hm_ok pend"
  shows "hm_ok pend' \<and> length pend' + n' = length pend + n
     \<and> (\<forall>k. hm_get pend' k =
           (if k \<in> set ks then Option.bind (hm_get pend k) (after_expiry now) else hm_get pend k))
     \<and> rb' = rb @ concat (map (refiled_slot now pend) ks)"
  using assms
proof (induction ks arbitrary: pend n rb)
  case (Cons k ks)
  obtain pend1 n1 rb1 where one: "expire_key now k (pend, n, rb) = (pend1, n1, rb1)" by (metis prod_cases3)
  note step = expire_key_step [OF one Cons.prems(3)]
  have rest: "fold (expire_key now) ks (pend1, n1, rb1) = (pend', n', rb')"
    using Cons.prems(1) one by simp
  have "refiled_slot now pend1 k' = refiled_slot now pend k'" if "k' \<in> set ks" for k'
    using that Cons.prems(2) by (auto simp: refiled_slot_def step(2))
  then have "map (refiled_slot now pend1) ks = map (refiled_slot now pend) ks" by simp
  with Cons.IH [OF rest _ step(1)] Cons.prems(2) step(2-) show ?case by auto
qed simp

lemma fold_push_filed:
  "mset (filed (fold (\<lambda>(t, k). bt_push t k) rb m)) = mset (filed m) + mset rb"
  by (induction rb arbitrary: m) (auto simp: mset_filed_push)

lemma fold_push_ok: "bt_ok m \<Longrightarrow> bt_ok (fold (\<lambda>(t, k). bt_push t k) rb m)"
  by (induction rb arbitrary: m) auto

lemma fold_push_nonempty:
  "\<forall>(t, ks) \<in> set m. ks \<noteq> [] \<Longrightarrow> \<forall>(t, ks) \<in> set (fold (\<lambda>(t, k). bt_push t k) rb m). ks \<noteq> []"
proof (induction rb arbitrary: m)
  case (Cons x rb)
  obtain t k where x: "x = (t, k)" by (cases x)
  show ?case
    unfolding x fold_simps comp_def prod.case by (rule Cons.IH [OF nonempty_push [OF Cons.prems]])
qed simp

text \<open>The pending datagrams after an expiry.\<close>

lemma refiled_keys:
  "map snd (concat (map (refiled_slot now pend) ks)) =
     filter (\<lambda>k. Option.bind (hm_get pend k) (after_expiry now) \<noteq> None) ks"
  by (induction ks) (auto simp: refiled_slot_def split: option.splits)

lemma set_refiled_slot:
  "(t, c) \<in> set (refiled_slot now pend k) \<longleftrightarrow>
     c = k \<and> (\<exists>p. Option.bind (hm_get pend k) (after_expiry now) = Some p \<and> t = ex_slot (pd_expiry p))"
  by (cases "Option.bind (hm_get pend k) (after_expiry now)") (auto simp: refiled_slot_def)

lemma rs_expire_cases:
  assumes "reassembler_ok rs" and "rs_expire now rs = (n, rs')"
  obtains ks where "set ks = {k. \<exists>p. hm_get (rs_pending rs) k = Some p \<and> ex_slot (pd_expiry p) \<le> now}"
    "hm_ok (rs_pending rs')" "length (rs_pending rs') + n = length (rs_pending rs)"
    "\<And>k. hm_get (rs_pending rs') k =
       (if k \<in> set ks then Option.bind (hm_get (rs_pending rs) k) (after_expiry now)
        else hm_get (rs_pending rs) k)"
    "rs_expirations rs' = fold (\<lambda>(t, k). bt_push t k) (concat (map (refiled_slot now (rs_pending rs)) ks))
       (dropWhile (\<lambda>(t, _). t \<le> now) (rs_expirations rs))"
    "distinct ks" "rs_timeout rs' = rs_timeout rs" "rs_max_pending rs' = rs_max_pending rs"
    "rs_discarded rs' = rs_discarded rs"
proof -
  let ?P = "\<lambda>(t, _ :: frag_key list). t \<le> now" and ?m = "rs_expirations rs"
  define ks where "ks = map snd (filed (takeWhile ?P ?m))"
  have ok: "hm_ok (rs_pending rs)" "bt_ok ?m" "distinct (map snd (filed ?m))"
    "set (filed ?m) = rs_slots rs"
    using assms(1) by (auto simp: reassembler_ok_def)
  have "map snd (filed ?m) = ks @ map snd (filed (dropWhile ?P ?m))"
    unfolding ks_def by (simp only: map_append [symmetric] filed_append [symmetric] takeWhile_dropWhile_id)
  with ok(3) have dist: "distinct ks" by simp
  have "set ks = snd ` {(t, k) \<in> set (filed ?m). t \<le> now}"
    unfolding ks_def set_map filed_due(1) [OF ok(2)] ..
  also have "\<dots> = {k. \<exists>p. hm_get (rs_pending rs) k = Some p \<and> ex_slot (pd_expiry p) \<le> now}"
    unfolding ok(4) rs_slots_def by force
  finally have set: "set ks = {k. \<exists>p. hm_get (rs_pending rs) k = Some p \<and> ex_slot (pd_expiry p) \<le> now}" .
  obtain pend n' rb where f: "fold (expire_key now) ks (rs_pending rs, 0, []) = (pend, n', rb)"
    by (metis prod_cases3)
  then have "n = n'" "rs' = rs\<lparr>rs_pending := pend, rs_expirations :=
      fold (\<lambda>(t, k). bt_push t k) rb (dropWhile ?P ?m)\<rparr>"
    using assms(2) by (auto simp: rs_expire_def drain_eq ks_def)
  with fold_expire_key [OF f dist ok(1)] set dist show thesis
    by (intro that [of ks]) simp_all
qed

lemma rs_expire_pending:
  assumes "reassembler_ok rs" and "rs_expire now rs = (n, rs')"
  shows "hm_get (rs_pending rs') k =
     (case hm_get (rs_pending rs) k of
        None \<Rightarrow> None
      | Some p \<Rightarrow> if ex_slot (pd_expiry p) \<le> now then after_expiry now p else Some p)"
  using assms by (rule rs_expire_cases) (simp split: option.splits)

lemma reassembler_ok_expire:
  assumes "reassembler_ok rs" and "rs_expire now rs = (n, rs')"
  shows "reassembler_ok rs'"
  using assms
proof (rule rs_expire_cases)
  fix ks
  let ?rest = "dropWhile (\<lambda>(t, _). t \<le> now) (rs_expirations rs)"
  let ?rb = "concat (map (refiled_slot now (rs_pending rs)) ks)"
  assume set: "set ks = {k. \<exists>p. hm_get (rs_pending rs) k = Some p \<and> ex_slot (pd_expiry p) \<le> now}"
    and pend: "hm_ok (rs_pending rs')" "length (rs_pending rs') + n = length (rs_pending rs)"
      "\<And>k. hm_get (rs_pending rs') k =
         (if k \<in> set ks then Option.bind (hm_get (rs_pending rs) k) (after_expiry now)
          else hm_get (rs_pending rs) k)"
    and exps: "rs_expirations rs' = fold (\<lambda>(t, k). bt_push t k) ?rb ?rest"
    and dist: "distinct ks" and max: "rs_max_pending rs' = rs_max_pending rs"
  note ok = assms(1) [unfolded reassembler_ok_def]
  have mset: "mset (filed (rs_expirations rs')) = mset (filed ?rest @ ?rb)"
    unfolding exps fold_push_filed by simp
  then have filed': "set (filed (rs_expirations rs')) = set (filed ?rest) \<union> set ?rb"
    by (metis set_append set_mset_mset)
  have rb: "(t, k) \<in> set ?rb \<longleftrightarrow>
      k \<in> set ks \<and> (\<exists>p. hm_get (rs_pending rs') k = Some p \<and> t = ex_slot (pd_expiry p))" for t k
    by (auto simp: set_refiled_slot pend(3))
  have rest: "(t, k) \<in> set (filed ?rest) \<longleftrightarrow>
      k \<notin> set ks \<and> (\<exists>p. hm_get (rs_pending rs') k = Some p \<and> t = ex_slot (pd_expiry p))" for t k
    using ok filed_due(2) [of "rs_expirations rs" now] by (auto simp: rs_slots_def pend(3) set not_le)
  have slots: "set (filed (rs_expirations rs')) = rs_slots rs'"
    unfolding filed' rs_slots_def using rb rest by (auto simp del: set_concat)
  have "map snd (filed (rs_expirations rs)) =
      map snd (filed (takeWhile (\<lambda>(t, _). t \<le> now) (rs_expirations rs))) @ map snd (filed ?rest)"
    by (simp only: map_append [symmetric] filed_append [symmetric] takeWhile_dropWhile_id)
  then have "distinct (map snd (filed ?rest))" using ok by simp
  moreover have "distinct (map snd ?rb)" unfolding refiled_keys using dist by simp
  moreover have "snd ` set (filed ?rest) \<inter> snd ` set ?rb = {}"
    using rb rest by (auto simp del: set_concat)
  ultimately have "distinct (map snd (filed ?rest @ ?rb))" by simp
  moreover have "mset (map snd (filed (rs_expirations rs'))) = mset (map snd (filed ?rest @ ?rb))"
    using mset by (simp only: mset_map)
  ultimately have keys: "distinct (map snd (filed (rs_expirations rs')))"
    by (metis mset_eq_imp_distinct_iff)
  have "\<forall>(t, ks) \<in> set ?rest. ks \<noteq> []" using ok by (auto dest: set_dropWhileD)
  then have "\<forall>(t, ks) \<in> set (rs_expirations rs'). ks \<noteq> []"
    unfolding exps by (rule fold_push_nonempty)
  moreover have "bt_ok (rs_expirations rs')" unfolding exps using ok by (simp add: fold_push_ok)
  ultimately show ?thesis
    using keys slots pend max ok by (simp add: reassembler_ok_def)
qed

text \<open>Unfiling removes exactly the key's slot.\<close>

lemma bt_split:
  assumes "bt_ok m" and "map_of m t = Some ks"
  obtains m1 m2 where "m = m1 @ (t, ks) # m2" "t \<notin> fst ` set m1" "t \<notin> fst ` set m2"
proof -
  obtain m1 m2 where m: "m = m1 @ (t, ks) # m2"
    using map_of_SomeD [OF assms(2)] by (meson split_list)
  have "t \<notin> fst ` set m1 \<and> t \<notin> fst ` set m2"
    using assms(1) unfolding m bt_ok_def by (fastforce simp: sorted_wrt_append)
  with m that show thesis by blast
qed

lemma swap_remove_key:
  assumes "k \<in> set ks"
  shows "mset (swap_remove (length (takeWhile (\<lambda>c. c \<noteq> k) ks)) ks) = mset ks - {#k#}"
proof -
  let ?i = "length (takeWhile (\<lambda>c. c \<noteq> k) ks)"
  have "?i < length ks \<and> ks ! ?i = k" using assms by (induction ks) auto
  then show ?thesis by (simp add: mset_swap_remove)
qed

lemma map_bucket_other: "t \<notin> fst ` set m \<Longrightarrow> map (\<lambda>(u, ks). (u, if u = t then v else ks)) m = m"
  by (induction m) auto

lemma forget_slot_index:
  assumes "bt_ok (rs_expirations rs)" and "\<forall>(t, ks) \<in> set (rs_expirations rs). ks \<noteq> []"
    and "(t, k) \<in> set (filed (rs_expirations rs))"
  defines "rs' \<equiv> forget_slot t k rs"
  shows "bt_ok (rs_expirations rs') \<and> (\<forall>(t, ks) \<in> set (rs_expirations rs'). ks \<noteq> [])
     \<and> add_mset (t, k) (mset (filed (rs_expirations rs'))) = mset (filed (rs_expirations rs))"
proof -
  let ?m = "rs_expirations rs"
  obtain ks where ks: "(t, ks) \<in> set ?m" "k \<in> set ks" using assms(3) by (auto simp: set_filed)
  have "distinct (map fst ?m)" using assms(1) by (simp add: bt_ok_def strict_sorted_iff)
  then have get: "map_of ?m t = Some ks" using ks(1) by simp
  obtain m1 m2 where m: "?m = m1 @ (t, ks) # m2" "t \<notin> fst ` set m1" "t \<notin> fst ` set m2"
    using assms(1) get by (rule bt_split)
  define ks' where "ks' = swap_remove (length (takeWhile (\<lambda>c. c \<noteq> k) ks)) ks"
  have ks': "add_mset k (mset ks') = mset ks"
    using swap_remove_key [OF ks(2)] ks(2) by (simp add: ks'_def)
  have "AList.delete t m1 = m1" "AList.delete t m2 = m2"
    using m(2,3) by (simp_all add: delete_idem)
  then have del: "AList.delete t (m1 @ (t, ks) # m2) = m1 @ m2" by (simp add: AList.delete_eq)
  have m': "rs_expirations rs' = m1 @ (if ks' = [] then [] else [(t, ks')]) @ m2"
    unfolding rs'_def forget_slot_def get option.case Let_def using ks(2) m(2,3)
    by (simp add: ks'_def [symmetric] m(1) map_bucket_other del)
  have "image_mset (Pair t) (add_mset k (mset ks')) = image_mset (Pair t) (mset ks)" using ks' by simp
  then have "add_mset (t, k) (mset (filed (rs_expirations rs'))) = mset (filed ?m)"
    unfolding m' m(1) by (cases "ks' = []") (auto simp: ac_simps)
  moreover have "bt_ok (rs_expirations rs')"
    using assms(1) unfolding m' m(1) bt_ok_def by (auto simp: sorted_wrt_append)
  moreover have "\<forall>(t, ks) \<in> set (rs_expirations rs'). ks \<noteq> []"
    using assms(2) unfolding m' m(1) by auto
  ultimately show ?thesis by blast
qed

lemma rs_slots_update:
  assumes "hm_get (rs_pending rs) k = Some p" and "ex_slot (pd_expiry p') = ex_slot (pd_expiry p)"
  shows "rs_slots (rs\<lparr>rs_pending := hm_insert k p' (rs_pending rs)\<rparr>) = rs_slots rs"
  using assms by (intro pairs_eqI) auto

lemma reassembler_ok_update:
  assumes "reassembler_ok rs" and "hm_get (rs_pending rs) k = Some p"
    and "ex_slot (pd_expiry p') = ex_slot (pd_expiry p)"
  shows "reassembler_ok (rs\<lparr>rs_pending := hm_insert k p' (rs_pending rs)\<rparr>)"
  using assms rs_slots_update [OF assms(2,3)] by (simp add: reassembler_ok_def length_hm_insert)

lemma reassembler_ok_discarded [simp]:
  "reassembler_ok (rs\<lparr>rs_discarded := n\<rparr>) \<longleftrightarrow> reassembler_ok rs"
  by (simp add: reassembler_ok_def rs_slots_def)

lemma reassembler_ok_file:
  assumes "reassembler_ok rs" and "hm_get (rs_pending rs) k = None \<Longrightarrow> length (rs_pending rs) < rs_max_pending rs"
  shows "reassembler_ok (rs_file k d rs)"
proof (cases "hm_get (rs_pending rs) k")
  case None
  let ?rs' = "rs_file k d rs"
  have mset: "mset (filed (rs_expirations ?rs')) = mset ((d, k) # filed (rs_expirations rs))"
    using None by (simp add: rs_file_def mset_filed_push)
  have slots: "rs_slots ?rs' = insert (d, k) (rs_slots rs)"
    using None by (intro pairs_eqI) (auto simp: rs_file_def pending_new_def expiry_filed_def)
  have "set (filed (rs_expirations ?rs')) = insert (d, k) (set (filed (rs_expirations rs)))"
    using mset by (metis list.simps(15) set_mset_mset)
  moreover have "k \<notin> snd ` set (filed (rs_expirations rs))"
    using assms(1) None by (auto simp: reassembler_ok_def)
  then have "distinct (map snd ((d, k) # filed (rs_expirations rs)))"
    using assms(1) by (simp add: reassembler_ok_def)
  then have "distinct (map snd (filed (rs_expirations ?rs')))"
    using mset by (metis mset_eq_imp_distinct_iff mset_map)
  ultimately show ?thesis
    using assms None slots nonempty_push [of "rs_expirations rs" d k]
    by (simp add: reassembler_ok_def rs_file_def length_hm_insert)
qed (use assms(1) in \<open>simp add: rs_file_def\<close>)

lemma reassembler_ok_forget:
  assumes "reassembler_ok rs" and "hm_get (rs_pending rs) k = Some p"
  shows "reassembler_ok (forget_slot (ex_slot (pd_expiry p)) k
     (rs\<lparr>rs_pending := hm_remove k (rs_pending rs)\<rparr>))"
proof -
  let ?t = "ex_slot (pd_expiry p)" and ?rs1 = "rs\<lparr>rs_pending := hm_remove k (rs_pending rs)\<rparr>"
  let ?rs' = "forget_slot ?t k ?rs1"
  note ok = assms(1) [unfolded reassembler_ok_def]
  have slot: "(?t, k) \<in> set (filed (rs_expirations ?rs1))"
    using ok assms(2) by simp
  have idx: "bt_ok (rs_expirations ?rs')" "\<forall>(t, ks) \<in> set (rs_expirations ?rs'). ks \<noteq> []"
    "add_mset (?t, k) (mset (filed (rs_expirations ?rs'))) = mset (filed (rs_expirations rs))"
    using forget_slot_index [OF _ _ slot] ok by auto
  have frame: "rs_pending ?rs' = hm_remove k (rs_pending rs)" "rs_max_pending ?rs' = rs_max_pending rs"
    by (simp_all add: forget_slot_def Let_def split: option.split)
  have mset: "mset ((?t, k) # filed (rs_expirations ?rs')) = mset (filed (rs_expirations rs))"
    using idx(3) by simp
  then have "mset (map snd ((?t, k) # filed (rs_expirations ?rs'))) = mset (map snd (filed (rs_expirations rs)))"
    by (simp only: mset_map)
  then have keys: "distinct (map snd ((?t, k) # filed (rs_expirations ?rs')))"
    using ok by (metis mset_eq_imp_distinct_iff)
  have "insert (?t, k) (set (filed (rs_expirations ?rs'))) = rs_slots rs"
    using mset ok by (metis list.simps(15) set_mset_mset)
  moreover have "(t, k) \<notin> set (filed (rs_expirations ?rs'))" for t using keys by (force simp: image_iff)
  ultimately have "set (filed (rs_expirations ?rs')) = rs_slots rs - {(t, c). c = k}" by blast
  also have "\<dots> = rs_slots ?rs'"
    by (intro pairs_eqI) (auto simp: frame)
  finally show ?thesis
    using idx keys frame ok assms(2) by (auto simp: reassembler_ok_def length_hm_remove)
qed

lemma accept_expiry: "pd_expiry (snd (accept_fragment f p)) = pd_expiry p"
  by (simp add: accept_fragment_def Let_def store_fragment_fields)

lemma reassembler_ok_deliver:
  assumes "reassembler_ok rs"
    and "hm_get (rs_pending rs) (fragment_key f) = None \<Longrightarrow> length (rs_pending rs) < rs_max_pending rs"
  shows "reassembler_ok (snd (rs_deliver f now rs))"
proof -
  let ?k = "fragment_key f"
  define d where "d = (case instant_add now (rs_timeout rs) of None \<Rightarrow> now | Some d \<Rightarrow> d)"
  define rs1 where "rs1 = rs_file ?k d rs"
  have ok1: "reassembler_ok rs1" unfolding rs1_def by (rule reassembler_ok_file [OF assms])
  obtain p0 where p0: "hm_get (rs_pending rs1) ?k = Some p0"
    by (cases "hm_get (rs_pending rs) ?k") (auto simp: rs1_def rs_file_def)
  obtain v p' where v: "accept_fragment f (p0\<lparr>pd_expiry := expiry_refresh d (pd_expiry p0)\<rparr>) = (v, p')"
    by (cases "accept_fragment f (p0\<lparr>pd_expiry := expiry_refresh d (pd_expiry p0)\<rparr>)")
  let ?rs2 = "rs1\<lparr>rs_pending := hm_insert ?k p' (rs_pending rs1)\<rparr>"
  have "ex_slot (pd_expiry p') = ex_slot (pd_expiry p0)"
    using accept_expiry [of f "p0\<lparr>pd_expiry := expiry_refresh d (pd_expiry p0)\<rparr>"] v
    by (simp add: expiry_refresh_def)
  then have ok2: "reassembler_ok ?rs2" by (rule reassembler_ok_update [OF ok1 p0])
  have "reassembler_ok (snd (rs_complete ?k p' ?rs2))"
    using reassembler_ok_forget [OF ok2, of ?k p']
    by (simp add: rs_complete_def Let_def rs_discard_def split: option.split)
  with ok2 p0 v show ?thesis
    by (simp add: rs_deliver_def d_def [symmetric] rs1_def [symmetric] rs_discard_def Let_def split: verdict.split)
qed

lemma reassembler_ok_push:
  assumes "reassembler_ok rs"
  shows "reassembler_ok (snd (push f now rs))"
proof -
  obtain n rs1 where rs1: "rs_expire now rs = (n, rs1)" by (cases "rs_expire now rs")
  have ok1: "reassembler_ok rs1" by (rule reassembler_ok_expire [OF assms rs1])
  show ?thesis
    using assms ok1 reassembler_ok_deliver [of rs f now] reassembler_ok_deliver [of rs1 f now]
    by (auto simp: push_def rs1 rs_discard_def Let_def hm_contains_def reassembler_ok_def [of rs]
        reassembler_ok_def [of rs1] simp del: not_None_eq)
qed

section \<open>Reachable states\<close>

inductive rs_step :: "reassembler \<Rightarrow> reassembler \<Rightarrow> bool" where
  Push: "rs_step rs (snd (push f now rs))"
| Expire: "rs_step rs (snd (rs_expire now rs))"

lemma reassembler_ok_step: "rs_step rs rs' \<Longrightarrow> reassembler_ok rs \<Longrightarrow> reassembler_ok rs'"
  by (induction rule: rs_step.induct)
    (auto intro: reassembler_ok_push reassembler_ok_expire simp: prod_eq_iff)

definition rs_config :: "reassembler \<Rightarrow> duration \<times> nat" where
  "rs_config rs = (rs_timeout rs, rs_max_pending rs)"

lemma rs_config_simps [simp]:
  "rs_config (rs\<lparr>rs_pending := a\<rparr>) = rs_config rs"
  "rs_config (rs\<lparr>rs_expirations := b\<rparr>) = rs_config rs"
  "rs_config (rs\<lparr>rs_discarded := c\<rparr>) = rs_config rs"
  "rs_config (snd (rs_discard rs)) = rs_config rs"
  "rs_config (forget_slot t k rs) = rs_config rs"
  "rs_config (rs_file k t rs) = rs_config rs"
  "rs_config (snd (rs_expire now rs)) = rs_config rs"
  by (simp_all add: rs_config_def rs_discard_def forget_slot_def rs_file_def rs_expire_def Let_def
      split: option.split prod.split)

lemma rs_pending_forget [simp]: "rs_pending (forget_slot t k rs) = rs_pending rs"
  by (simp add: forget_slot_def Let_def split: option.split)

lemma rs_config_deliver [simp]: "rs_config (snd (rs_deliver f now rs)) = rs_config rs"
  by (simp add: rs_deliver_def rs_complete_def Let_def split: option.split prod.split verdict.split)

lemma rs_config_push [simp]: "rs_config (snd (push f now rs)) = rs_config rs"
  by (simp add: push_def Let_def)

lemma config_step: "rs_step rs rs' \<Longrightarrow> rs_config rs' = rs_config rs"
  by (induction rule: rs_step.induct) simp_all

text \<open>
  C23. In every state the reassembler can reach by pushing and expiring at whatever instants, at most
  \<open>max_pending\<close> datagrams are pending, and the expiry index files exactly the pending
  datagrams, each once and under its own slot, in order: it neither leaks a slot nor loses one.
\<close>

theorem reassembler_index_exact:
  assumes "rs_step\<^sup>*\<^sup>* (reassembler_new timeout n) rs" and "0 < n"
  shows "length (rs_pending rs) \<le> n
     \<and> length (filed (rs_expirations rs)) = length (rs_pending rs)
     \<and> sorted_wrt (<) (map fst (rs_expirations rs))
     \<and> (\<forall>t k. (t, k) \<in> set (filed (rs_expirations rs)) \<longleftrightarrow>
          (\<exists>p. hm_get (rs_pending rs) k = Some p \<and> ex_slot (pd_expiry p) = t))"
proof -
  have "reassembler_ok rs \<and> rs_config rs = (timeout, n)"
    using assms(1)
  proof (induction rule: rtranclp_induct)
    case base
    then show ?case
      using reassembler_ok_new [OF assms(2), of timeout] by (simp add: rs_config_def reassembler_new_def)
  next
    case (step y z)
    then show ?case using reassembler_ok_step config_step by auto
  qed
  then show ?thesis
    using index_size [of rs] by (auto simp: reassembler_ok_def rs_config_def bt_ok_def)
qed

section \<open>Expiry\<close>

definition rs_deadline :: "reassembler \<Rightarrow> frag_key \<Rightarrow> instant option" where
  "rs_deadline rs k = map_option (\<lambda>p. ex_at (pd_expiry p)) (hm_get (rs_pending rs) k)"

text \<open>The slot a datagram is filed under never lies past its deadline.\<close>

definition slots_early :: "reassembler \<Rightarrow> bool" where
  "slots_early rs \<longleftrightarrow>
     (\<forall>k p. hm_get (rs_pending rs) k = Some p \<longrightarrow> ex_slot (pd_expiry p) \<le> ex_at (pd_expiry p))"

interpretation rs: exact_expiry rs_deadline "\<lambda>now rs. snd (rs_expire now rs)"
    "\<lambda>rs. reassembler_ok rs \<and> slots_early rs"
proof (unfold_locales, goal_cases)
  case (1 rs now)
  obtain n rs' where rs': "rs_expire now rs = (n, rs')" by (cases "rs_expire now rs")
  with 1 show ?case
    using reassembler_ok_expire [OF _ rs'] rs_expire_pending [OF _ rs']
    by (auto simp: slots_early_def after_expiry_def expiry_filed_def split: option.splits if_splits)
next
  case (2 rs k d now)
  obtain n rs' where rs': "rs_expire now rs = (n, rs')" by (cases "rs_expire now rs")
  with 2 show ?case
    using rs_expire_pending [OF _ rs', of k]
    by (auto simp: rs_deadline_def after_expiry_def expiry_filed_def split: option.splits)
next
  case (3 rs now k d)
  obtain n rs' where rs': "rs_expire now rs = (n, rs')" by (cases "rs_expire now rs")
  with 3 show ?case
    using rs_expire_pending [OF _ rs', of k]
    by (auto simp: rs_deadline_def after_expiry_def expiry_filed_def split: option.splits if_splits)
next
  case (4 rs now k d)
  obtain n rs' where rs': "rs_expire now rs = (n, rs')" by (cases "rs_expire now rs")
  with 4 show ?case
    using rs_expire_pending [OF _ rs', of k]
    by (auto simp: rs_deadline_def slots_early_def after_expiry_def expiry_filed_def
        split: option.splits if_splits) (meson not_le order_trans)
qed

text \<open>Runs on a monotonic clock that does not overflow: the state carries the last instant seen.\<close>

inductive rs_timed :: "instant \<times> reassembler \<Rightarrow> instant \<times> reassembler \<Rightarrow> bool" where
  TimedPush: "t \<le> now \<Longrightarrow> now + rs_timeout rs \<le> instant_max \<Longrightarrow> rs_timed (t, rs) (now, snd (push f now rs))"
| TimedExpire: "t \<le> now \<Longrightarrow> rs_timed (t, rs) (now, snd (rs_expire now rs))"

definition timely :: "instant \<times> reassembler \<Rightarrow> bool" where
  "timely s \<longleftrightarrow>
     (case s of (t, rs) \<Rightarrow> reassembler_ok rs
        \<and> (\<forall>k p. hm_get (rs_pending rs) k = Some p \<longrightarrow>
             ex_slot (pd_expiry p) \<le> ex_at (pd_expiry p) \<and> ex_at (pd_expiry p) \<le> t + rs_timeout rs))"

lemma deliver_pending:
  assumes "hm_get (rs_pending (snd (rs_deliver f now rs))) c = Some p'"
    and "now + rs_timeout rs \<le> instant_max"
  shows "hm_get (rs_pending rs) c = Some p'
     \<or> ex_at (pd_expiry p') = now + rs_timeout rs
       \<and> (ex_slot (pd_expiry p') = now + rs_timeout rs
          \<or> (\<exists>p. hm_get (rs_pending rs) c = Some p \<and> ex_slot (pd_expiry p) = ex_slot (pd_expiry p')))"
proof -
  let ?k = "fragment_key f" and ?d = "now + rs_timeout rs"
  let ?rs1 = "rs_file ?k ?d rs"
  have d: "(case instant_add now (rs_timeout rs) of None \<Rightarrow> now | Some d \<Rightarrow> d) = ?d"
    using assms(2) by (simp add: instant_add_def)
  obtain p0 where p0: "hm_get (rs_pending ?rs1) ?k = Some p0"
    by (cases "hm_get (rs_pending rs) ?k") (auto simp: rs_file_def)
  then have e0: "ex_slot (pd_expiry p0) = ?d \<or> hm_get (rs_pending rs) ?k = Some p0"
    by (auto simp: rs_file_def pending_new_def expiry_filed_def split: option.splits)
  have other: "hm_get (rs_pending ?rs1) c = hm_get (rs_pending rs) c" if "c \<noteq> ?k"
    using that by (simp add: rs_file_def split: option.split)
  let ?p = "p0\<lparr>pd_expiry := expiry_refresh ?d (pd_expiry p0)\<rparr>"
  obtain v q where v: "accept_fragment f ?p = (v, q)" by (cases "accept_fragment f ?p")
  then have q: "pd_expiry q = (pd_expiry p0)\<lparr>ex_at := ?d\<rparr>"
    using accept_expiry [of f ?p] by (simp add: expiry_refresh_def)
  have "rs_pending (snd (rs_deliver f now rs)) \<in>
      {hm_insert ?k q (rs_pending ?rs1), hm_remove ?k (hm_insert ?k q (rs_pending ?rs1))}"
    unfolding rs_deliver_def Let_def d p0 option.case v prod.case
    by (auto simp: rs_discard_def rs_complete_def forget_slot_def Let_def split: verdict.split option.split)
  with assms(1) other q e0 show ?thesis
    by (cases "c = ?k") (auto split: if_splits)
qed

lemma timely_expire:
  assumes "timely (t, rs)" and "t \<le> now"
  shows "timely (now, snd (rs_expire now rs))"
proof -
  obtain n rs' where rs': "rs_expire now rs = (n, rs')" by (cases "rs_expire now rs")
  have ok: "reassembler_ok rs" using assms(1) by (simp add: timely_def)
  have "rs_timeout rs' = rs_timeout rs"
    using rs_config_simps(7) [of now rs] rs' by (simp add: rs_config_def)
  then show ?thesis
    using assms rs' reassembler_ok_expire [OF ok rs'] rs_expire_pending [OF ok rs']
    by (fastforce simp: timely_def after_expiry_def expiry_filed_def split: option.splits if_splits)
qed

lemma timely_deliver:
  assumes "timely (t, rs)" and "t \<le> now" and "now + rs_timeout rs \<le> instant_max"
    and "hm_get (rs_pending rs) (fragment_key f) = None \<Longrightarrow> length (rs_pending rs) < rs_max_pending rs"
  shows "timely (now, snd (rs_deliver f now rs))"
proof -
  have "rs_timeout (snd (rs_deliver f now rs)) = rs_timeout rs"
    using rs_config_deliver [of f now rs] by (simp add: rs_config_def)
  moreover have "reassembler_ok (snd (rs_deliver f now rs))"
    using assms by (intro reassembler_ok_deliver) (auto simp: timely_def)
  moreover have "ex_slot (pd_expiry p) \<le> ex_at (pd_expiry p) \<and> ex_at (pd_expiry p) \<le> now + rs_timeout rs"
    if "hm_get (rs_pending (snd (rs_deliver f now rs))) k = Some p" for k p
    using deliver_pending [OF that assms(3)] assms(1,2) by (fastforce simp: timely_def)
  ultimately show ?thesis by (simp add: timely_def)
qed

lemma timely_discard: "timely (t, rs) \<Longrightarrow> t \<le> now \<Longrightarrow> timely (now, snd (rs_discard rs))"
  by (fastforce simp: timely_def rs_discard_def)

lemma timely_step: "rs_timed s s' \<Longrightarrow> timely s \<Longrightarrow> timely s'"
proof (induction rule: rs_timed.induct)
  case (TimedPush t now rs f)
  let ?rs1 = "snd (rs_expire now rs)"
  have t1: "timely (now, ?rs1)" by (rule timely_expire [OF TimedPush.prems TimedPush.hyps(1)])
  have "rs_timeout ?rs1 = rs_timeout rs"
    using rs_config_simps(7) [of now rs] by (simp add: rs_config_def)
  then have "timely (now, snd (rs_deliver f now ?rs1))" if "length (rs_pending ?rs1) \<noteq> rs_max_pending ?rs1"
    using that t1 TimedPush.hyps(2) by (intro timely_deliver [OF t1]) (auto simp: timely_def reassembler_ok_def)
  moreover have "timely (now, snd (rs_deliver f now rs))"
    if "hm_contains (rs_pending rs) (fragment_key f) \<or> length (rs_pending rs) \<noteq> rs_max_pending rs"
    using that TimedPush by (intro timely_deliver [OF TimedPush.prems])
      (auto simp: timely_def reassembler_ok_def hm_contains_def)
  ultimately show ?case
    using t1 TimedPush timely_discard [of now ?rs1 now] timely_discard [of t rs now]
    by (simp add: push_def Let_def)
next
  case (TimedExpire t now rs)
  then show ?case by (simp add: timely_expire)
qed

lemma next_deadline_early:
  assumes "reassembler_ok rs" and "slots_early rs"
  shows "case rs_next_deadline rs of
      None \<Rightarrow> rs_pending rs = []
    | Some t \<Rightarrow> \<forall>k d. rs_deadline rs k = Some d \<longrightarrow> t \<le> d"
proof (cases "rs_expirations rs")
  case Nil
  with index_size [OF assms(1)] show ?thesis by (simp add: rs_next_deadline_def)
next
  case (Cons b m)
  obtain t ks where b: "b = (t, ks)" by (cases b)
  have "t \<le> u" if "(u, k) \<in> set (filed (rs_expirations rs))" for u k
    using that assms(1) Cons b
    by (auto simp: reassembler_ok_def bt_ok_def set_filed dest: less_imp_le)
  moreover have "(ex_slot (pd_expiry p), k) \<in> set (filed (rs_expirations rs))"
    if "hm_get (rs_pending rs) k = Some p" for k p
    using that assms(1) by (simp add: reassembler_ok_def)
  ultimately have "t \<le> ex_at (pd_expiry p)" if "hm_get (rs_pending rs) k = Some p" for k p
    using that assms(2) unfolding slots_early_def by (meson order_trans)
  then show ?thesis using Cons b by (auto simp: rs_next_deadline_def rs_deadline_def)
qed

text \<open>
  C24. On a monotonic clock, an expiry pass removes exactly the datagrams whose deadline has
  arrived, whatever refreshes their slots have missed, and the instant the reassembler asks to be
  woken at is never later than any deadline; it asks for none only when nothing is pending.
\<close>

theorem reassembler_expiry_exact:
  assumes "rs_timed\<^sup>*\<^sup>* (t0, reassembler_new timeout n) (t, rs)" and "0 < n"
  shows "(rs_deadline (snd (rs_expire now rs)) k = Some d \<longleftrightarrow> rs_deadline rs k = Some d \<and> now < d)
     \<and> (case rs_next_deadline rs of
          None \<Rightarrow> rs_pending rs = []
        | Some due \<Rightarrow> \<forall>k d. rs_deadline rs k = Some d \<longrightarrow> due \<le> d)"
proof -
  have "timely (t0, reassembler_new timeout n)"
    using reassembler_ok_new [OF assms(2), of timeout] by (simp add: timely_def reassembler_new_def)
  with assms(1) have "timely (t, rs)"
    by (induction rule: rtranclp_induct) (auto intro: timely_step)
  then have "reassembler_ok rs" "slots_early rs" by (auto simp: timely_def slots_early_def)
  then show ?thesis
    using rs.survives_iff [of rs "[now]" k d] next_deadline_early [of rs] by simp
qed

section \<open>Reassembly in any order\<close>

text \<open>Pushing the fragments of a list one after the other, each at its own instant.\<close>

fun push_all :: "(fragment \<times> instant) list \<Rightarrow> reassembler \<Rightarrow> push_outcome list \<times> reassembler" where
  "push_all [] rs = ([], rs)"
| "push_all ((f, now) # fs) rs =
     (let (out, rs1) = push f now rs; (outs, rs2) = push_all fs rs1 in (out # outs, rs2))"

text \<open>One push for a key that has an entry, or room for one.\<close>

lemma push_known:
  assumes "fragment_usable f" and "reassembler_ok rs"
    and "case hm_get (rs_pending rs) (fragment_key f) of
           None \<Rightarrow> length (rs_pending rs) < rs_max_pending rs \<and> q = pending_new e | Some p \<Rightarrow> q = p"
  obtains e' p' v where "accept_fragment f (q\<lparr>pd_expiry := e'\<rparr>) = (v, p')"
    "v = VDiscarded \<Longrightarrow> fst (push f now rs) = Discarded"
    "v = VPending \<Longrightarrow> fst (push f now rs) = Pending"
    "v \<noteq> VComplete \<Longrightarrow> hm_get (rs_pending (snd (push f now rs))) = (hm_get (rs_pending rs))(fragment_key f \<mapsto> p')"
    "v = VComplete \<Longrightarrow> hm_get (rs_pending (snd (push f now rs))) = (hm_get (rs_pending rs))(fragment_key f := None)
       \<and> fst (push f now rs) =
         (case rebuild (pd_headers p') (pd_next_header_at p') (fr_protocol f)
                 (take (case pd_total p' of None \<Rightarrow> 0 | Some t \<Rightarrow> t) (pd_data p')) of
            None \<Rightarrow> Discarded | Some packet \<Rightarrow> Complete packet)"
proof -
  let ?k = "fragment_key f"
  define d where "d = (case instant_add now (rs_timeout rs) of None \<Rightarrow> now | Some d \<Rightarrow> d)"
  let ?rs1 = "rs_file ?k d rs"
  have push: "push f now rs = rs_deliver f now rs"
    using assms by (auto simp: push_def hm_contains_def split: option.splits)
  obtain p0 where p0: "hm_get (rs_pending ?rs1) ?k = Some p0"
    by (cases "hm_get (rs_pending rs) ?k") (auto simp: rs_file_def)
  define e' where "e' = expiry_refresh d (pd_expiry p0)"
  have q: "p0\<lparr>pd_expiry := e'\<rparr> = q\<lparr>pd_expiry := e'\<rparr>"
    using assms(3) p0 by (auto simp: rs_file_def pending_new_def split: option.splits)
  have other: "(hm_get (rs_pending ?rs1))(?k := x) = (hm_get (rs_pending rs))(?k := x)" for x
    by (auto simp: rs_file_def split: option.split)
  obtain v p' where v: "accept_fragment f (q\<lparr>pd_expiry := e'\<rparr>) = (v, p')"
    by (cases "accept_fragment f (q\<lparr>pd_expiry := e'\<rparr>)")
  let ?rs2 = "?rs1\<lparr>rs_pending := hm_insert ?k p' (rs_pending ?rs1)\<rparr>"
  have deliver: "push f now rs = (case v of VDiscarded \<Rightarrow> rs_discard ?rs2 | VPending \<Rightarrow> (Pending, ?rs2)
      | VComplete \<Rightarrow> rs_complete ?k p' ?rs2)"
    unfolding push rs_deliver_def Let_def d_def [symmetric] p0 option.case e'_def [symmetric] q v prod.case ..
  show thesis
    by (rule that [OF v])
      (auto simp: deliver rs_discard_def rs_complete_def Let_def other split: verdict.split option.split)
qed

lemma assembled_expiry [simp]: "assembled gs (p\<lparr>pd_expiry := e\<rparr>) \<longleftrightarrow> assembled gs p"
  by (simp add: assembled_def holds_def)

text \<open>The entry of a key that has taken in the fragments \<open>gs\<close>, or the room for it.\<close>

definition gathered :: "fragment list \<Rightarrow> frag_key \<Rightarrow> reassembler \<Rightarrow> bool" where
  "gathered gs k rs =
     (case hm_get (rs_pending rs) k of
        None \<Rightarrow> gs = [] \<and> length (rs_pending rs) < rs_max_pending rs
      | Some p \<Rightarrow> assembled gs p \<and> \<not> pd_poisoned p)"

lemma fr_blocks_nonempty: "fragment_ok f \<Longrightarrow> fr_blocks f \<noteq> {}"
  using fr_blocks_byte [of f "unat (fr_offset f)"] fragment_okD(3) [of f] by auto

lemma push_gathered:
  fixes rs :: reassembler
  assumes "gathered gs (fragment_key f) rs" and "reassembler_ok rs" and "d \<noteq> []"
    and "\<forall>g \<in> set (f # gs). fragment_of d g" and "fr_blocks f \<inter> (\<Union>g \<in> set gs. fr_blocks g) = {}"
  obtains (Partial) p where "(\<Union>g \<in> set (f # gs). fr_blocks g) \<noteq> {..<(length d + 7) div 8}"
      "fst (push f now rs) = Pending" "assembled (f # gs) p" "\<not> pd_poisoned p"
      "hm_get (rs_pending (snd (push f now rs))) = (hm_get (rs_pending rs))(fragment_key f \<mapsto> p)"
  | (Whole) p where "(\<Union>g \<in> set (f # gs). fr_blocks g) = {..<(length d + 7) div 8}"
      "assembled (f # gs) p"
      "hm_get (rs_pending (snd (push f now rs))) = (hm_get (rs_pending rs))(fragment_key f := None)"
      "fst (push f now rs) =
         (case rebuild (pd_headers p) (pd_next_header_at p) (fr_protocol f) d of
            None \<Rightarrow> Discarded | Some packet \<Rightarrow> Complete packet)"
proof -
  have ok: "fragment_ok f" using assms(4) by (simp add: fragment_of_def)
  then have usable: "fragment_usable f" by (simp add: fragment_ok_def)
  define q where "q = (case hm_get (rs_pending rs) (fragment_key f) of
    None \<Rightarrow> pending_new (expiry_filed 0) | Some p \<Rightarrow> p)"
  have q: "assembled gs q" "\<not> pd_poisoned q" and entry: "case hm_get (rs_pending rs) (fragment_key f) of
      None \<Rightarrow> length (rs_pending rs) < rs_max_pending rs \<and> q = pending_new (expiry_filed 0) | Some p \<Rightarrow> q = p"
    using assms(1) by (auto simp: gathered_def q_def split: option.splits)
  show thesis
    using usable assms(2) entry
  proof (rule push_known [where now = now])
    fix e' p' v
    let ?q = "q\<lparr>pd_expiry := e'\<rparr>"
    assume v: "accept_fragment f ?q = (v, p')"
      and pending: "v = VPending \<Longrightarrow> fst (push f now rs) = Pending"
      and store: "v \<noteq> VComplete \<Longrightarrow>
        hm_get (rs_pending (snd (push f now rs))) = (hm_get (rs_pending rs))(fragment_key f \<mapsto> p')"
      and whole: "v = VComplete \<Longrightarrow>
        hm_get (rs_pending (snd (push f now rs))) = (hm_get (rs_pending rs))(fragment_key f := None)
        \<and> fst (push f now rs) =
         (case rebuild (pd_headers p') (pd_next_header_at p') (fr_protocol f)
                 (take (case pd_total p' of None \<Rightarrow> 0 | Some t \<Rightarrow> t) (pd_data p')) of
            None \<Rightarrow> Discarded | Some packet \<Rightarrow> Complete packet)"
    have q': "assembled gs ?q" "\<not> pd_poisoned ?q" using q by simp_all
    have "v \<noteq> VDiscarded"
      using accept_fragment_of [OF q', of d f] assms(4,5) v by simp
    with accept_assembled [OF q' ok v]
    have p': "\<not> pd_poisoned p'" "assembled (f # gs) p'" "v = VComplete \<longleftrightarrow> is_complete p'" by auto
    note cover = complete_iff_covered [OF p'(2) assms(4,3)]
    show thesis
    proof (cases v)
      case VComplete
      with p'(3) have complete: "is_complete p'" by simp
      then have "pd_total p' = Some (length d)"
        using assembledD(9) [OF p'(2)] cover(2) by (auto simp: is_complete_def split: option.splits)
      with whole [OF VComplete] cover(2) [OF complete] show thesis
        using cover(1) complete p'(2) by (intro Whole [of p']) (simp_all add: fun_upd_def)
    next
      case VPending
      with pending store p' cover(1) show thesis by (intro Partial [of p']) auto
    qed (use \<open>v \<noteq> VDiscarded\<close> in simp)
  qed
qed

lemma push_all_gathered:
  assumes "gathered gs k rs" and "reassembler_ok rs" and "d \<noteq> []" and "fs \<noteq> []"
    and "\<forall>f \<in> fst ` set fs. fragment_key f = k"
    and "fragments_cover d (rev (map fst fs) @ gs)"
    and "f0 \<in> set (map fst fs @ gs)" and "unat (fr_offset f0) = 0"
    and "rebuild (fr_headers f0) (fr_next_header_at f0) (fk_protocol k) d = Some packet"
  shows "fst (push_all fs rs) = replicate (length fs - 1) Pending @ [Complete packet]
     \<and> hm_get (rs_pending (snd (push_all fs rs))) = (hm_get (rs_pending rs))(k := None)"
  using assms
proof (induction fs arbitrary: gs rs)
  case (Cons x fs)
  obtain f now where x: "x = (f, now)" by (cases x)
  have k: "fragment_key f = k" using Cons.prems(5) by (simp add: x)
  then have proto: "fr_protocol f = fk_protocol k" by (metis fk_protocol_key)
  have of_d: "\<forall>g \<in> set (f # gs). fragment_of d g"
    and disjoint: "fr_blocks f \<inter> (\<Union>g \<in> set gs. fr_blocks g) = {}"
    and later: "\<forall>g \<in> fst ` set fs. fragment_of d g \<and> fr_blocks g \<inter> (\<Union>h \<in> set (f # gs). fr_blocks h) = {}"
    and cover: "(\<Union>g \<in> set (map fst fs) \<union> set (f # gs). fr_blocks g) = {..<(length d + 7) div 8}"
    using Cons.prems(6) unfolding fragments_cover_def x by (auto simp: sorted_wrt_append Un_ac) (metis disjoint_iff fst_conv)
  obtain out rs1 where push: "push f now rs = (out, rs1)" by (cases "push f now rs")
  have ok1: "reassembler_ok rs1" using reassembler_ok_push [OF Cons.prems(2), of f now] push by simp
  from Cons.prems(1) [folded k] Cons.prems(2,3) of_d disjoint show ?case
  proof (cases rule: push_gathered [where now = now])
    case (Partial p)
    have "fs \<noteq> []" using Partial(1) cover by auto
    moreover have "gathered (f # gs) k rs1"
      using Partial(3-5) push k by (simp add: gathered_def)
    moreover have "fragments_cover d (rev (map fst fs) @ f # gs)"
      using Cons.prems(6) by (simp add: x)
    moreover have "f0 \<in> set (map fst fs @ f # gs)" using Cons.prems(7) by (simp add: x)
    ultimately show ?thesis
      using Cons.IH [of "f # gs" rs1] Cons.prems(3,5,8,9) ok1 Partial(2,5) push k
      by (cases fs) (auto simp: x Let_def split: prod.splits)
  next
    case (Whole p)
    have "fs = []"
    proof (rule ccontr)
      assume "fs \<noteq> []"
      then obtain g where "g \<in> fst ` set fs" by (cases fs) auto
      with later have g: "fragment_of d g" "fr_blocks g \<inter> {..<(length d + 7) div 8} = {}"
        unfolding Whole(1) by auto
      moreover have "fr_blocks g \<subseteq> {..<(length d + 7) div 8}"
        using \<open>g \<in> fst ` set fs\<close> unfolding cover [symmetric] by force
      ultimately show False using fr_blocks_nonempty [of g] by (auto simp: fragment_of_def)
    qed
    moreover have "pd_headers p = fr_headers f0 \<and> pd_next_header_at p = fr_next_header_at f0"
      using assembledD(7) [OF Whole(2) _ Cons.prems(8)] Cons.prems(7) \<open>fs = []\<close> by (simp add: x)
    ultimately show ?thesis
      using Whole(3,4) push Cons.prems(9) k proto by (simp add: x)
  qed
qed simp

lemma fragments_cover_rev: "fragments_cover d (rev fs) \<longleftrightarrow> fragments_cover d fs"
  by (simp add: fragments_cover_def sorted_wrt_rev Int_commute)

text \<open>
  C3. The fragments of a datagram complete it in whatever order they arrive and at whatever
  instants: each but the last is taken in as pending, the last yields the packet rebuilt from the headers
  of the fragment at offset zero and the whole datagram, and the reassembler is left as it
  was for every key.
\<close>

theorem reassembly_any_order:
  assumes "reassembler_ok rs" and "hm_get (rs_pending rs) k = None"
    and "length (rs_pending rs) < rs_max_pending rs"
    and "\<forall>f \<in> fst ` set fs. fragment_key f = k" and "d \<noteq> []"
    and "fragments_cover d (map fst fs)"
    and "f0 \<in> fst ` set fs" and "unat (fr_offset f0) = 0"
    and "rebuild (fr_headers f0) (fr_next_header_at f0) (fk_protocol k) d = Some packet"
  shows "fst (push_all fs rs) = replicate (length fs - 1) Pending @ [Complete packet]
     \<and> hm_get (rs_pending (snd (push_all fs rs))) = hm_get (rs_pending rs)"
proof -
  have "gathered [] k rs" using assms(2,3) by (simp add: gathered_def)
  moreover have "fs \<noteq> []" using assms(7) by auto
  ultimately show ?thesis
    using push_all_gathered [of "[]" k rs d fs f0 packet] assms
    by (auto simp: fun_upd_idem fragments_cover_rev)
qed

section \<open>Overlaps\<close>

lemma push_entry:
  assumes "gathered gs (fragment_key f) rs" and "reassembler_ok rs" and "fragment_ok f"
  obtains p v p' where "assembled gs p" "\<not> pd_poisoned p" "accept_fragment f p = (v, p')"
    "fst (push f now rs) = Pending \<longleftrightarrow> v = VPending" "v = VDiscarded \<Longrightarrow> fst (push f now rs) = Discarded"
    "v \<noteq> VComplete \<Longrightarrow> hm_get (rs_pending (snd (push f now rs))) = (hm_get (rs_pending rs))(fragment_key f \<mapsto> p')"
proof -
  define q where "q = (case hm_get (rs_pending rs) (fragment_key f) of
    None \<Rightarrow> pending_new (expiry_filed 0) | Some p \<Rightarrow> p)"
  have q: "assembled gs q" "\<not> pd_poisoned q" and entry: "case hm_get (rs_pending rs) (fragment_key f) of
      None \<Rightarrow> length (rs_pending rs) < rs_max_pending rs \<and> q = pending_new (expiry_filed 0) | Some p \<Rightarrow> q = p"
    using assms(1) by (auto simp: gathered_def q_def split: option.splits)
  have usable: "fragment_usable f" using assms(3) by (simp add: fragment_ok_def)
  show thesis
    using usable assms(2) entry
  proof (rule push_known [where now = now], goal_cases)
    case (1 e' p' v)
    have "fst (push f now rs) \<noteq> Pending" if "v = VComplete"
      using 1(5) [OF that] by (simp split: option.splits)
    with 1 q show thesis by (intro that [of "q\<lparr>pd_expiry := e'\<rparr>" v p']) (auto intro: verdict.exhaust [of v])
  qed
qed

text \<open>A history of pushes and expiry passes, with the outcome of each push.\<close>

datatype rs_op = PushAt fragment instant | ExpireAt instant

fun rs_run :: "rs_op list \<Rightarrow> reassembler \<Rightarrow> (fragment \<times> push_outcome) list \<times> reassembler" where
  "rs_run [] rs = ([], rs)"
| "rs_run (PushAt f now # ops) rs =
     (let (out, rs1) = push f now rs; (outs, rs2) = rs_run ops rs1 in ((f, out) # outs, rs2))"
| "rs_run (ExpireAt now # ops) rs = rs_run ops (snd (rs_expire now rs))"

text \<open>No operation of the history comes at or after the deadline that the datagram of the key then has.\<close>

definition unexpired :: "frag_key \<Rightarrow> instant \<Rightarrow> reassembler \<Rightarrow> bool" where
  "unexpired k now rs = (case rs_deadline rs k of None \<Rightarrow> True | Some deadline \<Rightarrow> now < deadline)"

fun run_unexpired :: "frag_key \<Rightarrow> rs_op list \<Rightarrow> reassembler \<Rightarrow> bool" where
  "run_unexpired k [] rs \<longleftrightarrow> True"
| "run_unexpired k (PushAt f now # ops) rs \<longleftrightarrow> unexpired k now rs \<and> run_unexpired k ops (snd (push f now rs))"
| "run_unexpired k (ExpireAt now # ops) rs \<longleftrightarrow> unexpired k now rs \<and> run_unexpired k ops (snd (rs_expire now rs))"

text \<open>The entry of a key is the same but for where its expiry is filed.\<close>

definition same_entry :: "frag_key \<Rightarrow> reassembler \<Rightarrow> reassembler \<Rightarrow> bool" where
  "same_entry k rs rs' \<longleftrightarrow>
     rel_option (\<lambda>p p'. \<exists>e. p' = p\<lparr>pd_expiry := e\<rparr>) (hm_get (rs_pending rs) k) (hm_get (rs_pending rs') k)"

lemma same_entryI: "hm_get (rs_pending rs') k = hm_get (rs_pending rs) k \<Longrightarrow> same_entry k rs rs'"
proof (cases "hm_get (rs_pending rs) k")
  case (Some p)
  moreover assume "hm_get (rs_pending rs') k = hm_get (rs_pending rs) k"
  ultimately show ?thesis by (simp add: same_entry_def) (rule exI [of _ "pd_expiry p"], simp)
qed (simp add: same_entry_def)

lemma expire_other:
  assumes "reassembler_ok rs" and "unexpired k now rs"
  shows "same_entry k rs (snd (rs_expire now rs))"
proof -
  obtain n rs' where rs': "rs_expire now rs = (n, rs')" by (cases "rs_expire now rs")
  show ?thesis
  proof (cases "hm_get (rs_pending rs) k")
    case None
    then show ?thesis using rs_expire_pending [OF assms(1) rs', of k] rs' by (simp add: same_entry_def)
  next
    case (Some p)
    then have "\<not> ex_at (pd_expiry p) \<le> now" using assms(2) by (simp add: unexpired_def rs_deadline_def)
    then show ?thesis
      using Some rs_expire_pending [OF assms(1) rs', of k] rs'
      by (auto simp: same_entry_def after_expiry_def intro: exI [of _ "pd_expiry p"])
  qed
qed

lemma deliver_other: "fragment_key f \<noteq> k \<Longrightarrow> hm_get (rs_pending (snd (rs_deliver f now rs))) k = hm_get (rs_pending rs) k"
proof -
  assume other: "fragment_key f \<noteq> k"
  define d where "d = (case instant_add now (rs_timeout rs) of None \<Rightarrow> now | Some d \<Rightarrow> d)"
  let ?k = "fragment_key f" and ?rs1 = "rs_file (fragment_key f) d rs"
  obtain p0 where p0: "hm_get (rs_pending ?rs1) ?k = Some p0"
    by (cases "hm_get (rs_pending rs) ?k") (auto simp: rs_file_def)
  obtain v q where v: "accept_fragment f (p0\<lparr>pd_expiry := expiry_refresh d (pd_expiry p0)\<rparr>) = (v, q)"
    by (rule prod.exhaust)
  have "rs_pending (snd (rs_deliver f now rs)) \<in>
      {hm_insert ?k q (rs_pending ?rs1), hm_remove ?k (hm_insert ?k q (rs_pending ?rs1))}"
    unfolding rs_deliver_def Let_def d_def [symmetric] p0 option.case v prod.case
    by (auto simp: rs_discard_def rs_complete_def forget_slot_def Let_def split: verdict.split option.split)
  moreover have "hm_get (rs_pending ?rs1) k = hm_get (rs_pending rs) k" using other by (simp add: rs_file_def split: option.split)
  ultimately show ?thesis using other by auto
qed

lemma push_other:
  assumes "reassembler_ok rs" and "unexpired k now rs" and "fragment_key f \<noteq> k"
  shows "same_entry k rs (snd (push f now rs))"
proof -
  have "same_entry k rs (snd (rs_deliver f now (snd (rs_expire now rs))))" "same_entry k rs (snd (rs_discard (snd (rs_expire now rs))))"
    using expire_other [OF assms(1,2)] deliver_other [OF assms(3)] by (simp_all add: same_entry_def rs_discard_def)
  moreover have "same_entry k rs (snd (rs_discard rs))" "same_entry k rs (snd (rs_deliver f now rs))"
    using deliver_other [OF assms(3)] by (auto intro!: same_entryI simp: rs_discard_def)
  ultimately show ?thesis by (simp add: push_def Let_def)
qed

text \<open>The fragments \<open>gs\<close> of a key have been taken in.\<close>

definition gathering :: "fragment list \<Rightarrow> frag_key \<Rightarrow> reassembler \<Rightarrow> bool" where
  "gathering gs k rs =
     (case hm_get (rs_pending rs) k of None \<Rightarrow> gs = [] | Some p \<Rightarrow> assembled gs p \<and> \<not> pd_poisoned p)"

lemma gathering_same: "gathering gs k rs \<Longrightarrow> same_entry k rs rs' \<Longrightarrow> gathering gs k rs'"
  by (auto simp: gathering_def same_entry_def elim: option.rel_cases split: option.splits)

text \<open>A new key is taken in at capacity only after an expiry pass that makes room.\<close>

lemma push_room:
  assumes "gathering gs (fragment_key f) rs" and "reassembler_ok rs" and "fragment_ok f" and "fst (push f now rs) = Pending"
  obtains rs0 where "gathered gs (fragment_key f) rs0" "reassembler_ok rs0" "push f now rs = push f now rs0"
proof (cases "hm_get (rs_pending rs) (fragment_key f) = None \<and> length (rs_pending rs) = rs_max_pending rs")
  case True
  obtain n rs0 where rs0: "rs_expire now rs = (n, rs0)" by (cases "rs_expire now rs")
  have "fragment_usable f" using assms(3) by (simp add: fragment_ok_def)
  then have room: "length (rs_pending rs0) \<noteq> rs_max_pending rs0" "push f now rs = rs_deliver f now rs0"
    using assms(4) True rs0 by (auto simp: push_def hm_contains_def rs_discard_def split: if_splits)
  have ok: "reassembler_ok rs0" by (rule reassembler_ok_expire [OF assms(2) rs0])
  then have "length (rs_pending rs0) < rs_max_pending rs0" using room(1) by (simp add: reassembler_ok_def)
  moreover have "hm_get (rs_pending rs0) (fragment_key f) = None"
    using rs_expire_pending [OF assms(2) rs0, of "fragment_key f"] True by simp
  ultimately show thesis
    using room assms(1) ok True \<open>fragment_usable f\<close> by (intro that [of rs0]) (simp_all add: gathered_def gathering_def push_def)
next
  case False
  moreover have "length (rs_pending rs) \<le> rs_max_pending rs" using assms(2) by (simp add: reassembler_ok_def)
  ultimately show thesis
    using assms(1,2) by (intro that [of rs]) (auto simp: gathered_def gathering_def split: option.splits)
qed

lemma push_taken:
  assumes "gathering gs (fragment_key f) rs" and "reassembler_ok rs" and "fragment_ok f" and "fst (push f now rs) = Pending"
  shows "gathering (f # gs) (fragment_key f) (snd (push f now rs))"
proof (rule push_room [OF assms])
  fix rs0
  assume rs0: "gathered gs (fragment_key f) rs0" "reassembler_ok rs0" "push f now rs = push f now rs0"
  from rs0(1,2) assms(3) show ?thesis
  proof (rule push_entry [where now = now])
    fix p v p'
    assume p: "assembled gs p" "\<not> pd_poisoned p" "accept_fragment f p = (v, p')"
      "fst (push f now rs0) = Pending \<longleftrightarrow> v = VPending"
      "v \<noteq> VComplete \<Longrightarrow> hm_get (rs_pending (snd (push f now rs0))) = (hm_get (rs_pending rs0))(fragment_key f \<mapsto> p')"
    with accept_assembled [OF p(1,2) assms(3) p(3)] assms(4) rs0(3) show ?thesis by (simp add: gathering_def)
  qed
qed

lemma run_gathering:
  assumes "gathering gs k rs" and "reassembler_ok rs" and "run_unexpired k hist rs" and "rs_run hist rs = (outs, rs')"
    and "\<forall>(f, out) \<in> set outs. fragment_key f = k \<longrightarrow> fragment_ok f \<and> out = Pending"
  shows "gathering (rev (filter (\<lambda>f. fragment_key f = k) (map fst outs)) @ gs) k rs' \<and> reassembler_ok rs'"
  using assms
proof (induction hist arbitrary: gs rs outs)
  case (Cons op hist)
  show ?case
  proof (cases op)
    case (PushAt f now)
    obtain out rs1 where push: "push f now rs = (out, rs1)" by (cases "push f now rs")
    obtain outs1 where rest: "rs_run hist rs1 = (outs1, rs')" "outs = (f, out) # outs1"
      using Cons.prems(4) PushAt push by (auto split: prod.splits)
    have ok: "reassembler_ok rs1" using reassembler_ok_push [OF Cons.prems(2), of f now] push by simp
    have "gathering (if fragment_key f = k then f # gs else gs) k rs1"
      using push_taken [of gs f rs now] gathering_same [OF Cons.prems(1) push_other [of rs k now f]] Cons.prems PushAt push rest(2)
      by auto
    then show ?thesis using Cons.IH [OF _ ok _ rest(1)] Cons.prems(3,5) PushAt push rest(2) by (auto split: if_splits)
  next
    case (ExpireAt now)
    obtain n rs1 where e: "rs_expire now rs = (n, rs1)" by (cases "rs_expire now rs")
    have "gathering gs k rs1" using gathering_same [OF Cons.prems(1) expire_other [of rs k now]] Cons.prems(2,3) ExpireAt e by simp
    then show ?thesis
      using Cons.IH [OF _ reassembler_ok_expire [OF Cons.prems(2) e]] Cons.prems(3-5) ExpireAt e by simp
  qed
qed simp

definition poisoned_entry :: "frag_key \<Rightarrow> reassembler \<Rightarrow> bool" where
  "poisoned_entry k rs \<longleftrightarrow> (\<exists>p. hm_get (rs_pending rs) k = Some p \<and> pd_poisoned p)"

lemma poisoned_same: "poisoned_entry k rs \<Longrightarrow> same_entry k rs rs' \<Longrightarrow> poisoned_entry k rs'"
  by (auto simp: poisoned_entry_def same_entry_def elim: option.rel_cases)

lemma poisoned_push:
  assumes "reassembler_ok rs" and "poisoned_entry (fragment_key f) rs"
  shows "fst (push f now rs) = Discarded \<and> poisoned_entry (fragment_key f) (snd (push f now rs))"
proof (cases "fragment_usable f")
  case False
  then show ?thesis using assms(2) by (simp add: push_def rs_discard_def poisoned_entry_def)
next
  case True
  obtain p where p: "hm_get (rs_pending rs) (fragment_key f) = Some p" "pd_poisoned p"
    using assms(2) by (auto simp: poisoned_entry_def)
  then have entry: "case hm_get (rs_pending rs) (fragment_key f) of
      None \<Rightarrow> length (rs_pending rs) < rs_max_pending rs \<and> p = pending_new undefined | Some q \<Rightarrow> p = q" by simp
  show ?thesis
    using True assms(1) entry
  proof (rule push_known [where now = now], goal_cases)
    case (1 e' p' v)
    then show ?case using p(2) by (auto simp: accept_fragment_def Let_def poisoned_entry_def)
  qed
qed

lemma run_poisoned:
  assumes "reassembler_ok rs" and "poisoned_entry k rs" and "run_unexpired k ops rs"
  shows "\<forall>(f, out) \<in> set (fst (rs_run ops rs)). fragment_key f = k \<longrightarrow> out = Discarded"
  using assms
proof (induction ops arbitrary: rs)
  case (Cons op ops)
  show ?case
  proof (cases op)
    case (PushAt f now)
    obtain out rs1 where push: "push f now rs = (out, rs1)" by (cases "push f now rs")
    have "poisoned_entry k rs1 \<and> (fragment_key f = k \<longrightarrow> out = Discarded)"
      using poisoned_push [OF Cons.prems(1), of f now] poisoned_same [OF Cons.prems(2) push_other [of rs k now f]] Cons.prems PushAt push
      by (cases "fragment_key f = k") auto
    then show ?thesis
      using Cons.IH [of rs1] reassembler_ok_push [OF Cons.prems(1), of f now] Cons.prems(3) PushAt push
      by (auto split: prod.splits)
  next
    case (ExpireAt now)
    obtain n rs1 where e: "rs_expire now rs = (n, rs1)" by (cases "rs_expire now rs")
    have "poisoned_entry k rs1" using poisoned_same [OF Cons.prems(2) expire_other [of rs k now]] Cons.prems(1,3) ExpireAt e by simp
    then show ?thesis using Cons.IH [OF reassembler_ok_expire [OF Cons.prems(1) e]] Cons.prems(3) ExpireAt e by simp
  qed
qed simp

text \<open>
  A history that lies within one timeout: no operation comes as late as an instant that every deadline the key
  has or is given lies at or after.
\<close>

fun op_time :: "rs_op \<Rightarrow> instant" where
  "op_time (PushAt f now) = now"
| "op_time (ExpireAt now) = now"

lemma expire_deadline:
  assumes "reassembler_ok rs" and "rs_deadline (snd (rs_expire now rs)) k = Some d"
  shows "rs_deadline rs k = Some d"
proof -
  obtain n rs' where rs': "rs_expire now rs = (n, rs')" by (cases "rs_expire now rs")
  then show ?thesis
    using assms(2) rs_expire_pending [OF assms(1) rs', of k]
    by (auto simp: rs_deadline_def after_expiry_def expiry_filed_def split: option.splits if_splits)
qed

lemma deliver_deadline:
  "rs_deadline (snd (rs_deliver f now rs)) k = Some d \<Longrightarrow> now + rs_timeout rs \<le> instant_max \<Longrightarrow>
   rs_deadline rs k = Some d \<or> d = now + rs_timeout rs"
  using deliver_pending [of f now rs k] by (fastforce simp: rs_deadline_def)

lemma push_deadline:
  assumes "reassembler_ok rs" and "rs_deadline (snd (push f now rs)) k = Some d" and "now + rs_timeout rs \<le> instant_max"
  shows "rs_deadline rs k = Some d \<or> d = now + rs_timeout rs"
proof -
  have "rs_timeout (snd (rs_expire now rs)) = rs_timeout rs"
    using rs_config_simps(7) [of now rs] by (simp add: rs_config_def)
  moreover have "rs_deadline (snd (rs_discard rs)) = rs_deadline rs" for rs by (simp add: rs_discard_def rs_deadline_def fun_eq_iff)
  ultimately show ?thesis
    using assms(2,3) deliver_deadline [of f now rs k d] deliver_deadline [of f now "snd (rs_expire now rs)" k d]
      expire_deadline [OF assms(1), of now k d]
    by (auto simp: push_def Let_def split: if_splits)
qed

lemma run_within:
  assumes "reassembler_ok rs" and "rs_timeout rs = timeout" and "\<forall>d. rs_deadline rs k = Some d \<longrightarrow> limit \<le> d"
    and "\<forall>op \<in> set ops. op_time op < limit \<and> limit \<le> op_time op + timeout \<and> op_time op + timeout \<le> instant_max"
  shows "run_unexpired k ops rs"
  using assms
proof (induction ops arbitrary: rs)
  case (Cons op ops)
  have now: "unexpired k (op_time op) rs" using Cons.prems(3,4) by (auto simp: unexpired_def split: option.split)
  show ?case
  proof (cases op)
    case (PushAt f t)
    have "rs_timeout (snd (push f t rs)) = timeout" using rs_config_push [of f t rs] Cons.prems(2) by (simp add: rs_config_def)
    moreover have "\<forall>d. rs_deadline (snd (push f t rs)) k = Some d \<longrightarrow> limit \<le> d"
      using push_deadline [OF Cons.prems(1), of f t k] Cons.prems(2-4) PushAt by auto
    ultimately show ?thesis
      using Cons.IH [OF reassembler_ok_push [OF Cons.prems(1)]] Cons.prems(4) now PushAt by simp
  next
    case (ExpireAt t)
    obtain n rs1 where e: "rs_expire t rs = (n, rs1)" by (cases "rs_expire t rs")
    have "rs_timeout rs1 = timeout" using rs_config_simps(7) [of t rs] Cons.prems(2) e by (simp add: rs_config_def)
    moreover have "\<forall>d. rs_deadline rs1 k = Some d \<longrightarrow> limit \<le> d"
      using expire_deadline [OF Cons.prems(1), of t k] Cons.prems(3) e by auto
    ultimately show ?thesis
      using Cons.IH [OF reassembler_ok_expire [OF Cons.prems(1) e]] Cons.prems(4) now ExpireAt e by simp
  qed
qed simp

lemma run_unexpired_append:
  "run_unexpired k (ops @ ops') rs \<longleftrightarrow> run_unexpired k ops rs \<and> run_unexpired k ops' (snd (rs_run ops rs))"
  by (induction k ops rs rule: run_unexpired.induct) (simp_all add: split_beta)

text \<open>
  C18. A fragment that overlaps any fragment of its datagram taken in before it discards the whole datagram: it is
  refused, and so is every later fragment under the same key until the datagram expires, so that no packet is built from
  it. Fragments of other datagrams and expiry passes may come in between at any point; every push of the key renews
  the deadline, and the claim holds for as long as no operation comes at or after the deadline of that moment.
\<close>

theorem overlap_discards:
  assumes "reassembler_ok rs" and "hm_get (rs_pending rs) k = None"
    and hist: "rs_run hist rs = (outs, rs')" and "run_unexpired k hist rs"
    and taken: "\<forall>(f, out) \<in> set outs. fragment_key f = k \<longrightarrow> fragment_ok f \<and> out = Pending"
    and g: "fragment_key g = k" "fragment_ok g"
    and "(f, out) \<in> set outs" and "fragment_key f = k" and "fr_blocks f \<inter> fr_blocks g \<noteq> {}"
    and "run_unexpired k (PushAt g now # later) rs'"
  shows "\<forall>(f, out) \<in> set (fst (rs_run (PushAt g now # later) rs')). fragment_key f = k \<longrightarrow> out = Discarded"
proof -
  let ?gs = "rev (filter (\<lambda>f. fragment_key f = k) (map fst outs))"
  have "gathering [] k rs" using assms(2) by (simp add: gathering_def)
  then have run: "gathering ?gs k rs'" "reassembler_ok rs'"
    using run_gathering [OF _ assms(1,4) hist taken, of "[]"] by auto
  have f: "f \<in> set ?gs" using assms(8,9) by force
  then have "?gs \<noteq> []" by (intro notI) (simp only: list.set empty_iff)
  then have held: "gathered ?gs (fragment_key g) rs'"
    using run(1) g(1) by (simp add: gathering_def gathered_def split: option.splits)
  have "fst (push g now rs') = Discarded \<and> poisoned_entry k (snd (push g now rs'))"
    using held run(2) g(2)
  proof (rule push_entry [where now = now])
    fix p v p'
    assume p: "assembled ?gs p" "\<not> pd_poisoned p" "accept_fragment g p = (v, p')"
      "v = VDiscarded \<Longrightarrow> fst (push g now rs') = Discarded"
      "v \<noteq> VComplete \<Longrightarrow> hm_get (rs_pending (snd (push g now rs'))) = (hm_get (rs_pending rs'))(fragment_key g \<mapsto> p')"
    have "fr_blocks g \<inter> blocks (pd_received p) \<noteq> {}"
      using f assms(10) assembledD(4) [OF p(1)] by auto
    with accept_assembled [OF p(1,2) g(2) p(3)] have "v = VDiscarded" "pd_poisoned p'"
      by (auto split: if_splits)
    with p(4,5) g(1) show ?thesis by (simp add: poisoned_entry_def)
  qed
  then show ?thesis
    using run_poisoned [OF reassembler_ok_push [OF run(2)], of k g now later] assms(11) by (auto split: prod.splits)
qed

section \<open>Witnesses\<close>

text \<open>A datagram of ten bytes in two fragments, the second one first.\<close>

definition sample_fragment :: "u16 \<Rightarrow> bool \<Rightarrow> nat \<Rightarrow> fragment" where
  "sample_fragment offset mf n =
     \<lparr>fr_source = V4 1, fr_destination = V4 2, fr_protocol = 17, fr_identification = 7,
      fr_offset = offset, fr_more = mf, fr_payload = replicate n 1,
      fr_headers = [0x45, 0, 0, 28, 0, 1, 0x20, 0, 64, 17, 0, 0, 10, 0, 0, 1, 10, 0, 0, 2],
      fr_next_header_at = None\<rparr>"

abbreviation sample_head :: fragment where "sample_head \<equiv> sample_fragment 0 True 8"
abbreviation sample_tail :: fragment where "sample_tail \<equiv> sample_fragment 8 False 2"

lemma sample_ok: "fragment_ok sample_head" "fragment_ok sample_tail"
  by (simp_all add: fragment_ok_def fragment_usable_def sample_fragment_def MAX_DATAGRAM_BYTES_def)

lemma sample_blocks: "fr_blocks sample_head = {0}" "fr_blocks sample_tail = {1}"
  by (simp_all add: fr_blocks_def fr_extent_def sample_fragment_def)

lemma sample_cover: "fragments_cover (replicate 10 1) [sample_tail, sample_head]"
proof -
  have "fragment_of (replicate 10 1) sample_head" "fragment_of (replicate 10 1) sample_tail"
    using sample_ok by (simp_all add: fragment_of_def fr_extent_def, simp_all add: sample_fragment_def)
  moreover have "{0, 1} = {..<2 :: nat}" by auto
  ultimately show ?thesis by (simp add: fragments_cover_def sample_blocks insert_commute)
qed

lemma sample_rebuild:
  "\<exists>packet. rebuild (fr_headers sample_head) (fr_next_header_at sample_head) 17 (replicate 10 1) = Some packet"
  by (simp add: rebuild_def try_from_def Let_def sample_fragment_def)

theorem reassembly_any_order_witness:
  "\<exists>packet. fst (push_all [(sample_tail, 5), (sample_head, 9)] (reassembler_new 30 1)) = [Pending, Complete packet]"
proof -
  let ?rs = "reassembler_new 30 1" and ?k = "fragment_key sample_head"
  obtain packet where "rebuild (fr_headers sample_head) (fr_next_header_at sample_head) (fk_protocol ?k)
      (replicate 10 1) = Some packet"
    using sample_rebuild by (auto simp: sample_fragment_def)
  then show ?thesis
    using reassembly_any_order [of ?rs ?k "[(sample_tail, 5), (sample_head, 9)]" "replicate 10 1" sample_head packet]
      reassembler_ok_new [of 1 30] sample_cover
    by (simp add: reassembler_new_def fragment_key_def sample_fragment_def)
qed

lemma sample_first: "fst (push sample_tail 5 (reassembler_new 30 1)) = Pending"
proof -
  have start: "gathered [] (fragment_key sample_tail) (reassembler_new 30 1)" "reassembler_ok (reassembler_new 30 1)"
    using reassembler_ok_new [of 1 30] by (simp_all add: gathered_def reassembler_new_def)
  define d :: bytes where "d = replicate 10 1"
  have of_d: "\<forall>g \<in> set [sample_tail]. fragment_of d g"
    using sample_cover by (simp add: fragments_cover_def d_def)
  have d: "d \<noteq> []" "(length d + 7) div 8 = 2" by (simp_all add: d_def)
  have partly: "(\<Union>g \<in> set [sample_tail]. fr_blocks g) \<noteq> {..<(length d + 7) div 8}"
    by (simp only: d(2) sample_blocks list.set SUP_insert SUP_empty) force
  show ?thesis
    by (rule push_gathered [OF start d(1) of_d, where now = 5]) (simp, assumption, use partly in blast)
qed

theorem overlap_discards_witness:
  "fst (rs_run [PushAt sample_tail 7, ExpireAt 8, PushAt sample_head 9]
      (snd (rs_run [PushAt sample_tail 5, ExpireAt 6] (reassembler_new 30 1)))) = [(sample_tail, Discarded), (sample_head, Discarded)]"
proof -
  let ?rs = "reassembler_new 30 1" and ?k = "fragment_key sample_head"
  let ?hist = "[PushAt sample_tail 5, ExpireAt 6]" and ?later = "[ExpireAt 8, PushAt sample_head 9]"
  have ok: "reassembler_ok ?rs" "hm_get (rs_pending ?rs) ?k = None"
    using reassembler_ok_new [of 1 30] by (simp_all add: reassembler_new_def)
  have keys: "fragment_key sample_tail = ?k" by (simp add: fragment_key_def) (simp add: sample_fragment_def)
  define rs' where "rs' = snd (rs_run ?hist ?rs)"
  then have hist: "rs_run ?hist ?rs = ([(sample_tail, Pending)], rs')" using sample_first by (simp add: split_beta)
  have "run_unexpired ?k (?hist @ PushAt sample_tail 7 # ?later) ?rs"
    by (rule run_within [OF ok(1), where timeout = 30 and limit = 35])
      (simp_all add: reassembler_new_def rs_deadline_def instant_max_def)
  then have times: "run_unexpired ?k ?hist ?rs" and later: "run_unexpired ?k (PushAt sample_tail 7 # ?later) rs'"
    unfolding run_unexpired_append using hist by simp_all
  have "\<forall>(f, out) \<in> set (fst (rs_run (PushAt sample_tail 7 # ?later) rs')). fragment_key f = ?k \<longrightarrow> out = Discarded"
    by (rule overlap_discards [OF ok hist times _ keys sample_ok(2) _ keys _ later])
      (simp_all add: sample_ok sample_blocks)
  then show ?thesis using hist keys by (auto split: prod.splits)
qed

theorem reassembler_index_exact_witness:
  "length (filed (rs_expirations (snd (push sample_tail 5 (reassembler_new 30 1))))) \<le> 1"
proof -
  have "rs_step\<^sup>*\<^sup>* (reassembler_new 30 1) (snd (push sample_tail 5 (reassembler_new 30 1)))"
    by (rule r_into_rtranclp [of rs_step]) (rule rs_step.Push)
  from reassembler_index_exact [OF this] show ?thesis by simp
qed

theorem reassembler_expiry_exact_witness:
  "rs_deadline (snd (rs_expire 40 (snd (push sample_tail 5 (reassembler_new 30 1))))) (fragment_key sample_tail) \<noteq> Some 35"
proof -
  have "rs_timed\<^sup>*\<^sup>* (0, reassembler_new 30 1) (5, snd (push sample_tail 5 (reassembler_new 30 1)))"
    by (rule r_into_rtranclp [of rs_timed], rule rs_timed.TimedPush)
      (simp_all add: reassembler_new_def instant_max_def)
  from reassembler_expiry_exact [OF this, of 40 "fragment_key sample_tail" 35] show ?thesis by simp
qed

end
