(* ===== verification/Flow_Table.thy ===== *)
theory Flow_Table
  imports Planning Btree
begin

text \<open>
  The flow table of \<^verbatim>\<open>src/l3/udp.rs\<close>: the timer wheel that indexes deadlines by second, the
  bounded datagram buffer of a flow, and the table of live flows keyed by a flow key, each expiring
  an idle timeout after its last refresh. \<open>validate_ptb\<close> of \<^verbatim>\<open>src/l3/path.rs\<close>, the only other
  reader of the table, is here too.

  Seconds of the wheel are natural numbers: instants end at \<open>instant_max\<close>, so the 64-bit counts of
  the source stay below \<open>2 ^ 63 + 513\<close> and do not wrap. The scratch vector \<open>surfaced\<close>, empty
  between calls, is the accumulator of \<open>take_due\<close>.
\<close>

section \<open>The timer wheel\<close>

definition WHEEL_BUCKETS :: nat where "WHEEL_BUCKETS = 512"

record 'k timer_wheel =
  tw_buckets :: "(nat \<times> 'k) list list"
  tw_overflow :: "(nat \<times> 'k) list"
  tw_epoch :: instant
  tw_drained :: nat

definition wheel_new :: "instant \<Rightarrow> 'k timer_wheel" where
  "wheel_new epoch =
     \<lparr>tw_buckets = replicate WHEEL_BUCKETS [], tw_overflow = [], tw_epoch = epoch, tw_drained = 0\<rparr>"

definition wheel_second :: "'k timer_wheel \<Rightarrow> instant \<Rightarrow> nat" where
  "wheel_second w deadline = min (as_secs (deadline - tw_epoch w)) (2 ^ 64 - 1 - 1)"

definition bucket_push :: "nat \<times> 'k \<Rightarrow> (nat \<times> 'k) list list \<Rightarrow> (nat \<times> 'k) list list" where
  "bucket_push e buckets =
     buckets[fst e mod WHEEL_BUCKETS := buckets ! (fst e mod WHEEL_BUCKETS) @ [e]]"

definition wheel_insert :: "instant \<Rightarrow> 'k \<Rightarrow> 'k timer_wheel \<Rightarrow> 'k timer_wheel" where
  "wheel_insert deadline entry w =
     (let second = max (wheel_second w deadline) (tw_drained w)
      in if tw_drained w + WHEEL_BUCKETS \<le> second
         then w\<lparr>tw_overflow := tw_overflow w @ [(second, entry)]\<rparr>
         else w\<lparr>tw_buckets := bucket_push (second, entry) (tw_buckets w)\<rparr>)"

text \<open>The pass over the overflow: due entries surface, entries in range move to their bucket.\<close>

fun sift_overflow ::
    "nat \<Rightarrow> nat \<Rightarrow> (nat \<times> 'k) list \<Rightarrow> (nat \<times> 'k) list list \<Rightarrow> 'k list \<Rightarrow>
     (nat \<times> 'k) list \<times> (nat \<times> 'k) list list \<times> 'k list" where
  "sift_overflow horizon drained [] buckets surfaced = ([], buckets, surfaced)"
| "sift_overflow horizon drained ((second, entry) # overflow) buckets surfaced =
     (if second \<le> horizon then
        sift_overflow horizon drained overflow buckets (surfaced @ [entry])
      else if second < drained + WHEEL_BUCKETS then
        sift_overflow horizon drained overflow (bucket_push (second, entry) buckets) surfaced
      else
        (let (kept, buckets', surfaced') = sift_overflow horizon drained overflow buckets surfaced
         in ((second, entry) # kept, buckets', surfaced')))"

text \<open>One bucket, already taken out of the wheel: due entries surface, others go back.\<close>

fun drain_bucket ::
    "nat \<Rightarrow> (nat \<times> 'k) list \<Rightarrow> (nat \<times> 'k) list list \<Rightarrow> 'k list \<Rightarrow> (nat \<times> 'k) list list \<times> 'k list" where
  "drain_bucket horizon [] buckets surfaced = (buckets, surfaced)"
| "drain_bucket horizon ((second, entry) # es) buckets surfaced =
     (if second \<le> horizon then drain_bucket horizon es buckets (surfaced @ [entry])
      else drain_bucket horizon es (bucket_push (second, entry) buckets) surfaced)"

function drain_wheel ::
    "nat \<Rightarrow> nat \<Rightarrow> (nat \<times> 'k) list list \<Rightarrow> 'k list \<Rightarrow> nat \<times> (nat \<times> 'k) list list \<times> 'k list" where
  "drain_wheel horizon drained buckets surfaced =
     (if drained \<le> horizon then
        (let at = drained mod WHEEL_BUCKETS;
             (buckets', surfaced') = drain_bucket horizon (buckets ! at) (buckets[at := []]) surfaced
         in drain_wheel horizon (Suc drained) buckets' surfaced')
      else (drained, buckets, surfaced))"
  by pat_completeness auto

termination
  by (relation "measure (\<lambda>(horizon, drained, _). Suc horizon - drained)") auto

declare drain_wheel.simps [simp del]

definition take_due :: "instant \<Rightarrow> 'k timer_wheel \<Rightarrow> 'k list \<times> 'k timer_wheel" where
  "take_due now w =
     (let horizon = wheel_second w now;
          (overflow, buckets, surfaced) =
            sift_overflow horizon (tw_drained w) (tw_overflow w) (tw_buckets w) [];
          (drained, buckets', surfaced') = drain_wheel horizon (tw_drained w) buckets surfaced
      in (surfaced', w\<lparr>tw_buckets := buckets', tw_overflow := overflow, tw_drained := drained\<rparr>))"

definition wheel_bucket :: "'k timer_wheel \<Rightarrow> nat \<Rightarrow> (nat \<times> 'k) list" where
  "wheel_bucket w second = tw_buckets w ! (second mod WHEEL_BUCKETS)"

definition next_due :: "'k timer_wheel \<Rightarrow> nat option" where
  "next_due w =
     (let horizon = tw_drained w + WHEEL_BUCKETS
      in case find (\<lambda>second. wheel_bucket w second \<noteq> []) [tw_drained w..<horizon] of
           Some second \<Rightarrow> Some second
         | None \<Rightarrow> (if tw_overflow w \<noteq> [] then Some horizon else None))"

section \<open>Datagram buffers\<close>

datatype send_outcome = Buffered | Dropped

record 'a datagram_buffer =
  db_capacity :: nat
  db_datagrams :: "'a list"
  db_dropped :: u64

definition buffer_new :: "nat \<Rightarrow> 'a datagram_buffer" where
  "buffer_new capacity = \<lparr>db_capacity = capacity, db_datagrams = [], db_dropped = 0\<rparr>"

definition try_send :: "'a \<Rightarrow> 'a datagram_buffer \<Rightarrow> send_outcome \<times> 'a datagram_buffer" where
  "try_send x b =
     (if length (db_datagrams b) = db_capacity b
      then (Dropped, b\<lparr>db_dropped := saturating_add (db_dropped b) 1\<rparr>)
      else (Buffered, b\<lparr>db_datagrams := db_datagrams b @ [x]\<rparr>))"

definition buffer_recv :: "'a datagram_buffer \<Rightarrow> 'a option \<times> 'a datagram_buffer" where
  "buffer_recv b =
     (case db_datagrams b of
        [] \<Rightarrow> (None, b)
      | x # xs \<Rightarrow> (Some x, b\<lparr>db_datagrams := xs\<rparr>))"

definition buffer_is_empty :: "'a datagram_buffer \<Rightarrow> bool" where
  "buffer_is_empty b \<longleftrightarrow> db_datagrams b = []"

section \<open>The flow table\<close>

definition MIN_IDLE_TIMEOUT :: duration where "MIN_IDLE_TIMEOUT = from_secs 120"

datatype flow_table_error = IdleTimeoutTooShort | DeadlineOverflow | AtCeiling

record 'v entry_state =
  es_value :: 'v
  es_deadline :: instant

record ('k, 'v) udp_flow_table =
  ft_idle_timeout :: duration
  ft_ceiling :: nat
  ft_flows :: "('k, 'v entry_state) hash_map"
  ft_wheel :: "'k timer_wheel"

definition ft_new ::
    "duration \<Rightarrow> nat \<Rightarrow> instant \<Rightarrow> flow_table_error + ('k, 'v) udp_flow_table" where
  "ft_new idle_timeout ceiling epoch =
     (if idle_timeout < MIN_IDLE_TIMEOUT then Inl IdleTimeoutTooShort
      else Inr \<lparr>ft_idle_timeout = idle_timeout, ft_ceiling = ceiling, ft_flows = [],
                ft_wheel = wheel_new epoch\<rparr>)"

definition ft_len :: "('k, 'v) udp_flow_table \<Rightarrow> nat" where
  "ft_len t = length (ft_flows t)"

definition ft_contains :: "('k, 'v) udp_flow_table \<Rightarrow> 'k \<Rightarrow> bool" where
  "ft_contains t k \<longleftrightarrow> hm_contains (ft_flows t) k"

text \<open>\<open>get_mut\<close>: the value read, and the table after a write through the reference.\<close>

definition ft_get :: "('k, 'v) udp_flow_table \<Rightarrow> 'k \<Rightarrow> 'v option" where
  "ft_get t k = map_option es_value (hm_get (ft_flows t) k)"

definition ft_put :: "'k \<Rightarrow> 'v \<Rightarrow> ('k, 'v) udp_flow_table \<Rightarrow> ('k, 'v) udp_flow_table" where
  "ft_put k v t =
     (case hm_get (ft_flows t) k of
        None \<Rightarrow> t
      | Some e \<Rightarrow> t\<lparr>ft_flows := hm_insert k (e\<lparr>es_value := v\<rparr>) (ft_flows t)\<rparr>)"

definition ft_next_deadline :: "('k, 'v) udp_flow_table \<Rightarrow> instant option" where
  "ft_next_deadline t =
     map_option (\<lambda>second. tw_epoch (ft_wheel t) + from_secs second) (next_due (ft_wheel t))"

text \<open>\<open>retain\<close> with a closure that may write the value and state of its own.\<close>

fun retain_entries ::
    "('k \<Rightarrow> 'v \<Rightarrow> 's \<Rightarrow> bool \<times> 'v \<times> 's) \<Rightarrow> ('k \<times> 'v entry_state) list \<Rightarrow> 's \<Rightarrow>
     ('k \<times> 'v entry_state) list \<times> 's" where
  "retain_entries keep [] s = ([], s)"
| "retain_entries keep ((k, e) # es) s =
     (let (kept, v, s') = keep k (es_value e) s;
          (es', s'') = retain_entries keep es s'
      in (if kept then (k, e\<lparr>es_value := v\<rparr>) # es' else es', s''))"

definition ft_retain ::
    "('k \<Rightarrow> 'v \<Rightarrow> 's \<Rightarrow> bool \<times> 'v \<times> 's) \<Rightarrow> ('k, 'v) udp_flow_table \<Rightarrow> 's \<Rightarrow>
     nat \<times> ('k, 'v) udp_flow_table \<times> 's" where
  "ft_retain keep t s =
     (let (flows, s') = retain_entries keep (ft_flows t) s
      in (length (ft_flows t) - length flows, t\<lparr>ft_flows := flows\<rparr>, s'))"

definition ft_get_or_insert_with ::
    "'k \<Rightarrow> instant \<Rightarrow> 'v \<Rightarrow> ('k, 'v) udp_flow_table \<Rightarrow> flow_table_error + ('k, 'v) udp_flow_table" where
  "ft_get_or_insert_with key now create t =
     (case instant_add now (ft_idle_timeout t) of
        None \<Rightarrow> Inl DeadlineOverflow
      | Some deadline \<Rightarrow>
          (let full = ft_ceiling t \<le> length (ft_flows t)
           in case hm_get (ft_flows t) key of
                Some e \<Rightarrow> Inr (t\<lparr>ft_flows := hm_insert key (e\<lparr>es_deadline := deadline\<rparr>) (ft_flows t)\<rparr>)
              | None \<Rightarrow>
                  (if full then Inl AtCeiling
                   else Inr (t\<lparr>ft_wheel := wheel_insert deadline key (ft_wheel t),
                               ft_flows := hm_insert key \<lparr>es_value = create, es_deadline = deadline\<rparr>
                                             (ft_flows t)\<rparr>))))"

definition expire_flow ::
    "instant \<Rightarrow> 'k \<Rightarrow> 'v list \<times> ('k, 'v) udp_flow_table \<Rightarrow> 'v list \<times> ('k, 'v) udp_flow_table" where
  "expire_flow now key s =
     (let (expired, t) = s
      in case hm_get (ft_flows t) key of
           None \<Rightarrow> (expired, t)
         | Some e \<Rightarrow>
             (if es_deadline e \<le> now
              then (expired @ [es_value e], t\<lparr>ft_flows := hm_remove key (ft_flows t)\<rparr>)
              else (expired, t\<lparr>ft_wheel := wheel_insert (es_deadline e) key (ft_wheel t)\<rparr>)))"

definition ft_expire :: "instant \<Rightarrow> ('k, 'v) udp_flow_table \<Rightarrow> 'v list \<times> ('k, 'v) udp_flow_table" where
  "ft_expire now t =
     (let (surfaced, wheel) = take_due now (ft_wheel t)
      in fold (expire_flow now) surfaced ([], t\<lparr>ft_wheel := wheel\<rparr>))"

section \<open>Path reports\<close>

datatype path_update = PathUpdate (next_hop_mtu: u16)

definition validate_ptb :: "ingress_packet \<Rightarrow> u16 \<Rightarrow> (flow_key, 'v) udp_flow_table \<Rightarrow> path_update option" where
  "validate_ptb quoted offered_mtu flows =
     (if offered_mtu < MIN_QUIC_MTU then None
      else
        (let endpoint = Endpoint;
             key = (case pk_transport quoted of
                Udp s d \<Rightarrow> Some (Mapping (endpoint (pk_source quoted) s))
              | Tcp s d \<Rightarrow> Some (Connection (endpoint (pk_source quoted) s)
                                           (endpoint (pk_destination quoted) d))
              | Icmp _ \<Rightarrow> None
              | Other \<Rightarrow> None
              | Fragment \<Rightarrow> None)
         in case key of
              None \<Rightarrow> None
            | Some k \<Rightarrow> if ft_contains flows k then Some (PathUpdate offered_mtu) else None))"

section \<open>The wheel keeps every entry until its second\<close>

definition entries :: "(nat \<times> 'k) list list \<Rightarrow> (nat \<times> 'k) set" where
  "entries buckets = {e. \<exists>b < length buckets. e \<in> set (buckets ! b)}"

definition slots :: "'k timer_wheel \<Rightarrow> (nat \<times> 'k) set" where
  "slots w = entries (tw_buckets w) \<union> set (tw_overflow w)"

text \<open>
  Every bucket entry lies within one rotation of \<open>drained\<close>, in the bucket of its second: entries
  a full rotation apart never meet.
\<close>

definition buckets_ok :: "nat \<Rightarrow> (nat \<times> 'k) list list \<Rightarrow> bool" where
  "buckets_ok drained buckets \<longleftrightarrow>
     length buckets = WHEEL_BUCKETS
     \<and> (\<forall>b < WHEEL_BUCKETS. \<forall>(s, k) \<in> set (buckets ! b).
          s mod WHEEL_BUCKETS = b \<and> drained \<le> s \<and> s < drained + WHEEL_BUCKETS)"

definition wheel_ok :: "'k timer_wheel \<Rightarrow> bool" where
  "wheel_ok w \<longleftrightarrow>
     buckets_ok (tw_drained w) (tw_buckets w) \<and> (\<forall>(s, k) \<in> set (tw_overflow w). tw_drained w \<le> s)"

definition entries_except :: "nat \<Rightarrow> (nat \<times> 'k) list list \<Rightarrow> (nat \<times> 'k) set" where
  "entries_except i buckets = {e. \<exists>b < length buckets. b \<noteq> i \<and> e \<in> set (buckets ! b)}"

lemma entries_at: "i < length buckets \<Longrightarrow> entries buckets = set (buckets ! i) \<union> entries_except i buckets"
  unfolding entries_def entries_except_def by blast

lemma entries_update:
  "i < length buckets \<Longrightarrow> entries (buckets[i := es]) = set es \<union> entries_except i buckets"
proof -
  have "entries_except i (buckets[i := es]) = entries_except i buckets"
    unfolding entries_except_def by (metis (lifting) length_list_update nth_list_update_neq)
  then show "i < length buckets \<Longrightarrow> ?thesis" using entries_at [of i "buckets[i := es]"] by simp
qed

lemma bucket_at: "s mod WHEEL_BUCKETS < WHEEL_BUCKETS"
  by (simp add: WHEEL_BUCKETS_def)

lemma buckets_ok_push:
  assumes "buckets_ok drained buckets" and "drained \<le> s" and "s < drained + WHEEL_BUCKETS"
  shows "buckets_ok drained (bucket_push (s, k) buckets)"
    and "entries (bucket_push (s, k) buckets) = insert (s, k) (entries buckets)"
proof -
  have len: "length buckets = WHEEL_BUCKETS" using assms(1) by (simp add: buckets_ok_def)
  have nth: "bucket_push (s, k) buckets ! b =
      (if b = s mod WHEEL_BUCKETS then buckets ! b @ [(s, k)] else buckets ! b)" for b
    using bucket_at [of s] len by (simp add: bucket_push_def nth_list_update)
  show "buckets_ok drained (bucket_push (s, k) buckets)"
    using assms by (auto simp: buckets_ok_def nth split: if_splits) (simp_all add: bucket_push_def)
  show "entries (bucket_push (s, k) buckets) = insert (s, k) (entries buckets)"
    using bucket_at [of s] len entries_at [of "s mod WHEEL_BUCKETS" buckets]
    by (simp add: bucket_push_def entries_update)
qed

lemma sift_overflow:
  assumes "buckets_ok drained buckets" and "\<forall>(s, k) \<in> set overflow. drained \<le> s"
    and "sift_overflow horizon drained overflow buckets surfaced = (overflow', buckets', surfaced')"
  shows "buckets_ok drained buckets'
    \<and> overflow' = filter (\<lambda>(s, k). horizon < s \<and> drained + WHEEL_BUCKETS \<le> s) overflow
    \<and> entries buckets' = entries buckets \<union> {(s, k) \<in> set overflow. horizon < s \<and> s < drained + WHEEL_BUCKETS}
    \<and> set surfaced' = set surfaced \<union> {k. \<exists>s \<le> horizon. (s, k) \<in> set overflow}"
  using assms
proof (induction horizon drained overflow buckets surfaced arbitrary: overflow' buckets' surfaced'
    rule: sift_overflow.induct)
  case (2 horizon drained second entry overflow buckets surfaced)
  have ok: "buckets_ok drained buckets" "drained \<le> second" "\<forall>(s, k) \<in> set overflow. drained \<le> s"
    using "2.prems" by auto
  consider (due) "second \<le> horizon" | (near) "horizon < second" "second < drained + WHEEL_BUCKETS"
    | (far) "horizon < second" "drained + WHEEL_BUCKETS \<le> second" by linarith
  then show ?case
  proof cases
    case due
    then have "sift_overflow horizon drained overflow buckets (surfaced @ [entry]) = (overflow', buckets', surfaced')"
      using "2.prems"(3) by simp
    from "2.IH"(1) [OF due ok(1,3) this] due show ?thesis by auto
  next
    case near
    then have run: "sift_overflow horizon drained overflow (bucket_push (second, entry) buckets) surfaced
        = (overflow', buckets', surfaced')"
      using "2.prems"(3) by simp
    note push = buckets_ok_push [OF ok(1,2) near(2), of entry]
    from near have "\<not> second \<le> horizon" by simp
    from "2.IH"(2) [OF this near(2) push(1) ok(3) run] near show ?thesis by (auto simp: push(2))
  next
    case far
    then have guards: "\<not> second \<le> horizon" "\<not> second < drained + WHEEL_BUCKETS" by simp_all
    obtain kept where run: "sift_overflow horizon drained overflow buckets surfaced = (kept, buckets', surfaced')"
      "overflow' = (second, entry) # kept"
      using "2.prems"(3) guards by (auto split: prod.splits)
    from "2.IH"(3) [OF guards ok(1,3) run(1)] far run(2) show ?thesis by auto
  qed
qed simp

lemma drain_bucket_due:
  "\<forall>(s, k) \<in> set es. s \<le> horizon \<Longrightarrow> drain_bucket horizon es buckets surfaced = (buckets, surfaced @ map snd es)"
  by (induction horizon es buckets surfaced rule: drain_bucket.induct) auto

text \<open>The bucket of the second being drained holds that second only.\<close>

lemma drained_bucket:
  assumes "buckets_ok drained buckets" and "(s, k) \<in> set (buckets ! (drained mod WHEEL_BUCKETS))"
  shows "s = drained"
proof -
  have "s mod WHEEL_BUCKETS = drained mod WHEEL_BUCKETS" "drained \<le> s" "s < drained + WHEEL_BUCKETS"
    using assms bucket_at [of drained] by (auto simp: buckets_ok_def)
  then have "(s - drained) mod WHEEL_BUCKETS = 0" "s - drained < WHEEL_BUCKETS"
    by (auto simp: mod_eq_dvd_iff_nat)
  with \<open>drained \<le> s\<close> show ?thesis by simp
qed

lemma buckets_ok_clear:
  assumes "buckets_ok drained buckets"
  shows "buckets_ok (Suc drained) (buckets[drained mod WHEEL_BUCKETS := []])"
    and "entries buckets = entries (buckets[drained mod WHEEL_BUCKETS := []])
           \<union> set (buckets ! (drained mod WHEEL_BUCKETS))"
proof -
  define at where "at = drained mod WHEEL_BUCKETS"
  have len: "length buckets = WHEEL_BUCKETS" and at: "at < length buckets"
    using assms bucket_at [of drained] by (simp_all add: buckets_ok_def at_def)
  have "s mod WHEEL_BUCKETS = b \<and> Suc drained \<le> s \<and> s < Suc drained + WHEEL_BUCKETS"
    if "b < WHEEL_BUCKETS" "(s, k) \<in> set (buckets[at := []] ! b)" for b s k
  proof -
    from that(2) at have "b \<noteq> at" "(s, k) \<in> set (buckets ! b)" by (auto simp: nth_list_update split: if_splits)
    with that(1) assms have "s mod WHEEL_BUCKETS = b" "drained \<le> s" "s < drained + WHEEL_BUCKETS"
      by (auto simp: buckets_ok_def)
    moreover with \<open>b \<noteq> at\<close> have "s \<noteq> drained" by (metis at_def)
    ultimately show ?thesis by simp
  qed
  then have "buckets_ok (Suc drained) (buckets[at := []])"
    unfolding buckets_ok_def using len by (intro conjI allI impI ballI) auto
  then show "buckets_ok (Suc drained) (buckets[drained mod WHEEL_BUCKETS := []])" by (simp only: at_def)
  have "entries buckets = entries (buckets[at := []]) \<union> set (buckets ! at)"
    using entries_at [OF at] entries_update [OF at, of "[]"] by auto
  then show "entries buckets = entries (buckets[drained mod WHEEL_BUCKETS := []])
      \<union> set (buckets ! (drained mod WHEEL_BUCKETS))"
    by (simp only: at_def)
qed

lemma drain_wheel:
  assumes "buckets_ok drained buckets"
    and "drain_wheel horizon drained buckets surfaced = (drained', buckets', surfaced')"
  shows "drained' = max drained (Suc horizon) \<and> buckets_ok drained' buckets'
    \<and> entries buckets' = {(s, k) \<in> entries buckets. horizon < s}
    \<and> set surfaced' = set surfaced \<union> {k. \<exists>s \<le> horizon. (s, k) \<in> entries buckets}"
  using assms
proof (induction horizon drained buckets surfaced rule: drain_wheel.induct)
  case (1 horizon drained buckets surfaced)
  show ?case
  proof (cases "drained \<le> horizon")
    case True
    let ?at = "drained mod WHEEL_BUCKETS"
    let ?due = "buckets ! ?at" and ?rest = "buckets[?at := []]"
    have due: "\<forall>(s, k) \<in> set ?due. s = drained" using drained_bucket [OF "1.prems"(1)] by auto
    then have step: "drain_bucket horizon ?due ?rest surfaced = (?rest, surfaced @ map snd ?due)"
      using True by (intro drain_bucket_due) auto
    then have run: "drain_wheel horizon (Suc drained) ?rest (surfaced @ map snd ?due) = (drained', buckets', surfaced')"
      using "1.prems"(2) True by (simp add: drain_wheel.simps [of horizon drained] Let_def)
    have rec: "drained' = max (Suc drained) (Suc horizon)" "buckets_ok drained' buckets'"
      "entries buckets' = {(s, k) \<in> entries ?rest. horizon < s}"
      "set surfaced' = set (surfaced @ map snd ?due) \<union> {k. \<exists>s \<le> horizon. (s, k) \<in> entries ?rest}"
      using "1.IH" [OF True refl step [symmetric] refl buckets_ok_clear(1) [OF "1.prems"(1)] run] by auto
    have kept: "horizon < s \<Longrightarrow> (s, k) \<notin> set ?due" for s k using due True by force
    have out: "k \<in> snd ` set ?due \<longleftrightarrow> (\<exists>s \<le> horizon. (s, k) \<in> set ?due)" for k
      using due True by force
    have "entries buckets' = {(s, k) \<in> entries buckets. horizon < s}"
      using rec(3) kept unfolding buckets_ok_clear(2) [OF "1.prems"(1)] by auto
    moreover have "set surfaced' = set surfaced \<union> {k. \<exists>s \<le> horizon. (s, k) \<in> entries buckets}"
      unfolding rec(4) buckets_ok_clear(2) [OF "1.prems"(1)] using out by (simp add: set_eq_iff) blast
    ultimately show ?thesis using rec(1,2) True by simp
  next
    case False
    moreover have "horizon < s" if "(s, k) \<in> entries buckets" for s k
      using that "1.prems"(1) False by (fastforce simp: entries_def buckets_ok_def)
    ultimately show ?thesis
      using "1.prems" by (fastforce simp: drain_wheel.simps [of horizon drained])
  qed
qed

lemma take_due:
  assumes "wheel_ok w" and "take_due now w = (surfaced, w')"
  shows "wheel_ok w'" and "tw_epoch w' = tw_epoch w"
    and "tw_drained w' = max (tw_drained w) (Suc (wheel_second w now))"
    and "slots w' = {(s, k) \<in> slots w. wheel_second w now < s}"
    and "set surfaced = {k. \<exists>s \<le> wheel_second w now. (s, k) \<in> slots w}"
    and "tw_overflow w' = filter (\<lambda>(s, k). wheel_second w now < s \<and> tw_drained w + WHEEL_BUCKETS \<le> s) (tw_overflow w)"
    and "entries (tw_buckets w') = {(s, k) \<in> entries (tw_buckets w). wheel_second w now < s}
           \<union> {(s, k) \<in> set (tw_overflow w). wheel_second w now < s \<and> s < tw_drained w + WHEEL_BUCKETS}"
proof -
  let ?h = "wheel_second w now" and ?d = "tw_drained w"
  obtain overflow buckets out where sift:
    "sift_overflow ?h ?d (tw_overflow w) (tw_buckets w) [] = (overflow, buckets, out)"
    by (metis prod.exhaust)
  obtain drained buckets' out' where drain: "drain_wheel ?h ?d buckets out = (drained, buckets', out')"
    by (metis prod.exhaust)
  have w': "w' = w\<lparr>tw_buckets := buckets', tw_overflow := overflow, tw_drained := drained\<rparr>" "surfaced = out'"
    using assms(2) by (simp_all add: take_due_def sift drain)
  have ok: "buckets_ok ?d (tw_buckets w)" "\<forall>(s, k) \<in> set (tw_overflow w). ?d \<le> s"
    using assms(1) by (simp_all add: wheel_ok_def)
  note one = sift_overflow [OF ok sift]
  note two = drain_wheel [OF conjunct1 [OF one] drain]
  show "tw_epoch w' = tw_epoch w" by (simp add: w')
  show "tw_drained w' = max ?d (Suc ?h)" using two by (simp add: w')
  show "tw_overflow w' = filter (\<lambda>(s, k). ?h < s \<and> ?d + WHEEL_BUCKETS \<le> s) (tw_overflow w)"
    using one by (simp add: w')
  show "entries (tw_buckets w') = {(s, k) \<in> entries (tw_buckets w). ?h < s}
      \<union> {(s, k) \<in> set (tw_overflow w). ?h < s \<and> s < ?d + WHEEL_BUCKETS}"
    using one two by (auto simp: w')
  show "wheel_ok w'" using one two ok by (auto simp: wheel_ok_def w')
  show "slots w' = {(s, k) \<in> slots w. ?h < s}"
    using one two by (auto simp: slots_def w')
  show "set surfaced = {k. \<exists>s \<le> ?h. (s, k) \<in> slots w}"
    using one two by (auto simp: slots_def w')
qed

lemma wheel_ok_new [simp]: "wheel_ok (wheel_new epoch)" "slots (wheel_new epoch) = {}"
  by (simp_all add: wheel_ok_def wheel_new_def buckets_ok_def slots_def entries_def)

lemma wheel_insert:
  assumes "wheel_ok w"
  shows "wheel_ok (wheel_insert d k w)"
    and "slots (wheel_insert d k w) = insert (max (wheel_second w d) (tw_drained w), k) (slots w)"
    and "tw_drained (wheel_insert d k w) = tw_drained w" and "tw_epoch (wheel_insert d k w) = tw_epoch w"
proof -
  define s where "s = max (wheel_second w d) (tw_drained w)"
  have ok: "buckets_ok (tw_drained w) (tw_buckets w)" "tw_drained w \<le> s"
    using assms by (simp_all add: wheel_ok_def s_def)
  show "wheel_ok (wheel_insert d k w)"
    using assms ok buckets_ok_push(1) [OF ok, of k]
    by (simp add: wheel_insert_def s_def [symmetric] wheel_ok_def not_le)
  show "slots (wheel_insert d k w) = insert (max (wheel_second w d) (tw_drained w), k) (slots w)"
    using buckets_ok_push(2) [OF ok, of k]
    by (simp add: wheel_insert_def s_def [symmetric] slots_def not_le)
qed (simp_all add: wheel_insert_def Let_def)

lemma wheel_second_cong: "tw_epoch w' = tw_epoch w \<Longrightarrow> wheel_second w' = wheel_second w"
  by (simp add: wheel_second_def fun_eq_iff)

lemma wheel_second_mono: "d \<le> d' \<Longrightarrow> wheel_second w d \<le> wheel_second w d'"
  unfolding wheel_second_def as_secs_def by (intro min.mono div_le_mono diff_le_mono) auto

section \<open>The table is consistent\<close>

definition ft_ok :: "('k, 'v) udp_flow_table \<Rightarrow> bool" where
  "ft_ok t \<longleftrightarrow>
     hm_ok (ft_flows t) \<and> wheel_ok (ft_wheel t) \<and> length (ft_flows t) \<le> ft_ceiling t
     \<and> (\<forall>k e. hm_get (ft_flows t) k = Some e \<longrightarrow> (\<exists>s. (s, k) \<in> slots (ft_wheel t)))"

definition ft_deadline :: "('k, 'v) udp_flow_table \<Rightarrow> 'k \<Rightarrow> instant option" where
  "ft_deadline t k = map_option es_deadline (hm_get (ft_flows t) k)"

definition flow_values :: "('k, 'v) udp_flow_table \<Rightarrow> 'v multiset" where
  "flow_values t = mset (map (es_value \<circ> snd) (ft_flows t))"

lemma mset_hm_remove:
  "hm_ok m \<Longrightarrow> hm_get m k = Some v \<Longrightarrow> add_mset (f v) (mset (map (f \<circ> snd) (hm_remove k m))) = mset (map (f \<circ> snd) m)"
proof (induction m)
  case (Cons a m)
  obtain k' v' where a: "a = (k', v')" by (cases a)
  show ?case
  proof (cases "k' = k")
    case True
    with Cons.prems(1) have "k \<notin> fst ` set m" by (simp add: a hm_ok_def)
    then have "hm_remove k m = m" by (induction m) auto
    with Cons.prems(2) True show ?thesis by (simp add: a)
  next
    case False
    then show ?thesis using Cons by (auto simp: a hm_ok_def)
  qed
qed simp

text \<open>
  What the loop of \<open>expire\<close> does with the keys the wheel surfaced: due flows leave, the others
  get a new slot, and every value is either returned or kept.
\<close>

definition refiled :: "instant \<Rightarrow> 'k set \<Rightarrow> ('k, 'v) udp_flow_table \<Rightarrow> (nat \<times> 'k) set" where
  "refiled now ks t =
     {(max (wheel_second (ft_wheel t) (es_deadline e)) (tw_drained (ft_wheel t)), k) | k e.
        k \<in> ks \<and> hm_get (ft_flows t) k = Some e \<and> now < es_deadline e}"

definition survivors :: "instant \<Rightarrow> 'k set \<Rightarrow> ('k, 'v) udp_flow_table \<Rightarrow> 'k \<Rightarrow> 'v entry_state option" where
  "survivors now ks t k =
     (case hm_get (ft_flows t) k of
        Some e \<Rightarrow> if k \<in> ks \<and> es_deadline e \<le> now then None else Some e
      | None \<Rightarrow> None)"

lemma survivors_Some:
  "survivors now ks t k = Some e \<longleftrightarrow> hm_get (ft_flows t) k = Some e \<and> (k \<in> ks \<longrightarrow> now < es_deadline e)"
  by (auto simp: survivors_def split: option.splits)

lemma expire_flow:
  assumes "hm_ok (ft_flows t)" and "wheel_ok (ft_wheel t)" and "expire_flow now k (out, t) = (out', t')"
  shows "hm_ok (ft_flows t')" and "wheel_ok (ft_wheel t')"
    and "tw_epoch (ft_wheel t') = tw_epoch (ft_wheel t)" and "tw_drained (ft_wheel t') = tw_drained (ft_wheel t)"
    and "ft_idle_timeout t' = ft_idle_timeout t" and "ft_ceiling t' = ft_ceiling t"
    and "hm_get (ft_flows t') = survivors now {k} t"
    and "slots (ft_wheel t') = slots (ft_wheel t) \<union> refiled now {k} t"
    and "mset out' + flow_values t' = mset out + flow_values t"
    and "length (ft_flows t') \<le> length (ft_flows t)"
  using assms mset_hm_remove [of "ft_flows t" k _ es_value]
  by (auto simp: expire_flow_def survivors_def refiled_def flow_values_def wheel_insert fun_eq_iff
      length_hm_remove split: option.splits if_splits)

lemma expire_flows:
  assumes "hm_ok (ft_flows t)" and "wheel_ok (ft_wheel t)" and "fold (expire_flow now) ks (out, t) = (out', t')"
  shows "hm_ok (ft_flows t') \<and> wheel_ok (ft_wheel t')
    \<and> tw_epoch (ft_wheel t') = tw_epoch (ft_wheel t) \<and> tw_drained (ft_wheel t') = tw_drained (ft_wheel t)
    \<and> ft_idle_timeout t' = ft_idle_timeout t \<and> ft_ceiling t' = ft_ceiling t
    \<and> hm_get (ft_flows t') = survivors now (set ks) t
    \<and> slots (ft_wheel t') = slots (ft_wheel t) \<union> refiled now (set ks) t
    \<and> mset out' + flow_values t' = mset out + flow_values t
    \<and> length (ft_flows t') \<le> length (ft_flows t)"
  using assms
proof (induction ks arbitrary: out t)
  case Nil
  then show ?case by (auto simp: survivors_def refiled_def fun_eq_iff split: option.splits)
next
  case (Cons k ks)
  obtain out1 t1 where step: "expire_flow now k (out, t) = (out1, t1)" by (cases "expire_flow now k (out, t)")
  note one = expire_flow [OF Cons.prems(1,2) step]
  have run: "fold (expire_flow now) ks (out1, t1) = (out', t')" using Cons.prems(3) step by simp
  note rest = Cons.IH [OF one(1,2) run]
  have "survivors now (set ks) t1 = survivors now (set (k # ks)) t"
    unfolding survivors_def [of now "set ks"] one(7) by (auto simp: survivors_def fun_eq_iff split: option.splits)
  moreover have "refiled now {k} t \<union> refiled now (set ks) t1 = refiled now (set (k # ks)) t"
    unfolding refiled_def [of now "set ks"] one(4,7) wheel_second_cong [OF one(3)]
    by (auto simp: refiled_def survivors_def split: option.splits if_splits)
  ultimately show ?case using rest one by (simp add: Un_assoc)
qed

lemma ft_expire:
  assumes "ft_ok t" and "ft_expire now t = (out, t')"
  shows "ft_ok t'"
    and "ft_idle_timeout t' = ft_idle_timeout t" and "tw_epoch (ft_wheel t') = tw_epoch (ft_wheel t)"
    and "tw_drained (ft_wheel t') = max (tw_drained (ft_wheel t)) (Suc (wheel_second (ft_wheel t) now))"
    and "hm_get (ft_flows t') =
           survivors now {k. \<exists>s \<le> wheel_second (ft_wheel t) now. (s, k) \<in> slots (ft_wheel t)} t"
    and "slots (ft_wheel t') =
           {(s, k) \<in> slots (ft_wheel t). wheel_second (ft_wheel t) now < s}
           \<union> {(max (wheel_second (ft_wheel t) (es_deadline e)) (tw_drained (ft_wheel t')), k) | k e.
                (\<exists>s \<le> wheel_second (ft_wheel t) now. (s, k) \<in> slots (ft_wheel t))
                \<and> hm_get (ft_flows t) k = Some e \<and> now < es_deadline e}"
    and "mset out + flow_values t' = flow_values t" and "ft_ceiling t' = ft_ceiling t"
proof -
  let ?due = "{k. \<exists>s \<le> wheel_second (ft_wheel t) now. (s, k) \<in> slots (ft_wheel t)}"
  obtain surfaced w where due: "take_due now (ft_wheel t) = (surfaced, w)" by (cases "take_due now (ft_wheel t)")
  define t1 where "t1 = t\<lparr>ft_wheel := w\<rparr>"
  have ok: "hm_ok (ft_flows t)" "wheel_ok (ft_wheel t)" "length (ft_flows t) \<le> ft_ceiling t"
    "\<And>k e. hm_get (ft_flows t) k = Some e \<Longrightarrow> \<exists>s. (s, k) \<in> slots (ft_wheel t)"
    using assms(1) by (simp_all add: ft_ok_def)
  note wheel = take_due [OF ok(2) due]
  have fold: "fold (expire_flow now) surfaced ([], t1) = (out, t')"
    using assms(2) by (simp add: ft_expire_def due t1_def)
  have run: "hm_ok (ft_flows t') \<and> wheel_ok (ft_wheel t')
    \<and> tw_epoch (ft_wheel t') = tw_epoch w \<and> tw_drained (ft_wheel t') = tw_drained w
    \<and> ft_idle_timeout t' = ft_idle_timeout t \<and> ft_ceiling t' = ft_ceiling t
    \<and> hm_get (ft_flows t') = survivors now ?due t
    \<and> slots (ft_wheel t') = slots w \<union> refiled now ?due t1
    \<and> mset out + flow_values t' = flow_values t \<and> length (ft_flows t') \<le> length (ft_flows t)"
    using expire_flows [OF _ _ fold] ok(1) wheel(1)
    by (simp add: t1_def wheel(5) survivors_def flow_values_def fun_eq_iff)
  then show "ft_idle_timeout t' = ft_idle_timeout t" and "tw_epoch (ft_wheel t') = tw_epoch (ft_wheel t)"
    and "tw_drained (ft_wheel t') = max (tw_drained (ft_wheel t)) (Suc (wheel_second (ft_wheel t) now))"
    and got: "hm_get (ft_flows t') = survivors now ?due t" and "mset out + flow_values t' = flow_values t"
    and "ft_ceiling t' = ft_ceiling t"
    using wheel(2,3) by simp_all
  have refiled: "refiled now ?due t1 = {(max (wheel_second (ft_wheel t) (es_deadline e)) (tw_drained w), k) | k e.
      k \<in> ?due \<and> hm_get (ft_flows t) k = Some e \<and> now < es_deadline e}"
    by (simp add: refiled_def t1_def wheel_second_cong [OF wheel(2)])
  show slots': "slots (ft_wheel t') =
           {(s, k) \<in> slots (ft_wheel t). wheel_second (ft_wheel t) now < s}
           \<union> {(max (wheel_second (ft_wheel t) (es_deadline e)) (tw_drained (ft_wheel t')), k) | k e.
                (\<exists>s \<le> wheel_second (ft_wheel t) now. (s, k) \<in> slots (ft_wheel t))
                \<and> hm_get (ft_flows t) k = Some e \<and> now < es_deadline e}"
    using run refiled wheel(4) by simp
  have "\<exists>s. (s, k) \<in> slots (ft_wheel t')" if "hm_get (ft_flows t') k = Some e" for k e
  proof -
    have e: "hm_get (ft_flows t) k = Some e" "k \<in> ?due \<longrightarrow> now < es_deadline e"
      using that unfolding got survivors_Some by simp_all
    from ok(4) [OF e(1)] obtain s where "(s, k) \<in> slots (ft_wheel t)" by blast
    then show ?thesis
      using e unfolding slots' by (cases "k \<in> ?due") (auto, (metis not_le)+)
  qed
  with run ok(3) show "ft_ok t'" by (simp add: ft_ok_def)
qed

lemma ft_new_ok: "ft_new idle n epoch = Inr t \<Longrightarrow> ft_ok t"
  by (auto simp: ft_new_def ft_ok_def split: if_splits)

lemma ft_open:
  assumes "ft_ok t" and "ft_get_or_insert_with k now v t = Inr t'"
  shows "ft_ok t'"
  using assms
  by (auto simp: ft_ok_def ft_get_or_insert_with_def Let_def wheel_insert length_hm_insert
      split: option.splits if_splits)

lemma ft_put_ok: "ft_ok t \<Longrightarrow> ft_ok (ft_put k v t)"
  by (auto simp: ft_ok_def ft_put_def length_hm_insert split: option.splits)

lemma retain_entries:
  assumes "retain_entries keep es s = (es', s')"
  shows "length es' \<le> length es \<and> fst ` set es' \<subseteq> fst ` set es \<and> (hm_ok es \<longrightarrow> hm_ok es')
    \<and> (hm_ok es \<longrightarrow> (\<forall>k e'. hm_get es' k = Some e' \<longrightarrow>
         (\<exists>e. hm_get es k = Some e \<and> es_deadline e' = es_deadline e)))"
  using assms
proof (induction keep es s arbitrary: es' s' rule: retain_entries.induct)
  case (2 keep k e es s)
  obtain kept v s1 where keep: "keep k (es_value e) s = (kept, v, s1)" by (metis prod.exhaust)
  obtain es1 s2 where rest: "retain_entries keep es s1 = (es1, s2)" by (metis prod.exhaust)
  have es': "es' = (if kept then (k, e\<lparr>es_value := v\<rparr>) # es1 else es1)"
    using "2.prems" by (simp add: keep rest)
  note ih = "2.IH" [OF keep [symmetric] refl refl rest]
  show ?case
    using ih unfolding es' by (auto simp: hm_ok_def hm_get_None_iff) (force simp: map_of_eq_None_iff dest: map_of_SomeD)+
qed (simp add: hm_ok_def)

lemma ft_retain_ok:
  assumes "ft_ok t" and "ft_retain keep t s = (n, t', s')"
  shows "ft_ok t'" and "ft_wheel t' = ft_wheel t" and "ft_idle_timeout t' = ft_idle_timeout t"
    and "\<And>k d. ft_deadline t' k = Some d \<Longrightarrow> ft_deadline t k = Some d"
proof -
  obtain es' where run: "retain_entries keep (ft_flows t) s = (es', s')" "t' = t\<lparr>ft_flows := es'\<rparr>"
    using assms(2) by (auto simp: ft_retain_def split: prod.splits)
  note kept = retain_entries [OF run(1)]
  show "ft_ok t'"
    using assms(1) kept unfolding ft_ok_def run(2) by force
  show "ft_wheel t' = ft_wheel t" "ft_idle_timeout t' = ft_idle_timeout t" by (simp_all add: run(2))
  show "ft_deadline t k = Some d" if "ft_deadline t' k = Some d" for k d
    using that kept assms(1) by (force simp: ft_deadline_def run(2) ft_ok_def)
qed

section \<open>No flow leaves early, none overstays by a second\<close>

interpretation ft: lazy_expiry ft_deadline "\<lambda>now t. snd (ft_expire now t)" ft_ok
proof
  fix t :: "('a, 'b) udp_flow_table" and now :: instant and k d
  assume ok: "ft_ok t"
  obtain out t' where run: "ft_expire now t = (out, t')" by (cases "ft_expire now t")
  note e = ft_expire [OF ok run]
  show "ft_ok (snd (ft_expire now t))" using e(1) run by simp
  show "ft_deadline (snd (ft_expire now t)) k = Some d" if "ft_deadline t k = Some d" "now < d"
    using that by (auto simp: run ft_deadline_def e(5) survivors_Some)
  show "ft_deadline t k = Some d" if "ft_deadline (snd (ft_expire now t)) k = Some d"
    using that by (auto simp: run ft_deadline_def e(5) survivors_Some)
qed

text \<open>
  The steps of a table owned by a state \<open>s\<close>, with the instant of the last call: the clock of the
  callers is monotonic.
\<close>

inductive ft_step ::
    "instant \<times> 's \<times> ('k, 'v) udp_flow_table \<Rightarrow> instant \<times> 's \<times> ('k, 'v) udp_flow_table \<Rightarrow> bool" where
  opens: "t \<le> now \<Longrightarrow> ft_get_or_insert_with k now v ft = Inr ft' \<Longrightarrow> ft_step (t, s, ft) (now, s, ft')"
| expires: "t \<le> now \<Longrightarrow> ft_step (t, s, ft) (now, s, snd (ft_expire now ft))"
| writes: "ft_step (t, s, ft) (t, s, ft_put k v ft)"
| retains: "ft_retain keep ft s = (n, ft', s') \<Longrightarrow> ft_step (t, s, ft) (t, s', ft')"

definition ft_timely :: "instant \<Rightarrow> ('k, 'v) udp_flow_table \<Rightarrow> bool" where
  "ft_timely t ft \<longleftrightarrow>
     ft_ok ft \<and> tw_drained (ft_wheel ft) \<le> Suc (wheel_second (ft_wheel ft) t)
     \<and> (\<forall>k d. ft_deadline ft k = Some d \<longrightarrow>
          d \<le> t + ft_idle_timeout ft
          \<and> (\<exists>s \<le> Suc (wheel_second (ft_wheel ft) d). (s, k) \<in> slots (ft_wheel ft)))"

lemma ft_timelyD:
  assumes "ft_timely t ft" and "ft_deadline ft k = Some d"
  obtains s where "d \<le> t + ft_idle_timeout ft" "s \<le> Suc (wheel_second (ft_wheel ft) d)" "(s, k) \<in> slots (ft_wheel ft)"
  using assms by (auto simp: ft_timely_def)

lemma ft_open_deadline:
  "ft_get_or_insert_with k now v ft = Inr ft' \<Longrightarrow> ft_deadline ft' = (ft_deadline ft)(k \<mapsto> now + ft_idle_timeout ft)"
  by (auto simp: ft_get_or_insert_with_def Let_def instant_add_def ft_deadline_def fun_eq_iff
      split: option.splits if_splits)

lemma flow_open_get:
  "ft_get_or_insert_with k now v ft = Inr ft' \<Longrightarrow>
   ft_get ft' = (ft_get ft)(k \<mapsto> (case ft_get ft k of None \<Rightarrow> v | Some v' \<Rightarrow> v'))"
  by (auto simp: ft_get_or_insert_with_def Let_def ft_get_def fun_eq_iff split: option.splits if_splits)

lemma ft_put_deadline: "ft_deadline (ft_put k v ft) = ft_deadline ft"
  by (auto simp: ft_put_def ft_deadline_def fun_eq_iff split: option.splits)

lemma ft_timely_open:
  assumes "ft_timely t ft" and "t \<le> now" and "ft_get_or_insert_with k now v ft = Inr ft'"
  shows "ft_timely now ft'"
proof -
  let ?w = "ft_wheel ft" and ?d = "now + ft_idle_timeout ft"
  have ok: "ft_ok ft" "wheel_ok ?w" using assms(1) by (simp_all add: ft_timely_def ft_ok_def)
  have mono: "wheel_second ?w t \<le> wheel_second ?w now" "wheel_second ?w now \<le> wheel_second ?w ?d"
    using assms(2) by (simp_all add: wheel_second_mono)
  have drained: "tw_drained ?w \<le> Suc (wheel_second ?w now)"
    using assms(1) mono(1) by (simp add: ft_timely_def)
  have same: "ft_idle_timeout ft' = ft_idle_timeout ft" "tw_drained (ft_wheel ft') = tw_drained ?w"
      "wheel_second (ft_wheel ft') = wheel_second ?w"
    and slots: "slots ?w \<subseteq> slots (ft_wheel ft')"
      "ft_deadline ft k = None \<Longrightarrow> (max (wheel_second ?w ?d) (tw_drained ?w), k) \<in> slots (ft_wheel ft')"
    using assms(3)
    by (auto simp: ft_get_or_insert_with_def Let_def instant_add_def wheel_insert [OF ok(2)] ft_deadline_def
        wheel_second_def split: option.splits if_splits)
  note got = ft_open_deadline [OF assms(3)]
  have "d \<le> now + ft_idle_timeout ft \<and> (\<exists>s \<le> Suc (wheel_second ?w d). (s, k') \<in> slots (ft_wheel ft'))"
    if "ft_deadline ft' k' = Some d" for k' d
  proof (cases "ft_deadline ft k'")
    case None
    with that got have "k' = k" "d = ?d" by (auto split: if_splits)
    with None slots(2) drained mono show ?thesis by (auto intro!: exI [of _ "max (wheel_second ?w ?d) (tw_drained ?w)"])
  next
    case (Some d0)
    with assms(1) obtain s where s: "d0 \<le> t + ft_idle_timeout ft" "s \<le> Suc (wheel_second ?w d0)" "(s, k') \<in> slots ?w"
      by (rule ft_timelyD)
    have "d0 \<le> d \<and> d \<le> ?d" using that got Some s(1) assms(2) by (auto split: if_splits)
    with s slots(1) show ?thesis by (meson Suc_le_mono le_trans subsetD wheel_second_mono)
  qed
  then show ?thesis
    using ft_open [OF ok(1) assms(3)] drained by (simp add: ft_timely_def same)
qed

lemma ft_timely_expire:
  assumes "ft_timely t ft" and "t \<le> now" and "ft_expire now ft = (out, ft')"
  shows "ft_timely now ft'"
    and "ft_deadline ft' k = Some d \<Longrightarrow> wheel_second (ft_wheel ft) now \<le> wheel_second (ft_wheel ft) d"
proof -
  let ?w = "ft_wheel ft" and ?due = "{k. \<exists>s \<le> wheel_second (ft_wheel ft) now. (s, k) \<in> slots (ft_wheel ft)}"
  have ok: "ft_ok ft" using assms(1) by (simp add: ft_timely_def)
  note e = ft_expire [OF ok assms(3)]
  have same: "wheel_second (ft_wheel ft') = wheel_second ?w" using e(3) by (rule wheel_second_cong)
  have drained: "tw_drained (ft_wheel ft') = Suc (wheel_second ?w now)"
    using assms(1) wheel_second_mono [OF assms(2), of ?w] by (simp add: e(4) ft_timely_def)
  have got: "ft_deadline ft k = Some d \<and> (k \<in> ?due \<longrightarrow> now < d)" if "ft_deadline ft' k = Some d" for k d
    using that by (auto simp: ft_deadline_def e(5) survivors_Some)
  have kept: "d \<le> now + ft_idle_timeout ft \<and> (\<exists>s \<le> Suc (wheel_second ?w d). (s, k) \<in> slots (ft_wheel ft'))
      \<and> wheel_second ?w now \<le> wheel_second ?w d"
    if "ft_deadline ft' k = Some d" for k d
  proof -
    note old = got [OF that]
    obtain s where s: "d \<le> t + ft_idle_timeout ft" "s \<le> Suc (wheel_second ?w d)" "(s, k) \<in> slots ?w"
      using assms(1) conjunct1 [OF old] by (rule ft_timelyD)
    show ?thesis
    proof (cases "k \<in> ?due")
      case True
      then have now: "wheel_second ?w now \<le> wheel_second ?w d" using old by (simp add: wheel_second_mono)
      have "(max (wheel_second ?w d) (tw_drained (ft_wheel ft')), k) \<in> slots (ft_wheel ft')"
        using True old unfolding e(6) by (auto simp: ft_deadline_def)
      with now s(1) assms(2) drained show ?thesis
        by (intro conjI exI [of _ "max (wheel_second ?w d) (tw_drained (ft_wheel ft'))"]) auto
    next
      case False
      with s(3) have "wheel_second ?w now < s" by (metis (mono_tags) mem_Collect_eq not_le)
      moreover from this s(3) have "(s, k) \<in> slots (ft_wheel ft')" unfolding e(6) by simp
      ultimately show ?thesis using s assms(2) by auto
    qed
  qed
  then show "ft_timely now ft'" using e(1,2) drained by (simp add: ft_timely_def same)
  show "ft_deadline ft' k = Some d \<Longrightarrow> wheel_second ?w now \<le> wheel_second ?w d" using kept by blast
qed

lemma ft_timely_put: "ft_timely t ft \<Longrightarrow> ft_timely t (ft_put k v ft)"
proof -
  have "ft_wheel (ft_put k v ft) = ft_wheel ft" "ft_idle_timeout (ft_put k v ft) = ft_idle_timeout ft"
    by (auto simp: ft_put_def split: option.splits)
  then show "ft_timely t ft \<Longrightarrow> ?thesis" by (simp add: ft_timely_def ft_put_ok ft_put_deadline)
qed

lemma ft_timely_retain: "ft_timely t ft \<Longrightarrow> ft_retain keep ft s = (n, ft', s') \<Longrightarrow> ft_timely t ft'"
  using ft_retain_ok [of ft keep s n ft' s'] unfolding ft_timely_def by auto

lemma ft_timely_new: "ft_new idle n epoch = Inr ft \<Longrightarrow> ft_timely t ft"
  using ft_new_ok [of idle n epoch ft]
  by (auto simp: ft_timely_def ft_new_def wheel_new_def ft_deadline_def split: if_splits)

text \<open>What holds along every run: the invariant, the configuration, and deadlines after the start.\<close>

definition ft_run_inv :: "instant \<Rightarrow> ('k, 'v) udp_flow_table \<Rightarrow> instant \<Rightarrow> ('k, 'v) udp_flow_table \<Rightarrow> bool" where
  "ft_run_inv t0 ft0 t ft \<longleftrightarrow>
     ft_timely t ft \<and> t0 \<le> t \<and> (\<forall>k d. ft_deadline ft k = Some d \<longrightarrow> t0 \<le> d)
     \<and> ft_ceiling ft = ft_ceiling ft0 \<and> tw_epoch (ft_wheel ft) = tw_epoch (ft_wheel ft0)"

lemma ft_run_inv_open:
  assumes "ft_run_inv t0 ft0 t ft" and "t \<le> now" and "ft_get_or_insert_with k now v ft = Inr ft'"
  shows "ft_run_inv t0 ft0 now ft'"
proof -
  have "wheel_ok (ft_wheel ft)" using assms(1) by (simp add: ft_run_inv_def ft_timely_def ft_ok_def)
  then have "ft_ceiling ft' = ft_ceiling ft \<and> tw_epoch (ft_wheel ft') = tw_epoch (ft_wheel ft)"
    using assms(3)
    by (auto simp: ft_get_or_insert_with_def Let_def wheel_insert split: option.splits if_splits)
  then show ?thesis
    using assms ft_timely_open [of t ft now k v ft']
    by (auto simp: ft_run_inv_def ft_open_deadline [OF assms(3)] trans_le_add1)
qed

lemma ft_run_inv_expire:
  assumes "ft_run_inv t0 ft0 t ft" and "t \<le> now"
  shows "ft_run_inv t0 ft0 now (snd (ft_expire now ft))"
proof -
  obtain out ft' where run: "ft_expire now ft = (out, ft')" by (cases "ft_expire now ft")
  have ok: "ft_ok ft" using assms(1) by (simp add: ft_run_inv_def ft_timely_def)
  show ?thesis
    using assms ft_timely_expire(1) [OF _ assms(2) run] ft_expire(3,8) [OF ok run]
      ft.evict_invents_nothing [OF ok, of now]
    by (auto simp: ft_run_inv_def run)
qed

lemma ft_run:
  assumes "ft_step\<^sup>*\<^sup>* (t0, s0, ft0) (t, s, ft)" and "ft_new idle n epoch = Inr ft0"
  shows "ft_run_inv t0 ft0 t ft"
proof -
  have start: "ft_run_inv t0 ft0 t0 ft0"
    using ft_timely_new [OF assms(2)] assms(2)
    by (auto simp: ft_run_inv_def ft_new_def ft_deadline_def split: if_splits)
  have "case y of (t, s, ft) \<Rightarrow> ft_run_inv t0 ft0 t ft" if "ft_step\<^sup>*\<^sup>* (t0, s0, ft0) y" for y
    using that
  proof (induction rule: rtranclp_induct)
    case (step y z)
    from step(2,3) show ?case
    proof cases
      case (writes t s ft k v)
      with step(3) show ?thesis
        using ft_timely_put [of t ft k v]
        by (auto simp: ft_run_inv_def ft_put_deadline) (auto simp: ft_put_def split: option.splits)
    next
      case (retains keep ft s n ft' s' t)
      then have inv: "ft_run_inv t0 ft0 t ft" using step(3) by simp
      then have ok: "ft_timely t ft" "ft_ok ft" by (simp_all add: ft_run_inv_def ft_timely_def)
      have "ft_ceiling ft' = ft_ceiling ft" using retains by (auto simp: ft_retain_def split: prod.splits)
      then show ?thesis
        using inv ft_timely_retain [OF ok(1) retains(3)] ft_retain_ok(2) [OF ok(2) retains(3)]
          ft_retain_ok(4) [OF ok(2) retains(3)]
        unfolding retains(2) ft_run_inv_def by auto
    qed (use step(3) in \<open>auto intro: ft_run_inv_open ft_run_inv_expire\<close>)
  qed (simp add: start)
  with assms(1) show ?thesis by fastforce
qed

lemma div_le_imp_less:
  assumes "0 < n" and "a div n \<le> b div (n :: nat)"
  shows "a < b + n"
proof -
  have "a < (a div n) * n + n" using dividend_less_div_times [OF assms(1), of a] by simp
  also have "\<dots> \<le> (b div n) * n + n" using assms(2) by simp
  also have "\<dots> \<le> b + n" by simp
  finally show ?thesis .
qed

lemma as_secs_le: "t \<le> instant_max \<Longrightarrow> as_secs (t - e) \<le> 2 ^ 63 - 1"
proof -
  assume "t \<le> instant_max"
  then have "as_secs (t - e) \<le> instant_max div 10 ^ 9"
    unfolding as_secs_def by (intro div_le_mono) simp
  also have "\<dots> = 2 ^ 63 - 1" by (simp add: instant_max_def)
  finally show ?thesis .
qed

lemma wheel_second_secs: "t \<le> instant_max \<Longrightarrow> wheel_second w t = as_secs (t - tw_epoch w)"
  using as_secs_le [of t "tw_epoch w"] by (simp add: wheel_second_def)

lemma second_late:
  assumes "wheel_second w now \<le> wheel_second w d" and "tw_epoch w \<le> d" and "now \<le> instant_max"
  shows "now < d + from_secs 1"
proof -
  have "as_secs (now - tw_epoch w) \<le> as_secs (d - tw_epoch w)"
    using assms(1) unfolding wheel_second_secs [OF assms(3)] by (simp add: wheel_second_def)
  then have "now - tw_epoch w < (d - tw_epoch w) + 10 ^ 9"
    unfolding as_secs_def by (intro div_le_imp_less) simp_all
  with assms(2) show ?thesis by (simp add: from_secs_def)
qed

text \<open>
  C14. Whatever flows a table has opened, refreshed, written, retained or expired on a monotonic
  clock, an expiry pass keeps every flow whose deadline lies ahead, with its deadline, and a flow it
  keeps is less than one second past its deadline; every value is either returned or still live.
\<close>

theorem flow_expiry_window:
  assumes "ft_new idle n epoch = Inr ft0" and "ft_step\<^sup>*\<^sup>* (t0, s0, ft0) (t, s, ft)"
    and "epoch \<le> t0" and "t \<le> now" and "now \<le> instant_max"
    and "ft_expire now ft = (out, ft')"
  shows "(ft_deadline ft k = Some d \<and> now < d \<longrightarrow> ft_deadline ft' k = Some d)
     \<and> (ft_deadline ft' k = Some d \<longrightarrow> ft_deadline ft k = Some d \<and> now < d + from_secs 1)
     \<and> mset out + flow_values ft' = flow_values ft"
proof -
  have inv: "ft_timely t ft" "ft_ok ft" "\<And>k d. ft_deadline ft k = Some d \<Longrightarrow> t0 \<le> d" "tw_epoch (ft_wheel ft) = epoch"
    using ft_run [OF assms(2,1)] assms(1)
    by (auto simp: ft_run_inv_def ft_timely_def ft_new_def wheel_new_def split: if_splits)
  have "now < d + from_secs 1" if "ft_deadline ft' k = Some d"
  proof -
    have "t0 \<le> d" using that ft.evict_invents_nothing [OF inv(2), of now k d] inv(3) assms(6) by simp
    then show ?thesis
      using ft_timely_expire(2) [OF inv(1) assms(4,6) that] second_late [of "ft_wheel ft" now d] inv(4) assms(3,5)
      by simp
  qed
  then show ?thesis
    using ft.evict_keeps [OF inv(2), of k d now] ft.evict_invents_nothing [OF inv(2), of now k d]
      ft_expire(7) [OF inv(2) assms(6)] assms(6)
    by auto
qed

text \<open>
  C30. The table never holds more flows than its ceiling, and every live flow is in the wheel, so an
  expiry pass will look at it.
\<close>

theorem flow_table_filed:
  assumes "ft_new idle n epoch = Inr ft0" and "ft_step\<^sup>*\<^sup>* (t0, s0, ft0) (t, s, ft)"
  shows "ft_len ft \<le> n \<and> (ft_contains ft k \<longrightarrow> (\<exists>s. (s, k) \<in> slots (ft_wheel ft)))"
  using ft_run [OF assms(2,1)] assms(1)
  by (auto simp: ft_run_inv_def ft_timely_def ft_ok_def ft_new_def ft_len_def ft_contains_def hm_contains_def
      split: if_splits)

text \<open>
  Opening or refreshing a flow fails exactly when its deadline leaves the clock or, for a new
  key, when the ceiling is reached. On success only this flow's deadline changes, to a full idle
  timeout from now; a live flow keeps its value, a new one gets the created value.
\<close>

theorem flow_open_iff:
  "case ft_get_or_insert_with k now v ft of
     Inl DeadlineOverflow \<Rightarrow> instant_max < now + ft_idle_timeout ft
   | Inl AtCeiling \<Rightarrow> now + ft_idle_timeout ft \<le> instant_max \<and> \<not> ft_contains ft k \<and> ft_ceiling ft \<le> ft_len ft
   | Inl IdleTimeoutTooShort \<Rightarrow> False
   | Inr ft' \<Rightarrow>
       now + ft_idle_timeout ft \<le> instant_max \<and> (ft_contains ft k \<or> ft_len ft < ft_ceiling ft)
       \<and> ft_deadline ft' = (ft_deadline ft)(k \<mapsto> now + ft_idle_timeout ft)
       \<and> ft_get ft' = (ft_get ft)(k \<mapsto> (case ft_get ft k of None \<Rightarrow> v | Some v' \<Rightarrow> v'))"
  by (auto simp: ft_get_or_insert_with_def instant_add_def ft_contains_def hm_contains_def ft_len_def
      ft_deadline_def ft_get_def fun_eq_iff split: option.splits)

section \<open>The reported deadline\<close>

lemma next_due_overflow:
  assumes "entries (tw_buckets w) = {}" and "length (tw_buckets w) = WHEEL_BUCKETS" and "tw_overflow w \<noteq> []"
  shows "next_due w = Some (tw_drained w + WHEEL_BUCKETS)"
proof -
  have "wheel_bucket w second = []" for second
  proof -
    have "e \<notin> set (wheel_bucket w second)" for e
      using assms(1,2) bucket_at [of second] by (cases e) (auto simp: entries_def wheel_bucket_def)
    then show ?thesis by (metis last_in_set)
  qed
  then have "find (\<lambda>second. wheel_bucket w second \<noteq> []) xs = None" for xs by (induction xs) auto
  with assms(3) show ?thesis by (simp add: next_due_def)
qed

lemma far_seconds:
  assumes "epoch \<le> now" and "from_secs 120 \<le> idle" and "epoch + from_secs 512 \<le> now + idle"
  shows "512 \<le> as_secs (now + idle - epoch)" and "as_secs (now - epoch) < as_secs (now + idle - epoch)"
proof -
  have "from_secs 512 div 10 ^ 9 \<le> as_secs (now + idle - epoch)"
    unfolding as_secs_def using assms(3) by (intro div_le_mono) linarith
  then show "512 \<le> as_secs (now + idle - epoch)" by (simp add: from_secs_def)
  have "(now - epoch + 10 ^ 9) div 10 ^ 9 \<le> as_secs (now + idle - epoch)"
    unfolding as_secs_def using assms(1,2) by (intro div_le_mono) (simp add: from_secs_def)
  then show "as_secs (now - epoch) < as_secs (now + idle - epoch)" by (simp add: as_secs_def)
qed

text \<open>
  C31. The deadline the table reports can be later than a live flow's: a first flow opened so long
  after the table was built that its slot goes to the overflow stays there through an expiry pass at
  the same instant, and the table then asks to be woken more than 512 seconds from now although the
  flow ends after the idle timeout. At the smallest idle timeout, 120 seconds, that is more than 392 seconds late.
\<close>

theorem next_deadline_late:
  assumes "ft_new idle n epoch = Inr ft0" and "0 < n" and "epoch \<le> now"
    and "idle \<le> from_secs 512" and "epoch + from_secs 512 \<le> now + idle" and "now + idle \<le> instant_max"
  shows "\<exists>ft1 out ft2 due. ft_get_or_insert_with k now v ft0 = Inr ft1 \<and> ft_expire now ft1 = (out, ft2)
     \<and> ft_deadline ft2 k = Some (now + idle) \<and> ft_next_deadline ft2 = Some due
     \<and> now + idle < due \<and> now + from_secs 512 < due"
proof -
  define d where "d = now + idle"
  define w0 :: "'a timer_wheel" where "w0 = wheel_new epoch"
  define h s where "h = wheel_second w0 now" and "s = wheel_second w0 d"
  have secs: "h = as_secs (now - epoch)" "s = as_secs (d - epoch)"
    using assms(6) by (simp_all add: h_def s_def d_def wheel_second_secs w0_def wheel_new_def)
  have idle: "from_secs 120 \<le> idle" and ft0: "ft_idle_timeout ft0 = idle" "ft_ceiling ft0 = n"
      "ft_flows ft0 = []" "ft_wheel ft0 = w0"
    using assms(1) by (auto simp: ft_new_def MIN_IDLE_TIMEOUT_def w0_def split: if_splits)
  have far: "512 \<le> s" "h < s"
    unfolding secs d_def using far_seconds [OF assms(3) idle assms(5)] by simp_all
  define w1 where "w1 = w0\<lparr>tw_overflow := [(s, k)]\<rparr>"
  define ft1 where "ft1 = ft0\<lparr>ft_wheel := w1, ft_flows := [(k, \<lparr>es_value = v, es_deadline = d\<rparr>)]\<rparr>"
  have w1: "wheel_insert d k w0 = w1"
    using far(1) by (simp add: wheel_insert_def s_def [symmetric] w1_def) (simp add: w0_def wheel_new_def WHEEL_BUCKETS_def)
  have opened: "ft_get_or_insert_with k now v ft0 = Inr ft1"
    using assms(2,6) w1 by (simp add: ft_get_or_insert_with_def ft0 instant_add_def ft1_def d_def)
  obtain surfaced w2 where due: "take_due now w1 = (surfaced, w2)" by (cases "take_due now w1")
  have ok: "wheel_ok w1" using wheel_insert(1) [of w0 d k] w1 by (simp add: w0_def)
  have w1s: "wheel_second w1 now = h" "slots w1 = {(s, k)}" "tw_drained w1 = 0" "entries (tw_buckets w1) = {}"
      "tw_overflow w1 = [(s, k)]"
    unfolding h_def by (auto simp: w1_def wheel_second_def slots_def w0_def wheel_new_def entries_def)
  note w2 = take_due [OF ok due, unfolded w1s]
  have "surfaced = []" using w2(5) far(2) by (auto simp: set_empty [symmetric] simp del: set_empty)
  then have expired: "ft_expire now ft1 = ([], ft1\<lparr>ft_wheel := w2\<rparr>)" by (simp add: ft_expire_def ft1_def due)
  have "next_due w2 = Some (Suc h + WHEEL_BUCKETS)"
    using next_due_overflow [of w2] w2 far by (auto simp: wheel_ok_def buckets_ok_def WHEEL_BUCKETS_def)
  moreover have "tw_epoch w2 = epoch" using w2(2) by (simp add: w1_def w0_def wheel_new_def)
  ultimately have report: "ft_next_deadline (ft1\<lparr>ft_wheel := w2\<rparr>) = Some (epoch + from_secs (Suc h + 512))"
    by (simp add: ft_next_deadline_def WHEEL_BUCKETS_def)
  have "now - epoch < Suc h * 10 ^ 9"
    using dividend_less_div_times [of "10 ^ 9" "now - epoch"] by (simp add: secs as_secs_def)
  then have "now + idle < epoch + from_secs (Suc h + 512)" "now + from_secs 512 < epoch + from_secs (Suc h + 512)"
    using assms(3,4) by (simp_all add: from_secs_def)
  with opened expired report show ?thesis by (auto simp: ft_deadline_def ft1_def d_def)
qed

section \<open>Datagram buffers are bounded queues\<close>

text \<open>A run of a buffer with the datagrams it accepted and those it handed out, oldest first.\<close>

inductive db_step ::
    "'a list \<times> 'a list \<times> 'a datagram_buffer \<Rightarrow> 'a list \<times> 'a list \<times> 'a datagram_buffer \<Rightarrow> bool" where
  buffered: "try_send x b = (Buffered, b') \<Longrightarrow> db_step (ins, outs, b) (ins @ [x], outs, b')"
| dropped: "try_send x b = (Dropped, b') \<Longrightarrow> db_step (ins, outs, b) (ins, outs, b')"
| received: "buffer_recv b = (Some x, b') \<Longrightarrow> db_step (ins, outs, b) (ins, outs @ [x], b')"

text \<open>
  C32. A flow's buffer hands out the datagrams it accepted in the order it accepted them, none lost
  or repeated, holds at most its capacity, and drops a datagram exactly when it is full.
\<close>

theorem datagram_buffer_fifo:
  assumes "db_step\<^sup>*\<^sup>* ([], [], buffer_new n) (ins, outs, b)"
  shows "ins = outs @ db_datagrams b \<and> length (db_datagrams b) \<le> n
     \<and> (fst (try_send x b) = Dropped \<longleftrightarrow> length (db_datagrams b) = n)"
proof -
  have inv: "case y of (ins, outs, b) \<Rightarrow> ins = outs @ db_datagrams b \<and> length (db_datagrams b) \<le> n \<and> db_capacity b = n"
    if "db_step\<^sup>*\<^sup>* ([], [], buffer_new n) y" for y :: "'a list \<times> 'a list \<times> 'a datagram_buffer"
    using that
  proof (induction rule: rtranclp_induct)
    case (step y z)
    from step(2,3) show ?case
      by cases (auto simp: try_send_def buffer_recv_def split: if_splits list.splits)
  qed (simp add: buffer_new_def)
  show ?thesis using inv [OF assms] by (simp add: try_send_def)
qed

theorem datagram_buffer_fifo_witness:
  "\<exists>b. db_step\<^sup>*\<^sup>* ([], [], buffer_new 1) ([7 :: nat], [], b) \<and> fst (try_send 8 b) = Dropped"
proof -
  let ?b = "(buffer_new 1)\<lparr>db_datagrams := [7 :: nat]\<rparr>"
  have run: "db_step\<^sup>*\<^sup>* ([], [], buffer_new 1) ([7], [], ?b)"
    using db_step.buffered [of 7 "buffer_new 1" ?b "[]" "[]"] by (auto simp: try_send_def buffer_new_def)
  with datagram_buffer_fifo [OF run, of 8] show ?thesis by auto
qed

section \<open>Witnesses\<close>

lemma sample_table: "\<exists>ft0 ft. ft_new (from_secs 120) 1 0 = Inr ft0 \<and> ft_step\<^sup>*\<^sup>* (0, (), ft0) (from_secs 1, (), ft)
    \<and> ft_deadline ft (5 :: nat) = Some (from_secs 121) \<and> ft_get ft 5 = Some True"
proof -
  define ft0 :: "(nat, bool) udp_flow_table" where
    "ft0 = \<lparr>ft_idle_timeout = from_secs 120, ft_ceiling = 1, ft_flows = [], ft_wheel = wheel_new 0\<rparr>"
  define ft where "ft = ft0\<lparr>ft_wheel := wheel_insert (from_secs 121) 5 (wheel_new 0),
      ft_flows := [(5, \<lparr>es_value = True, es_deadline = from_secs 121\<rparr>)]\<rparr>"
  have "ft_new (from_secs 120) 1 0 = Inr ft0" by (simp add: ft_new_def MIN_IDLE_TIMEOUT_def ft0_def)
  moreover have "instant_add (from_secs 1) (from_secs 120) = Some (from_secs 121)"
    by (simp add: instant_add_def from_secs_def instant_max_def)
  then have "ft_get_or_insert_with 5 (from_secs 1) True ft0 = Inr ft"
    by (simp add: ft_get_or_insert_with_def ft_def ft0_def)
  then have "ft_step (0, (), ft0) (from_secs 1, (), ft)" by (intro ft_step.opens) simp_all
  moreover have "ft_deadline ft 5 = Some (from_secs 121)" "ft_get ft 5 = Some True"
    by (simp_all add: ft_def ft_deadline_def ft_get_def)
  ultimately show ?thesis by blast
qed

theorem flow_expiry_window_witness:
  "\<exists>ft. ft_deadline ft (5 :: nat) = Some (from_secs 121)
     \<and> ft_deadline (snd (ft_expire (from_secs 2) (ft :: (nat, bool) udp_flow_table))) 5 = Some (from_secs 121)"
proof -
  obtain ft0 ft where run: "ft_new (from_secs 120) 1 0 = Inr ft0" "ft_step\<^sup>*\<^sup>* (0, (), ft0) (from_secs 1, (), ft)"
      "ft_deadline ft (5 :: nat) = Some (from_secs 121)" "ft_get ft 5 = Some True"
    using sample_table by blast
  have late: "from_secs 1 \<le> from_secs 2" "from_secs 2 \<le> instant_max" "from_secs 2 < from_secs 121"
    by (simp_all add: from_secs_def instant_max_def)
  have "ft_deadline (snd (ft_expire (from_secs 2) ft)) 5 = Some (from_secs 121)"
    using flow_expiry_window [OF run(1,2) _ late(1,2) prod.collapse [symmetric], of 5 "from_secs 121"] run(3) late(3)
    by simp
  with run(3) show ?thesis by blast
qed

theorem flow_table_filed_witness:
  "\<exists>(ft :: (nat, bool) udp_flow_table) s. ft_contains ft 5 \<and> ft_len ft \<le> 1 \<and> (s, 5) \<in> slots (ft_wheel ft)"
proof -
  obtain ft0 and ft :: "(nat, bool) udp_flow_table" where
    run: "ft_new (from_secs 120) 1 0 = Inr ft0" "ft_step\<^sup>*\<^sup>* (0, (), ft0) (from_secs 1, (), ft)" "ft_get ft 5 = Some True"
    using sample_table by blast
  then have "ft_contains ft 5" by (auto simp: ft_get_def ft_contains_def hm_contains_def)
  with flow_table_filed [OF run(1,2), of 5] show ?thesis by blast
qed

theorem next_deadline_late_witness:
  "\<exists>(ft :: (nat, bool) udp_flow_table) due. ft_deadline ft 5 = Some (from_secs 10120)
     \<and> ft_next_deadline ft = Some due \<and> from_secs 10120 + from_secs 392 < due"
proof -
  obtain ft0 :: "(nat, bool) udp_flow_table" where new: "ft_new (from_secs 120) 1 0 = Inr ft0"
    by (simp add: ft_new_def MIN_IDLE_TIMEOUT_def)
  have "from_secs 10000 + from_secs 120 = from_secs 10120" "from_secs 10120 \<le> instant_max"
    "from_secs 120 \<le> from_secs 512" "0 + from_secs 512 \<le> from_secs 10120"
    "from_secs 10120 + from_secs 392 = from_secs 10000 + from_secs 512"
    by (simp_all add: from_secs_def instant_max_def)
  with next_deadline_late [OF new, of "from_secs 10000" 5 True] show ?thesis by auto
qed

end
