(* ===== verification/Datapath.thy ===== *)
theory Datapath
  imports Path_Mtu Pool Reassembly Flow_Table
begin

text \<open>
  The datapath of \<^verbatim>\<open>src/datapath.rs\<close>: the state one session owns (policy, plans, reassembler, flow
  table, inspected addresses, ICMP budget, buffer pool and the queues towards the shell) and every
  operation on it. A \<open>Pooled\<close> buffer is its bytes; where Rust drops one at the end of a scope, the
  model returns it to the pool with \<open>pool_drop\<close>, at the same place in the sequence of operations.

  \<open>dispatch\<close> calls itself on a reassembled datagram; it is a partial function whose value is
  \<open>None\<close> where the recursion would not end. The packet parser and the ICMP builder of etherparse
  are parameters, as in the theories below; \<open>Instant::now()\<close> at construction is an argument.
\<close>

section \<open>Vocabulary\<close>

datatype side = Tunnel | Egress

fun across :: "side \<Rightarrow> side" where
  "across Tunnel = Egress"
| "across Egress = Tunnel"

datatype ingress = Borrowed bytes | Owned bytes

fun ingress_bytes :: "ingress \<Rightarrow> bytes" where
  "ingress_bytes (Borrowed bs) = bs"
| "ingress_bytes (Owned bs) = bs"

fun into_pooled :: "ingress \<Rightarrow> buffer_pool \<Rightarrow> bytes option \<times> buffer_pool" where
  "into_pooled (Borrowed bs) pool = pool_take bs pool"
| "into_pooled (Owned bs) pool = (Some bs, pool)"

datatype transmit = Transmit (tx_to: side) (tx_bytes: bytes)

datatype flow_event =
  StreamOpened internal_endpoint
| DatagramOpened internal_endpoint
| DatagramDropped internal_endpoint
| ReassemblyDiscarded
| Resteered steering_reason
| FlowTornDown internal_endpoint
| TransmitDropped
| QuicSteered
| PathReported mtu
| HopsExhausted

datatype dns_query = DnsQuery (q_client: internal_endpoint) (q_resolver: internal_endpoint) (q_payload: bytes)

datatype datapath_error =
  DpMalformed packet_error
| DpPlan plan_error
| DpFlowTable flow_table_error
| DpWrite write_error
| Vacuous

datatype outbound = Outbound (ob_client: internal_endpoint) (ob_target: internal_endpoint) (ob_payload: bytes)

record flow_state =
  fs_plan :: flow_plan
  fs_buffer :: "(internal_endpoint \<times> bytes) datagram_buffer"

section \<open>The ICMP budget\<close>

definition ICMP_ERRORS_PER_SECOND :: u32 where "ICMP_ERRORS_PER_SECOND = 100"

record icmp_budget =
  ib_tokens :: u32
  ib_refilled :: instant

definition budget_new :: "instant \<Rightarrow> icmp_budget" where
  "budget_new now = \<lparr>ib_tokens = ICMP_ERRORS_PER_SECOND, ib_refilled = now\<rparr>"

definition budget_take :: "instant \<Rightarrow> icmp_budget \<Rightarrow> bool \<times> icmp_budget" where
  "budget_take now b =
     (let b = (if from_secs 1 \<le> now - ib_refilled b
               then \<lparr>ib_tokens = ICMP_ERRORS_PER_SECOND, ib_refilled = now\<rparr> else b)
      in if ib_tokens b = 0 then (False, b) else (True, b\<lparr>ib_tokens := ib_tokens b - 1\<rparr>))"

section \<open>Inspected addresses\<close>

record inspected_addresses =
  ia_window :: duration
  ia_capacity :: nat
  ia_until :: "(ip_addr, instant) hash_map"
  ia_earliest :: "instant option"

definition inspected_new :: "duration \<Rightarrow> nat \<Rightarrow> inspected_addresses" where
  "inspected_new window capacity =
     \<lparr>ia_window = window, ia_capacity = capacity, ia_until = [], ia_earliest = None\<rparr>"

definition admit_address :: "instant \<Rightarrow> ip_addr \<Rightarrow> nat \<times> inspected_addresses \<Rightarrow> nat \<times> inspected_addresses" where
  "admit_address deadline addr s =
     (case s of (refused, ia) \<Rightarrow>
        (if \<not> hm_contains (ia_until ia) addr \<and> ia_capacity ia \<le> length (ia_until ia)
         then (refused + 1, ia)
         else (refused, ia\<lparr>ia_until := hm_insert addr deadline (ia_until ia),
                           ia_earliest := Some (case ia_earliest ia of
                              None \<Rightarrow> deadline | Some soonest \<Rightarrow> min soonest deadline)\<rparr>)))"

definition inspected_admit :: "ip_addr list \<Rightarrow> instant \<Rightarrow> inspected_addresses \<Rightarrow> nat \<times> inspected_addresses" where
  "inspected_admit addresses now ia =
     (case instant_add now (ia_window ia) of
        None \<Rightarrow> (length addresses, ia)
      | Some deadline \<Rightarrow> fold (admit_address deadline) addresses (0, ia))"

definition inspected_live :: "inspected_addresses \<Rightarrow> ip_addr \<Rightarrow> instant \<Rightarrow> bool" where
  "inspected_live ia addr now \<longleftrightarrow>
     (case hm_get (ia_until ia) addr of None \<Rightarrow> False | Some deadline \<Rightarrow> now < deadline)"

definition inspected_expire :: "instant \<Rightarrow> inspected_addresses \<Rightarrow> inspected_addresses" where
  "inspected_expire now ia =
     (case ia_earliest ia of
        None \<Rightarrow> ia
      | Some earliest \<Rightarrow>
          (if now < earliest then ia
           else (let until = hm_retain (\<lambda>_ deadline. now < deadline) (ia_until ia)
                 in ia\<lparr>ia_until := until,
                       ia_earliest := (if until = [] then None else Some (Min (snd ` set until)))\<rparr>)))"

definition inspected_next_deadline :: "inspected_addresses \<Rightarrow> instant option" where
  "inspected_next_deadline ia = ia_earliest ia"

section \<open>State and construction\<close>

datatype port_range_error = Empty | IncludesZero

datatype origination_ports = OriginationPorts (op_start: u16) (op_end: u16)

definition origination_ports_new :: "u16 \<Rightarrow> u16 \<Rightarrow> port_range_error + origination_ports" where
  "origination_ports_new start end_port =
     (if start = 0 then Inl IncludesZero
      else if end_port \<le> start then Inl Empty
      else Inr (OriginationPorts start end_port))"

definition origination_contains :: "origination_ports \<Rightarrow> u16 \<Rightarrow> bool" where
  "origination_contains ports p \<longleftrightarrow> op_start ports \<le> p \<and> p < op_end ports"

record limits =
  lm_reassembly_timeout :: duration
  lm_max_pending_reassemblies :: nat
  lm_flow_idle_timeout :: duration
  lm_max_flows :: nat
  lm_datagram_buffer_capacity :: nat
  lm_inspection_window :: duration
  lm_max_inspected_addresses :: nat
  lm_inspected_ports :: "u16 list"
  lm_origination_ports :: "origination_ports option"

definition DEFAULT_INSPECTED_PORTS :: "u16 list" where
  "DEFAULT_INSPECTED_PORTS = [80, 443]"

record datapath =
  dp_filter :: filter_policy
  dp_dns :: dns_policy
  dp_accepts :: accepts
  dp_egress :: path_properties
  dp_path_mtu :: mtu
  dp_plans :: "(plan_error + flow_plan) list"
  dp_inspected_ports :: "u16 list"
  dp_origination_ports :: "origination_ports option"
  dp_pool :: buffer_pool
  dp_buffer_capacity :: nat
  dp_reassembler :: reassembler
  dp_inspected :: inspected_addresses
  dp_flows :: "(flow_key, flow_state) udp_flow_table"
  dp_events :: "flow_event list"
  dp_transmits :: "transmit list"
  dp_queries :: "dns_query list"
  dp_terminate :: "bytes list"
  dp_ready :: "flow_key list"
  dp_icmp :: icmp_budget

text \<open>\<open>epoch\<close> and \<open>started\<close> are the two readings of the clock.\<close>

definition datapath_new ::
    "filter_policy \<Rightarrow> dns_policy \<Rightarrow> accepts \<Rightarrow> path_properties \<Rightarrow> mtu \<Rightarrow> limits \<Rightarrow> buffer_pool \<Rightarrow>
     instant \<Rightarrow> instant \<Rightarrow> datapath_error + datapath" where
  "datapath_new flt dns accepts egress path_mtu lim pool epoch started =
     (if flt = InspectHttp \<and> dns = DnsForward \<and> accepts = IpPackets then Inl Vacuous
      else
        (let plans = map (\<lambda>inspection. plan_flow flt inspection accepts egress path_mtu) ALL_INSPECTIONS
         in case find isl plans of
              Some p \<Rightarrow> Inl (DpPlan (projl p))
            | None \<Rightarrow>
                (case ft_new (lm_flow_idle_timeout lim) (lm_max_flows lim) epoch of
                   Inl e \<Rightarrow> Inl (DpFlowTable e)
                 | Inr flows \<Rightarrow>
                     Inr \<lparr>dp_filter = flt, dp_dns = dns, dp_accepts = accepts, dp_egress = egress,
                          dp_path_mtu = path_mtu, dp_plans = plans,
                          dp_inspected_ports = remdups_adj (sort (lm_inspected_ports lim)),
                          dp_origination_ports = lm_origination_ports lim, dp_pool = pool,
                          dp_buffer_capacity = lm_datagram_buffer_capacity lim,
                          dp_reassembler = reassembler_new (lm_reassembly_timeout lim)
                                             (lm_max_pending_reassemblies lim),
                          dp_inspected = inspected_new (lm_inspection_window lim)
                                           (lm_max_inspected_addresses lim),
                          dp_flows = flows, dp_events = [], dp_transmits = [], dp_queries = [],
                          dp_terminate = [], dp_ready = [], dp_icmp = budget_new started\<rparr>)))"

section \<open>Queues towards the shell\<close>

definition push_event :: "flow_event \<Rightarrow> datapath \<Rightarrow> datapath" where
  "push_event e dp = dp\<lparr>dp_events := dp_events dp @ [e]\<rparr>"

definition push_transmit :: "side \<Rightarrow> bytes \<Rightarrow> datapath \<Rightarrow> datapath" where
  "push_transmit to bs dp = dp\<lparr>dp_transmits := dp_transmits dp @ [Transmit to bs]\<rparr>"

definition release :: "bytes \<Rightarrow> datapath \<Rightarrow> datapath" where
  "release bs dp = dp\<lparr>dp_pool := pool_drop bs (dp_pool dp)\<rparr>"

fun drop_ingress :: "ingress \<Rightarrow> datapath \<Rightarrow> datapath" where
  "drop_ingress (Borrowed bs) dp = dp"
| "drop_ingress (Owned bs) dp = release bs dp"

definition poll_query :: "datapath \<Rightarrow> dns_query option \<times> datapath" where
  "poll_query dp =
     (case dp_queries dp of [] \<Rightarrow> (None, dp) | q # qs \<Rightarrow> (Some q, dp\<lparr>dp_queries := qs\<rparr>))"

definition poll_terminate :: "datapath \<Rightarrow> bytes option \<times> datapath" where
  "poll_terminate dp =
     (case dp_terminate dp of [] \<Rightarrow> (None, dp) | p # ps \<Rightarrow> (Some p, dp\<lparr>dp_terminate := ps\<rparr>))"

definition poll_transmit :: "datapath \<Rightarrow> transmit option \<times> datapath" where
  "poll_transmit dp =
     (case dp_transmits dp of [] \<Rightarrow> (None, dp) | t # ts \<Rightarrow> (Some t, dp\<lparr>dp_transmits := ts\<rparr>))"

definition poll_event :: "datapath \<Rightarrow> flow_event option \<times> datapath" where
  "poll_event dp =
     (case dp_events dp of [] \<Rightarrow> (None, dp) | e # es \<Rightarrow> (Some e, dp\<lparr>dp_events := es\<rparr>))"

section \<open>Forwarding and answering\<close>

text \<open>\<open>answer_with\<close>: one generated packet for the client; true when it was queued.\<close>

definition answer_with :: "(bytes \<Rightarrow> write_error + (nat \<times> bytes)) \<Rightarrow> datapath \<Rightarrow> bool \<times> datapath" where
  "answer_with write_reply dp =
     (case take_zeroed (slice_size (dp_pool dp)) (dp_pool dp) of
        (None, pool) \<Rightarrow> (False, push_event TransmitDropped (dp\<lparr>dp_pool := pool\<rparr>))
      | (Some reply, pool) \<Rightarrow>
          (case write_reply reply of
             Inr (len, written) \<Rightarrow>
               (True, push_transmit Tunnel (snd (pooled_resize pool len written)) (dp\<lparr>dp_pool := pool\<rparr>))
           | Inl _ \<Rightarrow> (False, release reply (push_event TransmitDropped (dp\<lparr>dp_pool := pool\<rparr>)))))"

definition take_icmp :: "instant \<Rightarrow> datapath \<Rightarrow> bool \<times> datapath" where
  "take_icmp now dp =
     (let (granted, budget) = budget_take now (dp_icmp dp) in (granted, dp\<lparr>dp_icmp := budget\<rparr>))"

definition forward ::
    "ip_parser \<Rightarrow> icmp_packets \<Rightarrow> ingress \<Rightarrow> side \<Rightarrow> mtu option \<Rightarrow> bool \<Rightarrow> instant \<Rightarrow> datapath \<Rightarrow> datapath" where
  "forward from_ip icmp ing to clamp quoting_allowed now dp =
     (case into_pooled ing (dp_pool dp) of
        (None, pool) \<Rightarrow> push_event TransmitDropped (dp\<lparr>dp_pool := pool\<rparr>)
      | (Some bs, pool) \<Rightarrow>
          (let dp = dp\<lparr>dp_pool := pool\<rparr>;
               (left, bs) = spend_hop bs
           in if left = Some 0 then
                (let dp = push_event HopsExhausted dp;
                     dp = (if to = Egress \<and> quoting_allowed then
                             (let (granted, dp) = take_icmp now dp
                              in if granted
                                 then snd (answer_with (\<lambda>reply. write_time_exceeded from_ip icmp reply bs) dp)
                                 else dp)
                           else dp)
                 in release bs dp)
              else
                (let bs = (case clamp of None \<Rightarrow> bs | Some inner_mtu \<Rightarrow> snd (clamp_mss bs inner_mtu))
                 in push_transmit to bs dp)))"

definition report_too_big ::
    "ip_parser \<Rightarrow> icmp_packets \<Rightarrow> bytes \<Rightarrow> mtu \<Rightarrow> instant \<Rightarrow> datapath \<Rightarrow> datapath" where
  "report_too_big from_ip icmp buf inner_mtu now dp =
     (let (granted, dp) = take_icmp now dp
      in if \<not> granted then dp
         else
           (let (queued, dp) =
                  answer_with (\<lambda>reply. write_too_big from_ip icmp reply buf (mtu_get inner_mtu)) dp
            in if queued then push_event (PathReported inner_mtu) dp else dp))"

section \<open>Capturing\<close>

definition take_payload :: "ingress_packet \<Rightarrow> bytes \<Rightarrow> datapath \<Rightarrow> bytes option \<times> datapath" where
  "take_payload packet buf dp =
     (case packet_payload packet buf of
        None \<Rightarrow> (None, dp)
      | Some payload \<Rightarrow>
          (let (taken, pool) = pool_take payload (dp_pool dp) in (taken, dp\<lparr>dp_pool := pool\<rparr>)))"

definition intercept_dns :: "ingress_packet \<Rightarrow> bytes \<Rightarrow> datapath \<Rightarrow> datapath" where
  "intercept_dns packet buf dp =
     (case pk_transport packet of
        Udp sport dport \<Rightarrow>
          (case take_payload packet buf dp of
             (None, dp) \<Rightarrow> push_event TransmitDropped dp
           | (Some payload, dp) \<Rightarrow>
               dp\<lparr>dp_queries := dp_queries dp @
                   [DnsQuery (Endpoint (pk_source packet) sport) (Endpoint (pk_destination packet) dport) payload]\<rparr>)
      | _ \<Rightarrow> dp)"

definition capture_for_termination :: "ingress \<Rightarrow> datapath \<Rightarrow> datapath" where
  "capture_for_termination ing dp =
     (case into_pooled ing (dp_pool dp) of
        (Some packet, pool) \<Rightarrow> dp\<lparr>dp_pool := pool, dp_terminate := dp_terminate dp @ [packet]\<rparr>
      | (None, pool) \<Rightarrow> push_event TransmitDropped (dp\<lparr>dp_pool := pool\<rparr>))"

definition capture_datagram :: "ingress_packet \<Rightarrow> bytes \<Rightarrow> flow_key \<Rightarrow> datapath \<Rightarrow> datapath" where
  "capture_datagram packet buf key dp =
     (case pk_transport packet of
        Udp sport dport \<Rightarrow>
          (let target = Endpoint (pk_destination packet) dport
           in case take_payload packet buf dp of
                (None, dp) \<Rightarrow> push_event TransmitDropped dp
              | (Some payload, dp) \<Rightarrow>
                  (case ft_get (dp_flows dp) key of
                     None \<Rightarrow> release payload (push_event TransmitDropped dp)
                   | Some flow \<Rightarrow>
                       (let was_idle = buffer_is_empty (fs_buffer flow);
                            (outcome, buffer) = try_send (target, payload) (fs_buffer flow);
                            dp = dp\<lparr>dp_flows := ft_put key (flow\<lparr>fs_buffer := buffer\<rparr>) (dp_flows dp)\<rparr>
                        in if outcome = Dropped then
                             push_event (DatagramDropped (client_of key)) (release payload dp)
                           else if was_idle then dp\<lparr>dp_ready := dp_ready dp @ [key]\<rparr>
                           else dp)))
      | _ \<Rightarrow> dp)"

text \<open>\<open>poll_datagram\<close> over the ready list: stale entries are skipped.\<close>

fun poll_ready :: "flow_key list \<Rightarrow> datapath \<Rightarrow> outbound option \<times> datapath" where
  "poll_ready [] dp = (None, dp\<lparr>dp_ready := []\<rparr>)"
| "poll_ready (key # ready) dp =
     (case ft_get (dp_flows dp) key of
        None \<Rightarrow> poll_ready ready dp
      | Some flow \<Rightarrow>
          (case buffer_recv (fs_buffer flow) of
             (None, _) \<Rightarrow> poll_ready ready dp
           | (Some (target, payload), buffer) \<Rightarrow>
               (Some (Outbound (client_of key) target payload),
                dp\<lparr>dp_flows := ft_put key (flow\<lparr>fs_buffer := buffer\<rparr>) (dp_flows dp),
                   dp_ready := (if buffer_is_empty buffer then ready else ready @ [key])\<rparr>)))"

definition poll_datagram :: "datapath \<Rightarrow> outbound option \<times> datapath" where
  "poll_datagram dp = poll_ready (dp_ready dp) dp"

section \<open>Dispatch\<close>

definition dp_plan :: "datapath \<Rightarrow> inspection \<Rightarrow> plan_error + flow_plan" where
  "dp_plan dp inspection = dp_plans dp ! inspection_index inspection"

definition inspection_of :: "datapath \<Rightarrow> ingress_packet \<Rightarrow> side \<Rightarrow> instant \<Rightarrow> inspection" where
  "inspection_of dp packet side now =
     (case pk_transport packet of
        Tcp sport dport \<Rightarrow>
          (if (case dp_origination_ports dp of
                 None \<Rightarrow> False | Some ports \<Rightarrow> origination_contains ports sport) then Excluded
           else if side \<noteq> Tunnel \<or> dp_filter dp \<noteq> InspectHttp \<or> dport \<notin> set (dp_inspected_ports dp)
                   \<or> \<not> inspected_live (dp_inspected dp) (pk_destination packet) now then Excluded
           else Candidate)
      | _ \<Rightarrow> Excluded)"

definition open_flow :: "flow_key \<Rightarrow> flow_plan \<Rightarrow> instant \<Rightarrow> datapath \<Rightarrow> (datapath_error + bool) \<times> datapath" where
  "open_flow key plan now dp =
     (let existed = ft_contains (dp_flows dp) key;
          fresh = \<lparr>fs_plan = plan, fs_buffer = buffer_new (dp_buffer_capacity dp)\<rparr>
      in case ft_get_or_insert_with key now fresh (dp_flows dp) of
           Inl e \<Rightarrow> (Inl (DpFlowTable e), dp)
         | Inr flows \<Rightarrow> (Inr (\<not> existed), dp\<lparr>dp_flows := flows\<rparr>))"

text \<open>The action \<open>dispatch\<close> decides on: admission first, then the kept plan of a live flow, then a new one.\<close>

definition choose_action :: "ingress_packet \<Rightarrow> side \<Rightarrow> instant \<Rightarrow> datapath \<Rightarrow> plan_error + ingress_action" where
  "choose_action packet side now dp =
     (let backstop = (if side = Tunnel \<and> inspected_live (dp_inspected dp) (pk_destination packet) now
                      then Active else Lapsed)
      in case admit (pk_transport packet) (dp_dns dp) backstop of
           Settled action \<Rightarrow> Inr action
         | Planned \<Rightarrow>
             (let kept = (if side = Tunnel
                          then Option.bind (key_of packet) (\<lambda>key. map_option fs_plan (ft_get (dp_flows dp) key))
                          else None)
              in case (case kept of
                         Some plan \<Rightarrow> Inr plan
                       | None \<Rightarrow> dp_plan dp (inspection_of dp packet side now)) of
                   Inl e \<Rightarrow> Inl e
                 | Inr plan \<Rightarrow> Inr (route_planned (pk_transport packet) plan)))"

text \<open>Every action but reassembly. An owned packet that is not moved on is dropped at the end.\<close>

definition perform_forward ::
    "ip_parser \<Rightarrow> icmp_packets \<Rightarrow> flow_plan \<Rightarrow> ingress_packet \<Rightarrow> ingress \<Rightarrow> side \<Rightarrow> instant \<Rightarrow> datapath \<Rightarrow> datapath" where
  "perform_forward from_ip icmp plan packet ing side now dp =
     (let quoting_allowed = pk_transport packet \<noteq> Icmp IcmpErrorClass
      in case plan_transport plan of
           PacketFastPath inner_mtu \<Rightarrow>
             (if side = Tunnel \<and> pk_transport packet \<noteq> Icmp IcmpErrorClass
                 \<and> unat (mtu_get inner_mtu) < length (ingress_bytes ing)
              then drop_ingress ing (report_too_big from_ip icmp (ingress_bytes ing) inner_mtu now dp)
              else forward from_ip icmp ing (across side) (Some inner_mtu) quoting_allowed now dp)
         | LocalTermination \<Rightarrow> forward from_ip icmp ing (across side) None quoting_allowed now dp)"

definition perform_open ::
    "(internal_endpoint \<Rightarrow> flow_event) \<Rightarrow> (flow_key \<Rightarrow> datapath \<Rightarrow> datapath) \<Rightarrow> flow_plan \<Rightarrow> ingress_packet \<Rightarrow>
     ingress \<Rightarrow> side \<Rightarrow> instant \<Rightarrow> datapath \<Rightarrow> (datapath_error + unit) \<times> datapath" where
  "perform_open opened capture plan packet ing side now dp =
     (case key_of packet of
        None \<Rightarrow> (Inr (), drop_ingress ing dp)
      | Some key \<Rightarrow>
          (case open_flow key plan now dp of
             (Inl e, dp) \<Rightarrow> (Inl e, drop_ingress ing dp)
           | (Inr first, dp) \<Rightarrow>
               (let dp = (if first then push_event (opened (client_of key)) dp else dp)
                in (Inr (), if side = Tunnel then capture key dp else drop_ingress ing dp))))"

definition perform ::
    "ip_parser \<Rightarrow> icmp_packets \<Rightarrow> ingress_action \<Rightarrow> ingress_packet \<Rightarrow> ingress \<Rightarrow> side \<Rightarrow> instant \<Rightarrow> datapath \<Rightarrow>
     (datapath_error + unit) \<times> datapath" where
  "perform from_ip icmp action packet ing side now dp =
     (case action of
        Reassemble \<Rightarrow> (Inr (), dp)
      | ResolveDns \<Rightarrow> (Inr (), drop_ingress ing (intercept_dns packet (ingress_bytes ing) dp))
      | DropSteered \<Rightarrow> (Inr (), drop_ingress ing (push_event QuicSteered dp))
      | ForwardPacket plan \<Rightarrow> (Inr (), perform_forward from_ip icmp plan packet ing side now dp)
      | OpenStream plan \<Rightarrow>
          perform_open StreamOpened (\<lambda>_. capture_for_termination ing) plan packet ing side now dp
      | OpenDatagram plan \<Rightarrow>
          perform_open DatagramOpened
            (\<lambda>key dp. drop_ingress ing (capture_datagram packet (ingress_bytes ing) key dp))
            plan packet ing side now dp
      | HandleIcmp _ \<Rightarrow> (Inr (), forward from_ip icmp ing (across side) None False now dp)
      | DropUnsupported \<Rightarrow> (Inr (), drop_ingress ing dp))"

text \<open>
  \<open>on_fragment\<close> up to its call of \<open>dispatch\<close>: a result, or a completed datagram and its summary to
  dispatch.
\<close>

definition on_fragment ::
    "ip_parser \<Rightarrow> bytes \<Rightarrow> instant \<Rightarrow> datapath \<Rightarrow>
     ((datapath_error + unit) + (bytes \<times> ingress_packet)) \<times> datapath" where
  "on_fragment from_ip buf now dp =
     (case fragment_parse from_ip buf of
        Inl e \<Rightarrow> (Inl (Inl (DpMalformed e)), dp)
      | Inr None \<Rightarrow> (Inl (Inr ()), dp)
      | Inr (Some fragment) \<Rightarrow>
          (let (outcome, rs) = push fragment now (dp_reassembler dp);
               dp = dp\<lparr>dp_reassembler := rs\<rparr>
           in case outcome of
                Pending \<Rightarrow> (Inl (Inr ()), dp)
              | Discarded \<Rightarrow> (Inl (Inr ()), push_event ReassemblyDiscarded dp)
              | Complete datagram \<Rightarrow>
                  (case parse_packet from_ip datagram of
                     Inl e \<Rightarrow> (Inl (Inl (DpMalformed e)), dp)
                   | Inr packet \<Rightarrow> (Inr (datagram, packet), dp))))"

partial_function (option) dispatch ::
    "ip_parser \<Rightarrow> icmp_packets \<Rightarrow> ingress_packet \<Rightarrow> ingress \<Rightarrow> side \<Rightarrow> instant \<Rightarrow> datapath \<Rightarrow>
     ((datapath_error + unit) \<times> datapath) option" where
  "dispatch from_ip icmp packet ing side now dp =
     (case choose_action packet side now dp of
        Inl e \<Rightarrow> Some (Inl (DpPlan e), drop_ingress ing dp)
      | Inr action \<Rightarrow>
          (if action = Reassemble then
             (case on_fragment from_ip (ingress_bytes ing) now dp of
                (Inl result, dp) \<Rightarrow> Some (result, drop_ingress ing dp)
              | (Inr (datagram, packet), dp) \<Rightarrow>
                  Option.bind (dispatch from_ip icmp packet (Borrowed datagram) side now dp)
                    (\<lambda>(result, dp). Some (result, drop_ingress ing dp)))
           else Some (perform from_ip icmp action packet ing side now dp)))"

definition on_tun_packet ::
    "ip_parser \<Rightarrow> icmp_packets \<Rightarrow> bytes \<Rightarrow> instant \<Rightarrow> datapath \<Rightarrow> ((datapath_error + unit) \<times> datapath) option" where
  "on_tun_packet from_ip icmp buf now dp =
     (case parse_packet from_ip buf of
        Inl e \<Rightarrow> Some (Inl (DpMalformed e), dp)
      | Inr packet \<Rightarrow> dispatch from_ip icmp packet (Borrowed buf) Tunnel now dp)"

definition on_tun_owned ::
    "ip_parser \<Rightarrow> icmp_packets \<Rightarrow> bytes \<Rightarrow> instant \<Rightarrow> datapath \<Rightarrow> ((datapath_error + unit) \<times> datapath) option" where
  "on_tun_owned from_ip icmp pooled now dp =
     (case parse_packet from_ip pooled of
        Inl e \<Rightarrow> Some (Inl (DpMalformed e), release pooled dp)
      | Inr packet \<Rightarrow> dispatch from_ip icmp packet (Owned pooled) Tunnel now dp)"

definition dispatch_from_egress ::
    "ip_parser \<Rightarrow> icmp_packets \<Rightarrow> ingress_packet \<Rightarrow> ingress \<Rightarrow> instant \<Rightarrow> datapath \<Rightarrow>
     ((datapath_error + unit) \<times> datapath) option" where
  "dispatch_from_egress from_ip icmp packet ing now dp =
     (if pk_transport packet = Fragment
      then Some (Inr (), drop_ingress ing (push_event ReassemblyDiscarded dp))
      else dispatch from_ip icmp packet ing Egress now dp)"

definition on_egress_packet ::
    "ip_parser \<Rightarrow> icmp_packets \<Rightarrow> bytes \<Rightarrow> instant \<Rightarrow> datapath \<Rightarrow> ((datapath_error + unit) \<times> datapath) option" where
  "on_egress_packet from_ip icmp buf now dp =
     (case parse_packet from_ip buf of
        Inl e \<Rightarrow> Some (Inl (DpMalformed e), dp)
      | Inr packet \<Rightarrow> dispatch_from_egress from_ip icmp packet (Borrowed buf) now dp)"

definition on_egress_owned ::
    "ip_parser \<Rightarrow> icmp_packets \<Rightarrow> bytes \<Rightarrow> instant \<Rightarrow> datapath \<Rightarrow> ((datapath_error + unit) \<times> datapath) option" where
  "on_egress_owned from_ip icmp pooled now dp =
     (case parse_packet from_ip pooled of
        Inl e \<Rightarrow> Some (Inl (DpMalformed e), release pooled dp)
      | Inr packet \<Rightarrow> dispatch_from_egress from_ip icmp packet (Owned pooled) now dp)"

section \<open>Replies, path changes and timers\<close>

text \<open>A UDP reply written into a pool buffer and queued for the client.\<close>

definition queue_udp ::
    "internal_endpoint \<Rightarrow> internal_endpoint \<Rightarrow> bytes \<Rightarrow> datapath \<Rightarrow> (datapath_error + send_outcome) \<times> datapath" where
  "queue_udp source client payload dp =
     (case take_zeroed (udp_datagram_len (address source) (length payload)) (dp_pool dp) of
        (None, pool) \<Rightarrow> (Inr Dropped, push_event TransmitDropped (dp\<lparr>dp_pool := pool\<rparr>))
      | (Some bs, pool) \<Rightarrow>
          (case write_udp bs source client payload of
             Inl e \<Rightarrow> (Inl (DpWrite e), release bs (dp\<lparr>dp_pool := pool\<rparr>))
           | Inr (_, written) \<Rightarrow> (Inr Buffered, push_transmit Tunnel written (dp\<lparr>dp_pool := pool\<rparr>))))"

definition deliver_datagram ::
    "internal_endpoint \<Rightarrow> internal_endpoint \<Rightarrow> bytes \<Rightarrow> instant \<Rightarrow> datapath \<Rightarrow>
     (datapath_error + send_outcome) \<times> datapath" where
  "deliver_datagram client peer payload now dp =
     (let key = Mapping client
      in if \<not> ft_contains (dp_flows dp) key then (Inr Dropped, dp)
         else case dp_plan dp Excluded of
                Inl e \<Rightarrow> (Inl (DpPlan e), dp)
              | Inr plan \<Rightarrow>
                  (case ft_get_or_insert_with key now
                          \<lparr>fs_plan = plan, fs_buffer = buffer_new (dp_buffer_capacity dp)\<rparr> (dp_flows dp) of
                     Inl e \<Rightarrow> (Inl (DpFlowTable e), dp)
                   | Inr flows \<Rightarrow> queue_udp peer client payload (dp\<lparr>dp_flows := flows\<rparr>)))"

definition answer_dns ::
    "internal_endpoint \<Rightarrow> internal_endpoint \<Rightarrow> bytes \<Rightarrow> datapath \<Rightarrow> (datapath_error + unit) \<times> datapath" where
  "answer_dns client resolver response dp =
     (case queue_udp resolver client response dp of
        (Inl e, dp) \<Rightarrow> (Inl e, dp)
      | (Inr _, dp) \<Rightarrow> (Inr (), dp))"

definition inspect_addresses :: "ip_addr list \<Rightarrow> instant \<Rightarrow> datapath \<Rightarrow> datapath" where
  "inspect_addresses addresses now dp =
     (let (refused, ia) = inspected_admit addresses now (dp_inspected dp)
      in (push_event TransmitDropped ^^ refused) (dp\<lparr>dp_inspected := ia\<rparr>))"

text \<open>A flow that ends drops its queued datagrams.\<close>

definition drop_flow :: "flow_state \<Rightarrow> buffer_pool \<Rightarrow> buffer_pool" where
  "drop_flow flow pool = fold (\<lambda>(_, payload). pool_drop payload) (db_datagrams (fs_buffer flow)) pool"

definition replan_entry ::
    "filter_policy \<Rightarrow> accepts \<Rightarrow> path_properties \<Rightarrow> mtu \<Rightarrow> flow_key \<Rightarrow> flow_state \<Rightarrow>
     flow_event list \<times> buffer_pool \<Rightarrow> bool \<times> flow_state \<times> flow_event list \<times> buffer_pool" where
  "replan_entry flt accepts next path_mtu key state s =
     (case s of (events, pool) \<Rightarrow>
        (case replan_flow (fs_plan state) flt Excluded accepts next path_mtu of
           Inr Unchanged \<Rightarrow> (True, state, events, pool)
         | Inr (Resteer reason plan) \<Rightarrow>
             (True, state\<lparr>fs_plan := plan\<rparr>, events @ [Resteered reason], pool)
         | _ \<Rightarrow> (False, state, events @ [FlowTornDown (client_of key)], drop_flow state pool)))"

definition on_path_change :: "accepts \<Rightarrow> path_properties \<Rightarrow> datapath \<Rightarrow> datapath" where
  "on_path_change accepts next dp =
     (let plans = map (\<lambda>inspection. plan_flow (dp_filter dp) inspection accepts next (dp_path_mtu dp))
                    ALL_INSPECTIONS;
          (_, flows, events, pool) =
            ft_retain (replan_entry (dp_filter dp) accepts next (dp_path_mtu dp)) (dp_flows dp)
              (dp_events dp, dp_pool dp)
      in dp\<lparr>dp_accepts := accepts, dp_egress := next, dp_plans := plans,
            dp_flows := flows, dp_events := events, dp_pool := pool\<rparr>)"

definition min_option :: "instant option \<Rightarrow> instant option \<Rightarrow> instant option" where
  "min_option a b =
     (case (a, b) of
        (None, _) \<Rightarrow> b
      | (_, None) \<Rightarrow> a
      | (Some x, Some y) \<Rightarrow> Some (min x y))"

definition poll_timeout :: "datapath \<Rightarrow> instant option" where
  "poll_timeout dp =
     min_option (rs_next_deadline (dp_reassembler dp))
       (min_option (ft_next_deadline (dp_flows dp)) (inspected_next_deadline (dp_inspected dp)))"

definition on_timeout :: "instant \<Rightarrow> datapath \<Rightarrow> datapath" where
  "on_timeout now dp =
     (let rs = snd (rs_expire now (dp_reassembler dp));
          ia = inspected_expire now (dp_inspected dp);
          (expired, flows) = ft_expire now (dp_flows dp)
      in dp\<lparr>dp_reassembler := rs, dp_inspected := ia, dp_flows := flows,
            dp_pool := fold drop_flow expired (dp_pool dp)\<rparr>)"

section \<open>Values of a flow table\<close>

lemma ft_get_put: "ft_get (ft_put k v t) = (if ft_contains t k then (ft_get t)(k \<mapsto> v) else ft_get t)"
  by (auto simp: ft_put_def ft_get_def ft_contains_def hm_contains_def fun_eq_iff split: option.splits)

lemma ft_contains_get: "ft_contains t k \<longleftrightarrow> ft_get t k \<noteq> None"
  by (simp add: ft_contains_def hm_contains_def ft_get_def)

lemma mset_hm_insert:
  "hm_ok m \<Longrightarrow>
   {#f (snd a). a \<in># mset (hm_insert k v m)#} =
     (case hm_get m k of
        None \<Rightarrow> add_mset (f v) {#f (snd a). a \<in># mset m#}
      | Some v0 \<Rightarrow> add_mset (f v) ({#f (snd a). a \<in># mset m#} - {#f v0#}))"
proof (induction m)
  case (Cons a m)
  obtain k' v' where a: "a = (k', v')" by (cases a)
  have ok: "hm_ok m" using Cons.prems by (simp add: hm_ok_def)
  show ?case
  proof (cases "k' = k")
    case False
    moreover have "f v0 \<in># {#f (snd a). a \<in># mset m#}" if "hm_get m k = Some v0" for v0
      using map_of_SomeD [OF that] by force
    ultimately show ?thesis using Cons.IH [OF ok] by (auto simp: a split: option.splits)
  qed (simp add: a)
qed simp

lemma flow_values_put:
  assumes "ft_ok t" and "ft_get t k = Some v"
  shows "add_mset v (flow_values (ft_put k v' t)) = add_mset v' (flow_values t)"
proof -
  obtain e where e: "hm_get (ft_flows t) k = Some e" "es_value e = v" using assms(2) by (auto simp: ft_get_def)
  have "hm_ok (ft_flows t)" using assms(1) by (simp add: ft_ok_def)
  moreover have "v \<in># flow_values t" using map_of_SomeD [OF e(1)] e(2) by (force simp: flow_values_def)
  ultimately show ?thesis using e by (simp add: ft_put_def flow_values_def o_def mset_hm_insert)
qed

lemma flow_values_open:
  assumes "ft_ok t" and "ft_get_or_insert_with k now v t = Inr t'"
  shows "flow_values t' = (if ft_contains t k then flow_values t else add_mset v (flow_values t))"
proof -
  have ok: "hm_ok (ft_flows t)" using assms(1) by (simp add: ft_ok_def)
  show ?thesis
  proof (cases "hm_get (ft_flows t) k")
    case None
    with assms(2) ok show ?thesis
      by (auto simp: ft_get_or_insert_with_def Let_def flow_values_def o_def mset_hm_insert ft_contains_def hm_contains_def
          split: option.splits if_splits)
  next
    case (Some e)
    then have same: "add_mset (es_value e) (flow_values t - {#es_value e#}) = flow_values t"
      using map_of_SomeD [OF Some] by (intro insert_DiffM) (force simp: flow_values_def)
    obtain d where "t' = t\<lparr>ft_flows := hm_insert k (e\<lparr>es_deadline := d\<rparr>) (ft_flows t)\<rparr>"
      using Some assms(2) by (auto simp: ft_get_or_insert_with_def split: option.splits)
    with Some ok same show ?thesis
      by (simp add: flow_values_def o_def mset_hm_insert ft_contains_def hm_contains_def)
  qed
qed

section \<open>Accounting for pool buffers\<close>

definition queued_by :: "flow_state \<Rightarrow> nat" where
  "queued_by flow = length (db_datagrams (fs_buffer flow))"

definition queued :: "(flow_key, flow_state) udp_flow_table \<Rightarrow> nat" where
  "queued t = sum_mset (image_mset queued_by (flow_values t))"

definition held :: "datapath \<Rightarrow> nat" where
  "held dp = length (dp_transmits dp) + length (dp_queries dp) + length (dp_terminate dp) + queued (dp_flows dp)"

text \<open>
  The invariant, with the number \<open>n\<close> of buffers that are on loan outside the datapath: every other
  loan sits in exactly one of its queues; a flow with queued datagrams is on the ready list and
  within its bound; the flow table and the reassembler are consistent.
\<close>

definition dp_ok :: "nat \<Rightarrow> datapath \<Rightarrow> bool" where
  "dp_ok n dp \<longleftrightarrow>
     pool_ok (dp_pool dp) \<and> on_loan (dp_pool dp) = held dp + n
     \<and> ft_ok (dp_flows dp) \<and> reassembler_ok (dp_reassembler dp)
     \<and> (\<forall>k flow. ft_get (dp_flows dp) k = Some flow \<longrightarrow>
          (queued_by flow > 0 \<longrightarrow> k \<in> set (dp_ready dp))
          \<and> queued_by flow \<le> dp_buffer_capacity dp \<and> db_capacity (fs_buffer flow) = dp_buffer_capacity dp)"

fun owned :: "ingress \<Rightarrow> nat" where
  "owned (Borrowed _) = 0"
| "owned (Owned _) = 1"

lemma pool_drop_loan:
  "pool_ok p \<Longrightarrow> on_loan p = Suc n \<Longrightarrow> pool_ok (pool_drop bs p) \<and> on_loan (pool_drop bs p) = n"
  using pool_ok_drop [of p bs] by simp

lemma pool_take_loan:
  assumes "pool_ok p" and "pool_take bs p = (r, p')"
  shows "pool_ok p' \<and> on_loan p' = on_loan p + (if r = None then 0 else 1)"
  using assms reserve_spec [of p "length bs"] by (auto simp: pool_take_def split: prod.splits option.splits)

lemma take_zeroed_loan:
  assumes "pool_ok p" and "take_zeroed len p = (r, p')"
  shows "pool_ok p' \<and> on_loan p' = on_loan p + (if r = None then 0 else 1) \<and> slice_size p' = slice_size p
    \<and> (\<forall>bs. r = Some bs \<longrightarrow> length bs = len)"
  using assms reserve_spec [of p len] by (auto simp: take_zeroed_def split: prod.splits option.splits)

named_theorems dp_intros \<open>operations that keep the accounting\<close>

lemma dp_ok_pool:
  "dp_ok n dp \<Longrightarrow> pool_ok pool \<Longrightarrow> on_loan pool = on_loan (dp_pool dp) + m \<Longrightarrow> dp_ok (n + m) (dp\<lparr>dp_pool := pool\<rparr>)"
  by (simp add: dp_ok_def held_def)

lemma dp_ok_pool_take:
  assumes "dp_ok n dp" and "pool_take bs (dp_pool dp) = (r, pool)"
  shows "dp_ok (n + (if r = None then 0 else 1)) (dp\<lparr>dp_pool := pool\<rparr>)"
  using assms pool_take_loan [OF _ assms(2)] by (intro dp_ok_pool) (auto simp: dp_ok_def)

lemma dp_ok_take_zeroed:
  assumes "dp_ok n dp" and "take_zeroed len (dp_pool dp) = (r, pool)"
  shows "dp_ok (n + (if r = None then 0 else 1)) (dp\<lparr>dp_pool := pool\<rparr>)"
  using assms take_zeroed_loan [OF _ assms(2)] by (intro dp_ok_pool) (auto simp: dp_ok_def)

lemma dp_ok_event [dp_intros]: "dp_ok n (push_event e dp) = dp_ok n dp"
  by (simp add: dp_ok_def held_def push_event_def)

lemma dp_ok_transmit [dp_intros]: "dp_ok n (push_transmit to bs dp) = dp_ok (Suc n) dp"
  by (simp add: dp_ok_def held_def push_transmit_def)

lemma dp_ok_release [dp_intros]: "dp_ok (Suc n) dp \<Longrightarrow> dp_ok n (release bs dp)"
  using pool_drop_loan [of "dp_pool dp"] by (auto simp: dp_ok_def held_def release_def)

lemma dp_ok_drop_ingress [dp_intros]: "dp_ok (n + owned ing) dp \<Longrightarrow> dp_ok n (drop_ingress ing dp)"
  by (cases ing) (auto intro: dp_ok_release)

lemma dp_ok_icmp [dp_intros]: "dp_ok n (dp\<lparr>dp_icmp := b\<rparr>) = dp_ok n dp"
  by (simp add: dp_ok_def held_def)

lemma dp_ok_into_pooled:
  assumes "dp_ok (n + owned ing) dp" and "into_pooled ing (dp_pool dp) = (r, pool)"
  shows "dp_ok (n + (if r = None then 0 else 1)) (dp\<lparr>dp_pool := pool\<rparr>)" and "r = None \<Longrightarrow> owned ing = 0"
proof -
  have ok: "pool_ok (dp_pool dp)" using assms(1) by (simp add: dp_ok_def)
  show "dp_ok (n + (if r = None then 0 else 1)) (dp\<lparr>dp_pool := pool\<rparr>)" "r = None \<Longrightarrow> owned ing = 0"
    using assms pool_take_loan [OF ok] dp_ok_pool [of n dp pool]
    by (cases ing; auto split: if_splits)+
qed

lemma dp_ok_answer_with [dp_intros]:
  assumes "dp_ok n dp"
  shows "dp_ok n (snd (answer_with write_reply dp))"
proof -
  obtain r pool where take: "take_zeroed (slice_size (dp_pool dp)) (dp_pool dp) = (r, pool)"
    by (cases "take_zeroed (slice_size (dp_pool dp)) (dp_pool dp)")
  from dp_ok_take_zeroed [OF assms take] show ?thesis
    by (auto simp: answer_with_def take dp_intros split: option.splits sum.splits prod.splits intro!: dp_ok_release)
qed

lemma dp_ok_take_icmp [dp_intros]: "dp_ok n (snd (take_icmp now dp)) = dp_ok n dp"
  by (simp add: take_icmp_def dp_ok_icmp split: prod.splits)

lemma dp_ok_forward [dp_intros]:
  assumes "dp_ok (n + owned ing) dp"
  shows "dp_ok n (forward from_ip icmp ing to clamp quoting now dp)"
proof -
  obtain r pool where take: "into_pooled ing (dp_pool dp) = (r, pool)" by (cases "into_pooled ing (dp_pool dp)")
  note ok = dp_ok_into_pooled(1) [OF assms take]
  show ?thesis
  proof (cases r)
    case None
    with ok show ?thesis by (simp add: forward_def take dp_intros)
  next
    case (Some bs)
    let ?dp = "dp\<lparr>dp_pool := pool\<rparr>"
    obtain left bs' where hop: "spend_hop bs = (left, bs')" by (cases "spend_hop bs")
    have ok: "dp_ok (Suc n) ?dp" using ok Some by simp
    have "dp_ok (Suc n) (snd (answer_with w (snd (take_icmp now (push_event HopsExhausted ?dp)))))" for w
      using ok by (intro dp_ok_answer_with) (simp add: dp_intros)
    then show ?thesis
      using ok dp_ok_take_icmp [of "Suc n" now "push_event HopsExhausted ?dp"]
      by (auto simp: forward_def take Some hop Let_def dp_ok_transmit dp_ok_event split: prod.splits intro!: dp_ok_release)
  qed
qed

lemma dp_ok_report [dp_intros]: "dp_ok n dp \<Longrightarrow> dp_ok n (report_too_big from_ip icmp buf m now dp)"
  using dp_ok_answer_with [of n "snd (take_icmp now dp)"] dp_ok_take_icmp [of n now dp]
  by (auto simp: report_too_big_def dp_ok_event split: prod.splits) (metis snd_conv)+

lemma dp_ok_take_payload:
  assumes "dp_ok n dp" and "take_payload packet buf dp = (r, dp')"
  shows "dp_ok (n + (if r = None then 0 else 1)) dp'"
  using assms dp_ok_pool_take [OF assms(1)]
  by (auto simp: take_payload_def split: option.splits prod.splits dest!: dp_ok_pool_take [OF assms(1)])

lemma dp_ok_intercept_dns [dp_intros]:
  assumes "dp_ok n dp"
  shows "dp_ok n (intercept_dns packet buf dp)"
proof -
  obtain r dp' where take: "take_payload packet buf dp = (r, dp')" by (cases "take_payload packet buf dp")
  have "dp_ok n (dp'\<lparr>dp_queries := dp_queries dp' @ [q]\<rparr>) = dp_ok (Suc n) dp'" for q
    by (simp add: dp_ok_def held_def)
  with dp_ok_take_payload [OF assms take] assms show ?thesis
    by (auto simp: intercept_dns_def take dp_ok_event split: transport.splits option.splits)
qed

lemma dp_ok_terminate [dp_intros]:
  assumes "dp_ok (n + owned ing) dp"
  shows "dp_ok n (capture_for_termination ing dp)"
proof -
  obtain r pool where take: "into_pooled ing (dp_pool dp) = (r, pool)" by (cases "into_pooled ing (dp_pool dp)")
  have "dp_ok n (dp\<lparr>dp_pool := pool, dp_terminate := dp_terminate dp @ [p]\<rparr>) = dp_ok (Suc n) (dp\<lparr>dp_pool := pool\<rparr>)" for p
    by (simp add: dp_ok_def held_def)
  with dp_ok_into_pooled(1) [OF assms take] show ?thesis
    by (auto simp: capture_for_termination_def take dp_ok_event split: option.splits)
qed

text \<open>Replacing the buffer of a live flow.\<close>

lemma queued_put:
  assumes "ft_ok t" and "ft_get t k = Some flow"
  shows "queued (ft_put k flow' t) + queued_by flow = queued t + queued_by flow'"
proof -
  have "queued_by flow + queued (ft_put k flow' t) = queued_by flow' + queued t"
    using arg_cong [OF flow_values_put [OF assms, of flow'], of "\<lambda>m. sum_mset (image_mset queued_by m)"]
    by (simp add: queued_def)
  then show ?thesis by simp
qed

definition idle :: "datapath \<Rightarrow> flow_key \<Rightarrow> bool" where
  "idle dp k \<longleftrightarrow> (case ft_get (dp_flows dp) k of None \<Rightarrow> True | Some flow \<Rightarrow> queued_by flow = 0)"

lemma dp_ok_put:
  assumes "dp_ok n dp" and "ft_get (dp_flows dp) k = Some flow"
    and "queued_by flow' + m = queued_by flow + n"
    and "queued_by flow' > 0 \<Longrightarrow> k \<in> set ready"
    and "\<And>k'. k' \<noteq> k \<Longrightarrow> k' \<in> set (dp_ready dp) \<Longrightarrow> k' \<in> set ready \<or> idle dp k'"
    and "queued_by flow' \<le> dp_buffer_capacity dp" and "db_capacity (fs_buffer flow') = dp_buffer_capacity dp"
  shows "dp_ok m (dp\<lparr>dp_flows := ft_put k flow' (dp_flows dp), dp_ready := ready\<rparr>)"
proof -
  let ?t = "ft_put k flow' (dp_flows dp)"
  have ok: "ft_ok (dp_flows dp)" using assms(1) by (simp add: dp_ok_def)
  have got: "ft_get ?t = (ft_get (dp_flows dp))(k \<mapsto> flow')" using assms(2) by (simp add: ft_get_put ft_contains_get)
  have "queued ?t + queued_by flow = queued (dp_flows dp) + queued_by flow'"
    using queued_put [OF ok assms(2)] .
  moreover have "(queued_by f > 0 \<longrightarrow> k' \<in> set ready) \<and> queued_by f \<le> dp_buffer_capacity dp
      \<and> db_capacity (fs_buffer f) = dp_buffer_capacity dp" if "ft_get ?t k' = Some f" for k' f
  proof (cases "k' = k")
    case True
    with that got assms(4,6,7) show ?thesis by auto
  next
    case False
    with that got have "ft_get (dp_flows dp) k' = Some f" by simp
    with False assms(1) assms(5) [of k'] show ?thesis by (auto simp: dp_ok_def idle_def)
  qed
  ultimately show ?thesis
    using assms(1,3) ft_put_ok [OF ok] by (simp add: dp_ok_def held_def)
qed

lemma dp_ok_capture [dp_intros]:
  assumes "dp_ok n dp"
  shows "dp_ok n (capture_datagram packet buf key dp)"
proof (cases "pk_transport packet")
  case (Udp sport dport)
  obtain r dp1 where take: "take_payload packet buf dp = (r, dp1)" by (cases "take_payload packet buf dp")
  note ok1 = dp_ok_take_payload [OF assms take]
  show ?thesis
  proof (cases r)
    case None
    with ok1 show ?thesis by (simp add: capture_datagram_def Udp take dp_ok_event)
  next
    case (Some payload)
    with ok1 have ok: "dp_ok (Suc n) dp1" by simp
    show ?thesis
    proof (cases "ft_get (dp_flows dp1) key")
      case None
      with ok Some show ?thesis by (simp add: capture_datagram_def Udp take dp_ok_event dp_ok_release)
    next
      case (Some flow)
      define target where "target = Endpoint (pk_destination packet) dport"
      obtain outcome buffer where send: "try_send (target, payload) (fs_buffer flow) = (outcome, buffer)"
        by (cases "try_send (target, payload) (fs_buffer flow)")
      let ?flow = "flow\<lparr>fs_buffer := buffer\<rparr>"
      have flow: "queued_by flow > 0 \<Longrightarrow> key \<in> set (dp_ready dp1)" "queued_by flow \<le> dp_buffer_capacity dp1"
        "db_capacity (fs_buffer flow) = dp_buffer_capacity dp1"
        using ok Some by (auto simp: dp_ok_def)
      have sent: "outcome = Dropped \<and> queued_by ?flow = queued_by flow
          \<or> outcome = Buffered \<and> queued_by ?flow = Suc (queued_by flow) \<and> queued_by flow < dp_buffer_capacity dp1"
        "db_capacity (fs_buffer ?flow) = dp_buffer_capacity dp1"
        using send flow(2,3) by (auto simp: try_send_def queued_by_def split: if_splits)
      note put = dp_ok_put [OF ok Some, of ?flow]
      have dropped: "dp_ok (Suc n) (dp1\<lparr>dp_flows := ft_put key ?flow (dp_flows dp1)\<rparr>)" if "outcome = Dropped"
        using put [of "Suc n" "dp_ready dp1"] that sent flow by auto
      have idle: "dp_ok n (dp1\<lparr>dp_flows := ft_put key ?flow (dp_flows dp1), dp_ready := dp_ready dp1 @ [key]\<rparr>)"
        if "outcome = Buffered"
        using put [of n "dp_ready dp1 @ [key]"] that sent flow by auto
      have busy: "dp_ok n (dp1\<lparr>dp_flows := ft_put key ?flow (dp_flows dp1)\<rparr>)"
        if "outcome = Buffered" "\<not> buffer_is_empty (fs_buffer flow)"
        using put [of n "dp_ready dp1"] that sent flow by (auto simp: buffer_is_empty_def queued_by_def)
      show ?thesis
        using dropped idle busy sent(1)
        by (auto simp: capture_datagram_def Udp take \<open>r = Some payload\<close> Some target_def [symmetric] send Let_def
            dp_ok_event intro!: dp_ok_release)
    qed
  qed
qed (use assms in \<open>simp_all add: capture_datagram_def\<close>)

lemma dp_ok_open_flow:
  assumes "dp_ok n dp" and "open_flow key plan now dp = (r, dp')"
  shows "dp_ok n dp'"
proof -
  let ?fresh = "\<lparr>fs_plan = plan, fs_buffer = buffer_new (dp_buffer_capacity dp)\<rparr>"
  have ok: "ft_ok (dp_flows dp)" using assms(1) by (simp add: dp_ok_def)
  have fresh: "queued_by ?fresh = 0" "db_capacity (fs_buffer ?fresh) = dp_buffer_capacity dp"
    by (simp_all add: queued_by_def buffer_new_def)
  show ?thesis
  proof (cases "ft_get_or_insert_with key now ?fresh (dp_flows dp)")
    case (Inl e)
    with assms show ?thesis by (simp add: open_flow_def)
  next
    case (Inr flows)
    have dp': "dp' = dp\<lparr>dp_flows := flows\<rparr>" using Inr assms(2) by (simp add: open_flow_def)
    have "queued flows = queued (dp_flows dp)"
      using flow_values_open [OF ok Inr] fresh(1) by (simp add: queued_def)
    then show ?thesis
      using assms(1) ft_open [OF ok Inr] fresh flow_open_get [OF Inr]
      by (auto simp: dp' dp_ok_def held_def split: option.splits if_splits)
  qed
qed

lemma dp_ok_perform_open:
  assumes "dp_ok (n + owned ing) dp"
    and "\<And>key dp. dp_ok (n + owned ing) dp \<Longrightarrow> dp_ok n (capture key dp)"
  shows "dp_ok n (snd (perform_open opened capture plan packet ing side now dp))"
proof (cases "key_of packet")
  case None
  with assms(1) show ?thesis by (simp add: perform_open_def dp_ok_drop_ingress)
next
  case (Some key)
  obtain r dp' where flow: "open_flow key plan now dp = (r, dp')" by (cases "open_flow key plan now dp")
  with dp_ok_open_flow [OF assms(1) flow] assms(2) Some show ?thesis
    by (auto simp: perform_open_def Let_def dp_ok_event split: sum.splits intro!: dp_ok_drop_ingress)
qed

lemma dp_ok_perform [dp_intros]:
  assumes "dp_ok (n + owned ing) dp" and "action \<noteq> Reassemble"
  shows "dp_ok n (snd (perform from_ip icmp action packet ing side now dp))"
proof -
  have "dp_ok n (perform_forward from_ip icmp plan packet ing side now dp)" for plan
    using assms(1) unfolding perform_forward_def Let_def
    by (cases "plan_transport plan") (auto intro!: dp_ok_drop_ingress dp_ok_report dp_ok_forward)
  moreover have "dp_ok n (snd (perform_open StreamOpened (\<lambda>_. capture_for_termination ing) plan packet ing side now dp))" for plan
    using assms(1) by (intro dp_ok_perform_open dp_ok_terminate)
  moreover have "dp_ok n (snd (perform_open DatagramOpened
      (\<lambda>key dp. drop_ingress ing (capture_datagram packet (ingress_bytes ing) key dp)) plan packet ing side now dp))" for plan
    using assms(1) by (intro dp_ok_perform_open dp_ok_drop_ingress dp_ok_capture)
  ultimately show ?thesis
    using assms by (cases action) (auto simp: perform_def dp_ok_event intro!: dp_ok_drop_ingress dp_ok_intercept_dns dp_ok_forward)
qed

lemma dp_ok_on_fragment:
  assumes "dp_ok n dp" and "on_fragment from_ip buf now dp = (r, dp')"
  shows "dp_ok n dp'"
proof (cases "fragment_parse from_ip buf")
  case (Inr parsed)
  show ?thesis
  proof (cases parsed)
    case (Some f)
    obtain outcome rs where push: "push f now (dp_reassembler dp) = (outcome, rs)"
      by (cases "push f now (dp_reassembler dp)")
    have "dp_ok n (dp\<lparr>dp_reassembler := rs\<rparr>)"
      using assms(1) reassembler_ok_push [of "dp_reassembler dp" f now] push by (simp add: dp_ok_def held_def)
    moreover have "dp' = dp\<lparr>dp_reassembler := rs\<rparr> \<or> dp' = push_event ReassemblyDiscarded (dp\<lparr>dp_reassembler := rs\<rparr>)"
      using assms(2) unfolding on_fragment_def Inr Some
      by (cases outcome) (auto simp: push Let_def split: sum.splits)
    ultimately show ?thesis using dp_ok_event by auto
  qed (use assms Inr in \<open>simp add: on_fragment_def\<close>)
qed (use assms in \<open>simp add: on_fragment_def\<close>)

text \<open>The shape of one call of \<open>dispatch\<close>.\<close>

lemma dispatch_cases:
  assumes "dispatch from_ip icmp packet ing side now dp = Some res"
  obtains
    (Refused) e where "choose_action packet side now dp = Inl e" "res = (Inl (DpPlan e), drop_ingress ing dp)"
  | (Performed) action where "choose_action packet side now dp = Inr action" "action \<noteq> Reassemble"
      "res = perform from_ip icmp action packet ing side now dp"
  | (Held) result dp1 where "choose_action packet side now dp = Inr Reassemble"
      "on_fragment from_ip (ingress_bytes ing) now dp = (Inl result, dp1)" "res = (result, drop_ingress ing dp1)"
  | (Completed) datagram packet' dp1 result dp2 where "choose_action packet side now dp = Inr Reassemble"
      "on_fragment from_ip (ingress_bytes ing) now dp = (Inr (datagram, packet'), dp1)"
      "dispatch from_ip icmp packet' (Borrowed datagram) side now dp1 = Some (result, dp2)"
      "res = (result, drop_ingress ing dp2)"
  using assms
  by (subst (asm) dispatch.simps)
    (auto split: sum.splits if_splits prod.splits simp: bind_eq_Some_conv)

lemma dp_ok_dispatch:
  assumes "dispatch from_ip icmp packet ing side now dp = Some res" and "dp_ok (n + owned ing) dp"
  shows "dp_ok n (snd res)"
proof -
  have "\<forall>n. dp_ok (n + owned ing) dp \<longrightarrow> dp_ok n (snd res)"
  proof (rule dispatch.raw_induct [where P = "\<lambda>_ _ _ ing _ _ dp res. \<forall>n. dp_ok (n + owned ing) dp \<longrightarrow> dp_ok n (snd res)",
        OF _ assms(1)], intro allI impI, goal_cases)
    case (1 disp from_ip icmp packet ing side now dp res n)
    note ih = 1(1) and body = 1(2) and ok = 1(3)
    show ?case
    proof (cases "choose_action packet side now dp")
      case (Inl e)
      with body ok show ?thesis by (auto intro: dp_ok_drop_ingress)
    next
      case (Inr action)
      show ?thesis
      proof (cases "action = Reassemble")
        case False
        with Inr body ok show ?thesis by (auto intro: dp_ok_perform)
      next
        case True
        obtain r dp1 where frag: "on_fragment from_ip (ingress_bytes ing) now dp = (r, dp1)"
          by (cases "on_fragment from_ip (ingress_bytes ing) now dp")
        have ok1: "dp_ok (n + owned ing) dp1" using ok frag by (rule dp_ok_on_fragment)
        show ?thesis
        proof (cases r)
          case (Inl result)
          with Inr True frag body ok1 show ?thesis by (auto intro: dp_ok_drop_ingress)
        next
          case (Inr fin)
          obtain datagram packet' where "fin = (datagram, packet')" by (cases fin)
          with \<open>choose_action packet side now dp = Inr action\<close> Inr True frag body obtain result dp2 where
            rec: "disp from_ip icmp packet' (Borrowed datagram) side now dp1 = Some (result, dp2)"
              "res = (result, drop_ingress ing dp2)"
            by (auto simp: bind_eq_Some_conv)
          have "dp_ok (n + owned ing) dp2" using ih [OF rec(1)] ok1 by simp
          with rec(2) show ?thesis by (simp add: dp_ok_drop_ingress)
        qed
      qed
    qed
  qed
  with assms(2) show ?thesis by simp
qed

lemma dp_ok_egress:
  assumes "dispatch_from_egress from_ip icmp packet ing now dp = Some res" and "dp_ok (n + owned ing) dp"
  shows "dp_ok n (snd res)"
  using assms dp_ok_dispatch [of from_ip icmp packet ing Egress now dp res n]
  by (auto simp: dispatch_from_egress_def dp_ok_event split: if_splits intro!: dp_ok_drop_ingress)

lemma dp_ok_entry:
  assumes "dp_ok n dp"
  shows "on_tun_packet from_ip icmp buf now dp = Some res \<Longrightarrow> dp_ok n (snd res)"
    and "on_egress_packet from_ip icmp buf now dp = Some res \<Longrightarrow> dp_ok n (snd res)"
  using assms dp_ok_dispatch [of from_ip icmp _ "Borrowed buf" Tunnel now dp res n]
    dp_ok_egress [of from_ip icmp _ "Borrowed buf" now dp res n]
  by (auto simp: on_tun_packet_def on_egress_packet_def split: sum.splits)

lemma dp_ok_entry_owned:
  assumes "dp_ok (Suc n) dp"
  shows "on_tun_owned from_ip icmp bs now dp = Some res \<Longrightarrow> dp_ok n (snd res)"
    and "on_egress_owned from_ip icmp bs now dp = Some res \<Longrightarrow> dp_ok n (snd res)"
  using assms dp_ok_dispatch [of from_ip icmp _ "Owned bs" Tunnel now dp res n]
    dp_ok_egress [of from_ip icmp _ "Owned bs" now dp res n]
  by (auto simp: on_tun_owned_def on_egress_owned_def split: sum.splits intro!: dp_ok_release)

lemma dp_ok_queue_udp [dp_intros]:
  assumes "dp_ok n dp"
  shows "dp_ok n (snd (queue_udp source client payload dp))"
proof -
  obtain r pool where take: "take_zeroed (udp_datagram_len (address source) (length payload)) (dp_pool dp) = (r, pool)"
    by (cases "take_zeroed (udp_datagram_len (address source) (length payload)) (dp_pool dp)")
  from dp_ok_take_zeroed [OF assms take] show ?thesis
    by (auto simp: queue_udp_def take dp_ok_event dp_ok_transmit split: option.splits sum.splits intro!: dp_ok_release)
qed

lemma dp_ok_deliver [dp_intros]:
  assumes "dp_ok n dp"
  shows "dp_ok n (snd (deliver_datagram client peer payload now dp))"
proof -
  have "dp_ok n (dp\<lparr>dp_flows := flows\<rparr>)"
    if "ft_get_or_insert_with (Mapping client) now \<lparr>fs_plan = plan, fs_buffer = buffer_new (dp_buffer_capacity dp)\<rparr> (dp_flows dp)
      = Inr flows" for plan flows
    using dp_ok_open_flow [OF assms, of "Mapping client" plan now "Inr (\<not> ft_contains (dp_flows dp) (Mapping client))" "dp\<lparr>dp_flows := flows\<rparr>"]
      that by (simp add: open_flow_def)
  then show ?thesis
    using assms by (auto simp: deliver_datagram_def Let_def split: sum.splits intro: dp_ok_queue_udp)
qed

lemma dp_ok_answer_dns [dp_intros]: "dp_ok n dp \<Longrightarrow> dp_ok n (snd (answer_dns client resolver response dp))"
  using dp_ok_queue_udp [of n dp resolver client response]
  by (cases "queue_udp resolver client response dp") (auto simp: answer_dns_def split: sum.splits)

lemma dp_ok_inspect [dp_intros]: "dp_ok n dp \<Longrightarrow> dp_ok n (inspect_addresses addresses now dp)"
proof -
  assume ok: "dp_ok n dp"
  have "dp_ok n ((push_event e ^^ m) d) = dp_ok n d" for m e d by (induction m) (simp_all add: dp_ok_event)
  moreover have "dp_ok n (dp\<lparr>dp_inspected := ia\<rparr>) = dp_ok n dp" for ia by (simp add: dp_ok_def held_def)
  ultimately show ?thesis using ok by (simp add: inspect_addresses_def split: prod.splits)
qed

subsection \<open>Flows that end return their buffers\<close>

lemma drop_flow_loan:
  assumes "pool_ok p" and "on_loan p = n + queued_by flow"
  shows "pool_ok (drop_flow flow p) \<and> on_loan (drop_flow flow p) = n"
proof -
  have "pool_ok (fold (\<lambda>(_, payload). pool_drop payload) ds p) \<and> on_loan (fold (\<lambda>(_, payload). pool_drop payload) ds p) = n"
    if "pool_ok p" "on_loan p = n + length ds" for ds :: "(internal_endpoint \<times> bytes) list" and p
    using that
  proof (induction ds arbitrary: p)
    case (Cons d ds)
    obtain e bs where d: "d = (e, bs)" by (cases d)
    have "pool_ok (pool_drop bs p)" "on_loan (pool_drop bs p) = n + length ds"
      using pool_drop_loan [of p "n + length ds" bs] Cons.prems by simp_all
    from Cons.IH [OF this] show ?case by (simp add: d)
  qed simp
  with assms show ?thesis by (simp add: drop_flow_def queued_by_def)
qed

lemma drop_flows_loan:
  "pool_ok p \<Longrightarrow> on_loan p = n + sum_list (map queued_by flows) \<Longrightarrow>
   pool_ok (fold drop_flow flows p) \<and> on_loan (fold drop_flow flows p) = n"
proof (induction flows arbitrary: p)
  case (Cons flow flows)
  have "pool_ok (drop_flow flow p)" "on_loan (drop_flow flow p) = n + sum_list (map queued_by flows)"
    using drop_flow_loan [of p "n + sum_list (map queued_by flows)" flow] Cons.prems by simp_all
  from Cons.IH [OF this] show ?case by simp
qed simp

lemma dp_ok_fewer_flows:
  assumes "dp_ok n dp" and "ft_ok flows" and "pool_ok pool"
    and "on_loan pool + queued (dp_flows dp) = held dp + queued flows + n"
    and "\<And>k flow. ft_get flows k = Some flow \<Longrightarrow>
           \<exists>old. ft_get (dp_flows dp) k = Some old \<and> fs_buffer flow = fs_buffer old"
  shows "dp_ok n (dp\<lparr>dp_flows := flows, dp_pool := pool\<rparr>)"
proof -
  have "(queued_by flow > 0 \<longrightarrow> k \<in> set (dp_ready dp))
      \<and> queued_by flow \<le> dp_buffer_capacity dp \<and> db_capacity (fs_buffer flow) = dp_buffer_capacity dp"
    if "ft_get flows k = Some flow" for k flow
    using assms(5) [OF that] assms(1) by (fastforce simp: dp_ok_def queued_by_def)
  then show ?thesis using assms(1-4) by (simp add: dp_ok_def held_def)
qed

lemma dp_ok_timeout [dp_intros]:
  assumes "dp_ok n dp"
  shows "dp_ok n (on_timeout now dp)"
proof -
  obtain expired flows where run: "ft_expire now (dp_flows dp) = (expired, flows)" by (cases "ft_expire now (dp_flows dp)")
  have ok: "ft_ok (dp_flows dp)" "pool_ok (dp_pool dp)" "reassembler_ok (dp_reassembler dp)"
    "on_loan (dp_pool dp) = held dp + n" using assms by (simp_all add: dp_ok_def)
  note e = ft_expire [OF ok(1) run]
  have "queued (dp_flows dp) = sum_list (map queued_by expired) + queued flows"
    using arg_cong [OF e(7), of "\<lambda>m. sum_mset (image_mset queued_by m)"]
    by (simp add: queued_def sum_mset_sum_list [symmetric])
  then have pool: "pool_ok (fold drop_flow expired (dp_pool dp))"
      "on_loan (fold drop_flow expired (dp_pool dp)) + queued (dp_flows dp) = held dp + queued flows + n"
    using drop_flows_loan [OF ok(2), of "held dp - queued (dp_flows dp) + queued flows + n" expired] ok(4)
    by (simp_all add: held_def)
  have "dp_ok n (dp\<lparr>dp_flows := flows, dp_pool := fold drop_flow expired (dp_pool dp)\<rparr>)"
    using assms e(1) pool by (rule dp_ok_fewer_flows) (auto simp: ft_get_def e(5) survivors_Some)
  moreover have "reassembler_ok (snd (rs_expire now (dp_reassembler dp)))"
    using reassembler_ok_expire(1) [OF ok(3) prod.collapse [symmetric]] .
  ultimately show ?thesis by (simp add: on_timeout_def run dp_ok_def held_def)
qed

definition entry_queued :: "'k \<times> flow_state entry_state \<Rightarrow> nat" where
  "entry_queued x = queued_by (es_value (snd x))"

lemma entry_queued_pair [simp]: "entry_queued (k, e) = queued_by (es_value e)"
  by (simp add: entry_queued_def)

lemma queued_sum: "queued t = sum_list (map entry_queued (ft_flows t))"
  by (simp add: queued_def flow_values_def sum_mset_sum_list [symmetric] image_mset.compositionality o_def entry_queued_def [abs_def])

lemma replan_entry_loan:
  assumes "replan_entry flt accepts next m k flow (events, pool) = (kept, flow', events', pool')"
    and "pool_ok pool" and "on_loan pool = n + queued_by flow"
  shows "fs_buffer flow' = fs_buffer flow" and "pool_ok pool'"
    and "on_loan pool' = n + (if kept then queued_by flow else 0)"
  using assms drop_flow_loan [OF assms(2,3)]
  by (auto simp: replan_entry_def split: sum.splits replan.splits)

lemma retain_replan:
  assumes "retain_entries (replan_entry flt accepts next m) es (events, pool) = (es', events', pool')"
    and "pool_ok pool" and "on_loan pool = n + sum_list (map entry_queued es)"
  shows "pool_ok pool' \<and> on_loan pool' = n + sum_list (map entry_queued es')
    \<and> (\<forall>(k, e') \<in> set es'. \<exists>e. (k, e) \<in> set es \<and> fs_buffer (es_value e') = fs_buffer (es_value e))"
  using assms
proof (induction es arbitrary: events pool es' n)
  case (Cons x es)
  obtain k e where x: "x = (k, e)" by (cases x)
  obtain kept flow events1 pool1 where entry:
    "replan_entry flt accepts next m k (es_value e) (events, pool) = (kept, flow, events1, pool1)"
    by (metis prod.exhaust)
  obtain es1 where rest: "retain_entries (replan_entry flt accepts next m) es (events1, pool1) = (es1, events', pool')"
    and es': "es' = (if kept then (k, e\<lparr>es_value := flow\<rparr>) # es1 else es1)"
    using Cons.prems(1) by (auto simp: x entry split: prod.splits)
  have load: "on_loan pool = (n + sum_list (map entry_queued es)) + queued_by (es_value e)"
    using Cons.prems(3) by (simp add: x)
  note one = replan_entry_loan [OF entry Cons.prems(2) load]
  have "on_loan pool1 = (n + (if kept then queued_by (es_value e) else 0)) + sum_list (map entry_queued es)"
    using one(3) by simp
  note ih = Cons.IH [OF rest one(2) this]
  show ?case
    using ih one(1) by (auto simp: x es' queued_by_def)
qed simp

lemma dp_ok_path_change [dp_intros]:
  assumes "dp_ok n dp"
  shows "dp_ok n (on_path_change accepts next dp)"
proof -
  let ?keep = "replan_entry (dp_filter dp) accepts next (dp_path_mtu dp)"
  obtain removed flows events pool where run:
    "ft_retain ?keep (dp_flows dp) (dp_events dp, dp_pool dp) = (removed, flows, events, pool)"
    by (metis prod.exhaust)
  obtain es' where es': "retain_entries ?keep (ft_flows (dp_flows dp)) (dp_events dp, dp_pool dp) = (es', events, pool)"
      "flows = dp_flows dp\<lparr>ft_flows := es'\<rparr>"
    using run by (auto simp: ft_retain_def split: prod.splits)
  have ok: "ft_ok (dp_flows dp)" "pool_ok (dp_pool dp)" "on_loan (dp_pool dp) = held dp + n" "hm_ok (ft_flows (dp_flows dp))"
    using assms by (simp_all add: dp_ok_def ft_ok_def)
  note r = retain_replan [OF es'(1) ok(2), of "held dp - queued (dp_flows dp) + n"]
  have loans: "pool_ok pool" "on_loan pool + queued (dp_flows dp) = held dp + queued flows + n"
      "\<forall>(k, e') \<in> set es'. \<exists>e. (k, e) \<in> set (ft_flows (dp_flows dp)) \<and> fs_buffer (es_value e') = fs_buffer (es_value e)"
    using r ok(3) by (simp_all add: queued_sum es'(2) held_def)
  have old: "\<exists>old. ft_get (dp_flows dp) k = Some old \<and> fs_buffer flow = fs_buffer old"
    if got: "ft_get flows k = Some flow" for k flow
  proof -
    obtain e' where e': "hm_get es' k = Some e'" "es_value e' = flow"
      using got unfolding es'(2) by (auto simp: ft_get_def)
    then have "(k, e') \<in> set es'" by (blast dest: map_of_SomeD)
    with e'(2) loans(3) obtain e where "(k, e) \<in> set (ft_flows (dp_flows dp))" "fs_buffer flow = fs_buffer (es_value e)" by blast
    with ok(4) show ?thesis by (auto simp: ft_get_def hm_ok_def)
  qed
  have "dp_ok n (dp\<lparr>dp_flows := flows, dp_pool := pool\<rparr>)"
    by (rule dp_ok_fewer_flows [OF assms ft_retain_ok(1) [OF ok(1) run] loans(1,2) old])
  then show ?thesis by (simp add: on_path_change_def run dp_ok_def held_def)
qed

subsection \<open>Polling\<close>

lemma dp_ok_polls:
  assumes "dp_ok n dp"
  shows "poll_transmit dp = (t, dp') \<Longrightarrow> dp_ok (n + (if t = None then 0 else 1)) dp'"
    and "poll_query dp = (q, dp') \<Longrightarrow> dp_ok (n + (if q = None then 0 else 1)) dp'"
    and "poll_terminate dp = (p, dp') \<Longrightarrow> dp_ok (n + (if p = None then 0 else 1)) dp'"
    and "poll_event dp = (e, dp') \<Longrightarrow> dp_ok n dp'"
  using assms
  by (auto simp: dp_ok_def held_def poll_transmit_def poll_query_def poll_terminate_def poll_event_def split: list.splits)

lemma poll_ready_cases:
  assumes "poll_ready ready dp = (r, dp')"
  obtains (Drained) "r = None" "dp' = dp\<lparr>dp_ready := []\<rparr>" "\<forall>k \<in> set ready. idle dp k"
  | (Served) pre key post flow target payload rest buffer where "ready = pre @ key # post" "\<forall>k \<in> set pre. idle dp k"
      "ft_get (dp_flows dp) key = Some flow" "db_datagrams (fs_buffer flow) = (target, payload) # rest"
      "buffer = (fs_buffer flow)\<lparr>db_datagrams := rest\<rparr>"
      "r = Some (Outbound (client_of key) target payload)"
      "dp' = dp\<lparr>dp_flows := ft_put key (flow\<lparr>fs_buffer := buffer\<rparr>) (dp_flows dp),
                dp_ready := (if rest = [] then post else post @ [key])\<rparr>"
  using assms
proof (induction ready arbitrary: thesis)
  case (Cons key ready)
  show ?case
  proof (cases "idle dp key")
    case True
    then have "poll_ready ready dp = (r, dp')"
      using Cons.prems(3) by (auto simp: idle_def queued_by_def buffer_recv_def split: option.splits)
    then show ?thesis
    proof (rule Cons.IH [rotated 2], goal_cases)
      case 1
      with True show ?thesis by (intro Cons.prems(1)) auto
    next
      case (2 pre key' post flow target payload rest buffer)
      with True show ?thesis by (intro Cons.prems(2) [of "key # pre"]) auto
    qed
  next
    case False
    then obtain flow target payload rest where "ft_get (dp_flows dp) key = Some flow"
        "db_datagrams (fs_buffer flow) = (target, payload) # rest"
      by (auto simp: idle_def queued_by_def neq_Nil_conv split: option.splits)
    with Cons.prems(3) show ?thesis
      by (intro Cons.prems(2) [of "[]" key ready flow target payload rest]) (auto simp: buffer_recv_def buffer_is_empty_def)
  qed
qed simp

lemma dp_ok_poll_datagram:
  assumes "dp_ok n dp" and "poll_datagram dp = (r, dp')"
  shows "dp_ok (n + (if r = None then 0 else 1)) dp'"
proof -
  have "poll_ready (dp_ready dp) dp = (r, dp')" using assms(2) by (simp add: poll_datagram_def)
  then show ?thesis
  proof (cases rule: poll_ready_cases)
    case Drained
    then show ?thesis
      using assms(1) by (fastforce simp: dp_ok_def held_def idle_def split: option.splits)
  next
    case (Served pre key post flow target payload rest buffer)
    let ?flow = "flow\<lparr>fs_buffer := buffer\<rparr>" and ?ready = "if rest = [] then post else post @ [key]"
    have bounds: "queued_by flow \<le> dp_buffer_capacity dp" "db_capacity (fs_buffer flow) = dp_buffer_capacity dp"
      using Served(3) assms(1) by (auto simp: dp_ok_def)
    have q: "queued_by flow = Suc (length rest)" "queued_by ?flow = length rest"
      using Served(4,5) by (simp_all add: queued_by_def)
    have "dp_ok (Suc n) (dp\<lparr>dp_flows := ft_put key ?flow (dp_flows dp), dp_ready := ?ready\<rparr>)"
      using assms(1) Served(3)
    proof (rule dp_ok_put)
      show "queued_by ?flow + Suc n = queued_by flow + n" using q by simp
      show "key \<in> set ?ready" if "queued_by ?flow > 0" using that q by auto
      show "k' \<in> set ?ready \<or> idle dp k'" if "k' \<noteq> key" "k' \<in> set (dp_ready dp)" for k'
        using that Served(1,2) by auto
      show "queued_by ?flow \<le> dp_buffer_capacity dp" using q bounds by simp
      show "db_capacity (fs_buffer ?flow) = dp_buffer_capacity dp" using bounds(2) Served(5) by simp
    qed
    then show ?thesis using Served(6,7) by simp
  qed
qed

end
