(* ===== verification/Dns_Name.thy ===== *)
theory Dns_Name
  imports Wire
begin

text \<open>
  Domain names, the first part of \<^verbatim>\<open>src/policy/dns.rs\<close>: normalisation of presentation form, decoding with
  compression pointers, suffixes, and uncompressed encoding.

  A \<open>Name\<close> is fixed storage with a length; the model keeps the bytes in use, which is also what
  the source compares and hashes. The decoding loop is a total function: every label makes the name
  longer, up to its limit, and every pointer in between moves the cursor back. A failed write leaves
  a buffer its caller abandons, so writing returns the buffer with the new cursor only.
\<close>

section \<open>Errors and limits\<close>

datatype dns_error =
  Truncated
| ReservedLabel
| ForwardPointer
| NameTooLong
| SeparatorInLabel
| NotAQuery
| NoQuestion
| MultipleQuestions u16
| CompressedQuestion
| SvcParamsOutOfOrder
| EmptyAlpnIdentifier
| OutputTooSmall

definition MAX_NAME_CHARS :: nat where "MAX_NAME_CHARS = 253"

definition MAX_LABEL_LEN :: nat where "MAX_LABEL_LEN = 63"

section \<open>Bytes of a name\<close>

text \<open>The label separator, \<open>make_ascii_lowercase\<close> on a byte, and \<open>split\<close> at the separator.\<close>

definition DOT :: u8 where "DOT = 46"

definition ascii_lower :: "u8 \<Rightarrow> u8" where
  "ascii_lower b = (if 65 \<le> b \<and> b \<le> 90 then b + 32 else b)"

fun split_dot :: "bytes \<Rightarrow> bytes list" where
  "split_dot [] = [[]]"
| "split_dot (b # bs) =
     (if b = DOT then [] # split_dot bs
      else case split_dot bs of [] \<Rightarrow> [[b]] | label # labels \<Rightarrow> (b # label) # labels)"

datatype name = Name (as_bytes: bytes)

definition ROOT :: name where "ROOT = Name []"

definition name_parse :: "bytes \<Rightarrow> name option" where
  "name_parse text =
     (let trimmed = (if text \<noteq> [] \<and> last text = DOT then butlast text else text)
      in if MAX_NAME_CHARS < length trimmed then None
         else if trimmed \<noteq> [] \<and> list_ex (\<lambda>label. label = [] \<or> MAX_LABEL_LEN < length label) (split_dot trimmed)
         then None
         else Some (Name (map ascii_lower trimmed)))"

definition is_root :: "name \<Rightarrow> bool" where
  "is_root n \<longleftrightarrow> as_bytes n = []"

text \<open>The successor of a suffix is what follows its first separator.\<close>

definition parent_suffix :: "bytes \<Rightarrow> bytes option" where
  "parent_suffix suffix = (case dropWhile (\<lambda>b. b \<noteq> DOT) suffix of [] \<Rightarrow> None | _ # rest \<Rightarrow> Some rest)"

lemma parent_suffix_shorter: "parent_suffix suffix = Some rest \<Longrightarrow> length rest < length suffix"
  using length_dropWhile_le [of "\<lambda>b. b \<noteq> DOT" suffix] by (auto simp: parent_suffix_def split: list.splits)

function suffixes_from :: "bytes \<Rightarrow> bytes list" where
  "suffixes_from suffix =
     suffix # (case parent_suffix suffix of None \<Rightarrow> [] | Some rest \<Rightarrow> suffixes_from rest)"
  by pat_completeness auto

termination
  by (relation "measure length") (simp_all add: parent_suffix_shorter)

declare suffixes_from.simps [simp del]

definition suffixes :: "name \<Rightarrow> bytes list" where
  "suffixes n = (if as_bytes n = [] then [] else suffixes_from (as_bytes n))"

definition wire_len :: "name \<Rightarrow> nat" where
  "wire_len n = (if is_root n then 1 else length (as_bytes n) + 2)"

section \<open>Decoding and encoding\<close>

text \<open>\<open>consumed.get_or_insert\<close> and \<open>unwrap_or\<close> on the cursor after the name.\<close>

definition or_else :: "'a option \<Rightarrow> 'a \<Rightarrow> 'a" where
  "or_else found other = (case found of None \<Rightarrow> other | Some a \<Rightarrow> a)"

function name_loop :: "bytes \<Rightarrow> bytes \<Rightarrow> reader \<Rightarrow> nat option \<Rightarrow> dns_error + bytes \<times> nat" where
  "name_loop message decoded reader consumed =
     (case reader_u8 reader of
        None \<Rightarrow> Inl Truncated
      | Some (len, reader1) \<Rightarrow>
          (if len AND 0xc0 = 0 then
             (if len = 0 then Inr (decoded, or_else consumed (reader_position reader1))
              else case reader_take (unat len) reader1 of
                     None \<Rightarrow> Inl Truncated
                   | Some (label, reader2) \<Rightarrow>
                       (let separator = (if 0 < length decoded then 1 else 0)
                        in if DOT \<in> set label then Inl SeparatorInLabel
                           else if MAX_NAME_CHARS < length decoded + separator + length label then Inl NameTooLong
                           else name_loop message
                                  (decoded @ (if separator = (1 :: nat) then [DOT] else []) @ map ascii_lower label)
                                  reader2 consumed))
           else if len AND 0xc0 = 0xc0 then
             (case reader_u8 reader1 of
                None \<Rightarrow> Inl Truncated
              | Some (low, reader2) \<Rightarrow>
                  (let target = unat (from_be [len AND 0x3f, low] :: u16)
                   in if reader_position reader \<le> target then Inl ForwardPointer
                      else case reader_at message target of
                             None \<Rightarrow> Inl Truncated
                           | Some reader3 \<Rightarrow>
                               name_loop message decoded reader3 (Some (or_else consumed (reader_position reader2)))))
           else Inl ReservedLabel))"
  by pat_completeness auto

termination
proof (relation "measures [\<lambda>(_, decoded, _, _). MAX_NAME_CHARS + 1 - length decoded, \<lambda>(_, _, reader, _). rd_at reader]",
    goal_cases)
  case (2 message decoded reader consumed x len reader1 y label reader2 separator)
  have "length label \<noteq> 0"
    using 2(2-6) by (auto simp: reader_take_Some unat_eq_zero)
  then show ?case using 2(7-) by (auto simp: MAX_NAME_CHARS_def)
qed (auto simp: reader_position_def)

declare name_loop.simps [simp del]

definition name_read :: "bytes \<Rightarrow> nat \<Rightarrow> dns_error + name \<times> nat" where
  "name_read message at =
     (case reader_at message at of
        None \<Rightarrow> Inl Truncated
      | Some reader \<Rightarrow>
          (case name_loop message [] reader None of
             Inl e \<Rightarrow> Inl e
           | Inr (decoded, stop) \<Rightarrow> Inr (Name decoded, stop - at)))"

definition name_write :: "name \<Rightarrow> bytes \<Rightarrow> nat \<Rightarrow> dns_error + nat \<times> bytes" where
  "name_write n out at =
     (case bounded_at out at of
        None \<Rightarrow> Inl OutputTooSmall
      | Some writer \<Rightarrow>
          (let writer = (if is_root n then writer else fold bounded_vector_u8 (split_dot (as_bytes n)) writer);
               writer = bounded_u8 0 writer
           in case bounded_finish writer of
                None \<Rightarrow> Inl OutputTooSmall
              | Some stop \<Rightarrow> Inr (stop, bd_out writer)))"

section \<open>Labels\<close>

lemma split_dot_not_Nil [simp]: "split_dot bs \<noteq> []"
  by (cases bs) (auto split: list.splits)

lemma split_dot_no_dot: "label \<in> set (split_dot bs) \<Longrightarrow> DOT \<notin> set label"
  by (induction bs arbitrary: label) (fastforce split: if_splits list.splits)+

lemma split_dot_label: "DOT \<notin> set label \<Longrightarrow> split_dot label = [label]"
  by (induction label) auto

lemma split_dot_append: "split_dot (xs @ DOT # ys) = split_dot xs @ split_dot ys"
  by (induction xs) (auto split: list.splits)

lemma ascii_lower_dot [simp]: "ascii_lower b = DOT \<longleftrightarrow> b = DOT"
proof -
  have "b + 32 = 46 \<Longrightarrow> b = 14" by (simp add: eq_diff_eq [symmetric])
  then show ?thesis by (auto simp: ascii_lower_def DOT_def)
qed

lemma ascii_lower_idem [simp]: "ascii_lower (ascii_lower b) = ascii_lower b"
proof -
  have "65 \<le> b \<Longrightarrow> b \<le> 90 \<Longrightarrow> \<not> b + 32 \<le> 90"
    by (simp add: word_le_nat_alt unat_word_ariths)
  then show ?thesis by (auto simp: ascii_lower_def)
qed

lemma split_dot_lower: "split_dot (map ascii_lower bs) = map (map ascii_lower) (split_dot bs)"
  by (induction bs) (auto split: list.splits)

lemma short_label:
  assumes "(len :: u8) AND 0xc0 = 0"
  shows "unat len < 64"
proof -
  have not: "NOT (mask 6) = (0xc0 :: u8)" by (simp add: mask_eq_exp_minus_1)
  have "len = len AND (mask 6 OR NOT (mask 6))" by simp
  also have "\<dots> = len AND mask 6" using assms by (simp only: not bit.conj_disj_distrib) simp
  finally have "unat len = unat len mod 2 ^ 6" by (metis unat_and_mask)
  also have "\<dots> < 64" by simp
  finally show ?thesis .
qed

lemma label_length_byte:
  assumes "n < 64"
  shows "(of_nat n :: u8) AND 0xc0 = 0" and "unat (of_nat n :: u8) = n"
proof -
  show n: "unat (of_nat n :: u8) = n" using assms by (simp add: unat_of_nat)
  have not: "NOT (mask 6) = (0xc0 :: u8)" by (simp add: mask_eq_exp_minus_1)
  have "(of_nat n :: u8) AND mask 6 = of_nat n"
    by (rule unsigned_word_eqI [where 'a = nat]) (use assms n in \<open>simp add: unat_and_mask\<close>)
  then have "(of_nat n :: u8) AND NOT (mask 6) = (of_nat n AND mask 6) AND NOT (mask 6)" by simp
  then show "(of_nat n :: u8) AND 0xc0 = 0" by (simp only: not [symmetric] and.assoc) simp
qed

section \<open>Well-formed names\<close>

text \<open>At most 253 bytes, lower case, and every label of 1 to 63 bytes.\<close>

definition name_ok :: "name \<Rightarrow> bool" where
  "name_ok n \<longleftrightarrow>
     length (as_bytes n) \<le> MAX_NAME_CHARS \<and> map ascii_lower (as_bytes n) = as_bytes n
     \<and> (as_bytes n = [] \<or> list_all (\<lambda>label. label \<noteq> [] \<and> length label \<le> MAX_LABEL_LEN) (split_dot (as_bytes n)))"

lemma name_ok_root [simp]: "name_ok (Name [])"
  by (simp add: name_ok_def)

definition push_label :: "bytes \<Rightarrow> bytes \<Rightarrow> bytes" where
  "push_label decoded label = decoded @ (if decoded = [] then [] else [DOT]) @ map ascii_lower label"

lemma split_push_label:
  "DOT \<notin> set label \<Longrightarrow>
   split_dot (push_label decoded label) = (if decoded = [] then [] else split_dot decoded) @ [map ascii_lower label]"
  by (simp add: push_label_def split_dot_append split_dot_lower split_dot_label)

lemma length_push_label:
  "length (push_label decoded label) = length decoded + (if decoded = [] then 0 else 1) + length label"
  by (simp add: push_label_def)

lemma name_ok_push_label:
  assumes "name_ok (Name decoded)" and "DOT \<notin> set label" and "label \<noteq> []" and "length label \<le> MAX_LABEL_LEN"
    and "length (push_label decoded label) \<le> MAX_NAME_CHARS"
  shows "name_ok (Name (push_label decoded label))"
proof -
  have "map ascii_lower (push_label decoded label) = push_label decoded label"
    using assms(1) by (simp add: push_label_def name_ok_def)
  then show ?thesis using assms by (auto simp: name_ok_def split_push_label)
qed

lemma name_parse_ok: "name_parse text = Some n \<Longrightarrow> name_ok n"
proof -
  assume parsed: "name_parse text = Some n"
  define trimmed where "trimmed = (if text \<noteq> [] \<and> last text = DOT then butlast text else text)"
  have "length trimmed \<le> MAX_NAME_CHARS" "n = Name (map ascii_lower trimmed)"
    "trimmed = [] \<or> \<not> list_ex (\<lambda>label. label = [] \<or> MAX_LABEL_LEN < length label) (split_dot trimmed)"
    using parsed unfolding name_parse_def trimmed_def [symmetric] Let_def by (simp_all split: if_splits)
  then show ?thesis
    by (simp add: name_ok_def split_dot_lower list_all_iff list_ex_iff) (simp add: not_less)
qed

section \<open>Steps of the decoding loop\<close>

lemma reader_u8_eq:
  "reader_u8 r = (if rd_at r < length (rd_bytes r) then Some (rd_bytes r ! rd_at r, r\<lparr>rd_at := rd_at r + 1\<rparr>) else None)"
  by (auto simp: reader_u8_def reader_array_def reader_rest_def)

lemma reader_take_eq:
  "reader_take n r =
     (if n \<le> length (rd_bytes r) - rd_at r
      then Some (take n (drop (rd_at r) (rd_bytes r)), r\<lparr>rd_at := rd_at r + n\<rparr>) else None)"
  by (simp add: reader_take_def slice_range_def reader_rest_def)

text \<open>The loop over a reader on the message itself, with the reader's cursor as its argument.\<close>

definition name_from :: "bytes \<Rightarrow> bytes \<Rightarrow> nat \<Rightarrow> nat option \<Rightarrow> dns_error + bytes \<times> nat" where
  "name_from message decoded at consumed = name_loop message decoded \<lparr>rd_bytes = message, rd_at = at\<rparr> consumed"

lemma name_from_end:
  assumes "at < length message" and "message ! at = 0"
  shows "name_from message decoded at consumed = Inr (decoded, or_else consumed (at + 1))"
  unfolding name_from_def
  by (subst name_loop.simps) (use assms in \<open>simp add: reader_u8_eq reader_position_def\<close>)

lemma name_from_label:
  assumes "at < length message" and "message ! at AND 0xc0 = 0" and "message ! at \<noteq> 0"
    and "len = unat (message ! at)" and "label = take len (drop (at + 1) message)"
  shows "name_from message decoded at consumed =
     (if length message < at + 1 + len then Inl Truncated
      else if DOT \<in> set label then Inl SeparatorInLabel
      else if MAX_NAME_CHARS < length (push_label decoded label) then Inl NameTooLong
      else name_from message (push_label decoded label) (at + 1 + len) consumed)"
proof -
  have fits: "unat (message ! at) \<le> length message - Suc at \<longleftrightarrow> \<not> length message < at + 1 + len"
    using assms(1,4) by auto
  show ?thesis
    unfolding name_from_def
    by (subst name_loop.simps)
      (use assms fits in \<open>simp add: reader_u8_eq reader_take_eq reader_position_def Let_def push_label_def\<close>)
qed

lemma name_from_pointer:
  assumes "at < length message" and "message ! at AND 0xc0 = 0xc0"
  shows "name_from message decoded at consumed =
     (if length message \<le> at + 1 then Inl Truncated
      else if at \<le> unat (from_be [message ! at AND 0x3f, message ! (at + 1)] :: u16) then Inl ForwardPointer
      else name_from message decoded (unat (from_be [message ! at AND 0x3f, message ! (at + 1)] :: u16))
             (Some (or_else consumed (at + 2))))"
  unfolding name_from_def
  by (subst name_loop.simps)
    (use assms in \<open>auto simp: reader_u8_eq reader_position_def reader_at_def Let_def\<close>)

lemma name_from_refused:
  assumes "length message \<le> at \<or> message ! at AND 0xc0 \<noteq> 0 \<and> message ! at AND 0xc0 \<noteq> 0xc0"
  shows "\<exists>e. name_from message decoded at consumed = Inl e"
  unfolding name_from_def
  by (subst name_loop.simps) (use assms in \<open>auto simp: reader_u8_eq\<close>)

text \<open>The ways a decoding succeeds, as an induction rule.\<close>

lemma name_from_induct [consumes 1, case_names stop label pointer]:
  assumes "name_from message decoded at consumed = Inr result"
    and stop: "\<And>decoded at consumed. at < length message \<Longrightarrow> message ! at = 0 \<Longrightarrow>
      P decoded at consumed (decoded, or_else consumed (at + 1))"
    and label: "\<And>decoded at consumed label result. at < length message \<Longrightarrow> message ! at AND 0xc0 = 0 \<Longrightarrow>
      message ! at \<noteq> 0 \<Longrightarrow> at + 1 + length label \<le> length message \<Longrightarrow> length label = unat (message ! at) \<Longrightarrow>
      label = take (length label) (drop (at + 1) message) \<Longrightarrow> DOT \<notin> set label \<Longrightarrow>
      length (push_label decoded label) \<le> MAX_NAME_CHARS \<Longrightarrow>
      P (push_label decoded label) (at + 1 + length label) consumed result \<Longrightarrow> P decoded at consumed result"
    and pointer: "\<And>decoded at consumed target result. at + 1 < length message \<Longrightarrow> message ! at AND 0xc0 = 0xc0 \<Longrightarrow>
      target < at \<Longrightarrow> P decoded target (Some (or_else consumed (at + 2))) result \<Longrightarrow> P decoded at consumed result"
  shows "P decoded at consumed result"
  using assms(1)
proof (induction "(MAX_NAME_CHARS + 1 - length decoded, at)" arbitrary: decoded at consumed
    rule: wf_induct_rule [OF wf_lex_prod [OF wf_less_than wf_less_than]])
  case 1
  note ih = "1.hyps" and run = "1.prems"
  have "\<not> (length message \<le> at \<or> message ! at AND 0xc0 \<noteq> 0 \<and> message ! at AND 0xc0 \<noteq> 0xc0)"
    using name_from_refused [of message at decoded consumed] run by (metis Inl_Inr_False)
  then have inside: "at < length message" "message ! at AND 0xc0 = 0 \<or> message ! at AND 0xc0 = 0xc0" by simp_all
  consider "message ! at = 0" | "message ! at AND 0xc0 = 0" "message ! at \<noteq> 0" | "message ! at AND 0xc0 = 0xc0"
    using inside(2) by blast
  then show ?case
  proof cases
    case 1
    then show ?thesis using name_from_end [OF inside(1) 1] run stop [OF inside(1) 1, of decoded consumed] by auto
  next
    case 2
    define label where "label = take (unat (message ! at)) (drop (at + 1) message)"
    note step = name_from_label [OF inside(1) 2 refl label_def]
    have fits: "at + 1 + unat (message ! at) \<le> length message" "DOT \<notin> set label"
        "length (push_label decoded label) \<le> MAX_NAME_CHARS"
      and rest: "name_from message (push_label decoded label) (at + 1 + unat (message ! at)) consumed = Inr result"
      using run unfolding step by (auto split: if_splits)
    have len: "length label = unat (message ! at)" using fits(1) by (simp add: label_def)
    moreover have "0 < unat (message ! at)" using 2(2) by (simp add: unat_gt_0)
    ultimately have "MAX_NAME_CHARS + 1 - length (push_label decoded label) < MAX_NAME_CHARS + 1 - length decoded"
      using fits(3) by (auto simp: length_push_label split: if_splits)
    then have "P (push_label decoded label) (at + 1 + unat (message ! at)) consumed result"
      by (intro ih [OF _ rest]) simp
    then show ?thesis
      by (intro label [OF inside(1) 2, of label decoded]) (use len fits in \<open>simp_all add: label_def\<close>)
  next
    case 3
    define target where "target = unat (from_be [message ! at AND 0x3f, message ! (at + 1)] :: u16)"
    have behind: "at + 1 < length message" "target < at"
      and rest: "name_from message decoded target (Some (or_else consumed (at + 2))) = Inr result"
      using run unfolding name_from_pointer [OF inside(1) 3] target_def [symmetric] by (auto split: if_splits)
    have "P decoded target (Some (or_else consumed (at + 2))) result" by (intro ih [OF _ rest]) (simp add: behind(2))
    then show ?thesis by (rule pointer [OF behind(1) 3 behind(2)])
  qed
qed

section \<open>What decoding yields\<close>

lemma name_from_ok:
  assumes "name_from message decoded at consumed = Inr (bs, stop)" and "name_ok (Name decoded)"
  shows "name_ok (Name bs) \<and> (case consumed of None \<Rightarrow> at < stop \<and> stop \<le> length message | Some c \<Rightarrow> stop = c)"
proof -
  have "name_ok (Name decoded) \<Longrightarrow> name_ok (Name (fst (bs, stop))) \<and>
      (case consumed of None \<Rightarrow> at < snd (bs, stop) \<and> snd (bs, stop) \<le> length message | Some c \<Rightarrow> snd (bs, stop) = c)"
    using assms(1)
  proof (induction rule: name_from_induct)
    case (label decoded at consumed label result)
    have "length label \<le> MAX_LABEL_LEN"
      using label short_label [of "message ! at"] by (simp add: MAX_LABEL_LEN_def)
    moreover have "label \<noteq> []" using label(3,5) by (auto simp: unat_eq_zero)
    ultimately show ?case
      using label name_ok_push_label [of decoded label] by (auto split: option.splits)
  qed (auto simp: or_else_def split: option.splits)
  with assms(2) show ?thesis by (simp split: option.splits)
qed

text \<open>
  C33. Decoding is total and yields only well-formed names: whatever the message, following
  compression pointers ends, and a decoded name has at most 253 bytes in lower-case labels of 1 to 63
  bytes. At least one byte is consumed, and all that is consumed lies in the message.
\<close>

theorem name_read_valid:
  assumes "name_read message at = Inr (n, used)"
  shows "name_ok n \<and> 0 < used \<and> at + used \<le> length message"
proof -
  obtain bs stop where read: "name_from message [] at None = Inr (bs, stop)" "n = Name bs" "used = stop - at"
    using assms by (auto simp: name_read_def name_from_def reader_at_def split: if_splits sum.splits)
  then show ?thesis using name_from_ok [OF read(1)] by auto
qed

lemma sample_name: "name_read [0, 1, 98, 0, 1, 65, 192, 1] 4 = Inr (Name [97, 46, 98], 4)"
proof -
  let ?m = "[0, 1, 98, 0, 1, 65, 192, 1] :: bytes"
  have "name_from ?m [] 4 None = name_from ?m [97] 6 None"
    by (subst name_from_label [OF _ _ _ refl refl])
      (simp_all add: DOT_def MAX_NAME_CHARS_def push_label_def ascii_lower_def)
  also have "\<dots> = name_from ?m [97] 1 (Some 8)"
    by (subst name_from_pointer) (simp_all add: from_be_def or_else_def)
  also have "\<dots> = name_from ?m [97, 46, 98] 3 (Some 8)"
    by (subst name_from_label [OF _ _ _ refl refl])
      (simp_all add: DOT_def MAX_NAME_CHARS_def push_label_def ascii_lower_def numeral_3_eq_3)
  also have "\<dots> = Inr ([97, 46, 98], 8)" by (subst name_from_end) (simp_all add: or_else_def)
  finally show ?thesis by (simp add: name_read_def name_from_def reader_at_def)
qed

theorem name_read_valid_witness: "name_ok (Name [97, 46, 98])"
  using name_read_valid [OF sample_name] by simp

section \<open>Uncompressed names\<close>

definition label_wire :: "bytes \<Rightarrow> bytes" where
  "label_wire label = of_nat (length label) # label"

definition labels_wire :: "bytes list \<Rightarrow> bytes" where
  "labels_wire labels = concat (map label_wire labels)"

definition name_wire :: "name \<Rightarrow> bytes" where
  "name_wire n = labels_wire (if is_root n then [] else split_dot (as_bytes n)) @ [0]"

definition labels_ok :: "bytes list \<Rightarrow> bool" where
  "labels_ok = list_all (\<lambda>label. label \<noteq> [] \<and> length label \<le> MAX_LABEL_LEN \<and> DOT \<notin> set label)"

definition name_of :: "bytes \<Rightarrow> bytes list \<Rightarrow> bytes" where
  "name_of decoded labels = foldl push_label decoded labels"

lemma labels_simps [simp]:
  "labels_wire [] = []" "labels_wire (l # ls) = label_wire l @ labels_wire ls"
  "name_of decoded [] = decoded" "name_of decoded (l # ls) = name_of (push_label decoded l) ls"
  "name_of decoded (ls @ ls') = name_of (name_of decoded ls) ls'"
  "labels_ok []" "labels_ok (ls @ ls') \<longleftrightarrow> labels_ok ls \<and> labels_ok ls'"
  "labels_ok (l # ls) \<longleftrightarrow> l \<noteq> [] \<and> length l \<le> MAX_LABEL_LEN \<and> DOT \<notin> set l \<and> labels_ok ls"
  "length (label_wire l) = length l + 1"
  by (simp_all add: labels_wire_def name_of_def labels_ok_def label_wire_def)

lemma length_name_of:
  "labels_ok ls \<Longrightarrow>
   length (name_of decoded ls) + (if decoded = [] \<and> ls \<noteq> [] then 1 else 0) = length decoded + length (labels_wire ls)"
proof (induction ls arbitrary: decoded)
  case (Cons l ls)
  then have "push_label decoded l \<noteq> []" by (simp add: push_label_def)
  with Cons.IH [of "push_label decoded l"] Cons.prems show ?case by (auto simp: length_push_label)
qed simp

lemma name_from_labels:
  assumes "drop at message = labels_wire ls @ 0 # rest" and "labels_ok ls"
    and "length (name_of decoded ls) \<le> MAX_NAME_CHARS"
  shows "name_from message decoded at consumed =
     Inr (name_of decoded ls, or_else consumed (at + length (labels_wire ls) + 1))"
  using assms
proof (induction ls arbitrary: decoded at)
  case Nil
  then have "at < length message" "message ! at = 0"
    by (metis drop_all labels_simps(1) append_Nil list.distinct(1) not_le, metis append_Nil labels_simps(1) nth_via_drop)
  then show ?case by (simp add: name_from_end)
next
  case (Cons l ls)
  have wire: "drop at message = of_nat (length l) # l @ labels_wire ls @ 0 # rest"
    using Cons.prems(1) by (simp add: label_wire_def)
  then have inside: "at < length message" by (metis drop_all list.distinct(1) not_le)
  have at: "message ! at = of_nat (length l)" using nth_via_drop [OF wire] .
  have tail: "drop (at + 1) message = l @ labels_wire ls @ 0 # rest"
    using wire by (metis Suc_eq_plus1 drop_Suc list.sel(3) tl_drop)
  have len: "length l < 64" "l \<noteq> []" using Cons.prems(2) by (auto simp: MAX_LABEL_LEN_def)
  note byte = label_length_byte [OF len(1)]
  have "message ! at \<noteq> 0" unfolding at using byte(2) len(2) by (metis length_0_conv unat_0)
  moreover have "message ! at AND 0xc0 = 0" unfolding at by (rule byte(1))
  ultimately have step: "name_from message decoded at consumed =
     (if length message < at + 1 + length l then Inl Truncated
      else if DOT \<in> set l then Inl SeparatorInLabel
      else if MAX_NAME_CHARS < length (push_label decoded l) then Inl NameTooLong
      else name_from message (push_label decoded l) (at + 1 + length l) consumed)"
    by (intro name_from_label) (use tail in \<open>simp_all add: inside at byte\<close>)
  have "length message - (at + 1) = length (l @ labels_wire ls @ 0 # rest)"
    using tail by (metis length_drop)
  then have fits: "\<not> length message < at + 1 + length l" by simp
  have next_at: "drop (at + 1 + length l) message = labels_wire ls @ 0 # rest"
    using tail by (metis add.commute append_eq_conv_conj drop_drop)
  have "push_label decoded l \<noteq> []" using len(2) by (simp add: push_label_def)
  then have "length (push_label decoded l) \<le> length (name_of decoded (l # ls))"
    using length_name_of [of ls "push_label decoded l"] Cons.prems(2) by simp
  with Cons.prems have "\<not> MAX_NAME_CHARS < length (push_label decoded l)" by simp
  with step fits Cons.prems(2) Cons.IH [OF next_at, of "push_label decoded l"] Cons.prems(3) show ?case
    by (simp add: add.assoc)
qed

text \<open>Every decoding pushes well-formed labels; without a pointer they are the bytes consumed.\<close>

definition plain_name :: "bytes \<Rightarrow> bytes \<Rightarrow> nat \<Rightarrow> bytes \<times> nat \<Rightarrow> bool" where
  "plain_name message decoded at result \<longleftrightarrow>
     (\<exists>ls. labels_ok ls \<and> fst result = name_of decoded ls
       \<and> take (length (labels_wire ls) + 1) (drop at message) = labels_wire ls @ [0]
       \<and> snd result = at + length (labels_wire ls) + 1)"

definition pointed_name :: "bytes \<Rightarrow> nat \<Rightarrow> bytes \<times> nat \<Rightarrow> bool" where
  "pointed_name decoded at result \<longleftrightarrow>
     (\<exists>ls ls'. labels_ok (ls @ ls') \<and> fst result = name_of decoded (ls @ ls')
       \<and> snd result = at + length (labels_wire ls) + 2)"

lemma plain_name_label:
  assumes "plain_name message (push_label decoded label) (at + 1 + length label) result"
    and "label \<noteq> []" "length label \<le> MAX_LABEL_LEN" "DOT \<notin> set label"
    and "take (length label + 1) (drop at message) = label_wire label"
  shows "plain_name message decoded at result"
proof -
  obtain ls where ls: "labels_ok ls" "fst result = name_of (push_label decoded label) ls"
      "take (length (labels_wire ls) + 1) (drop (at + 1 + length label) message) = labels_wire ls @ [0]"
      "snd result = at + 1 + length label + length (labels_wire ls) + 1"
    using assms(1) by (auto simp: plain_name_def)
  have "take (length (labels_wire (label # ls)) + 1) (drop at message)
      = take (length label + 1) (drop at message)
        @ take (length (labels_wire ls) + 1) (drop (length label + 1) (drop at message))"
    using take_add [of "length label + 1" "length (labels_wire ls) + 1" "drop at message"] by (simp add: add.assoc)
  also have "\<dots> = label_wire label @ labels_wire ls @ [0]"
    using assms(5) ls(3) by (simp add: add.commute add.left_commute)
  finally show ?thesis
    unfolding plain_name_def using ls assms(2-4) by (intro exI [of _ "label # ls"]) simp
qed

lemma name_from_shape:
  assumes "name_from message decoded at consumed = Inr result"
  shows "(\<exists>ls. labels_ok ls \<and> fst result = name_of decoded ls)
     \<and> (\<forall>c. consumed = Some c \<longrightarrow> snd result = c)
     \<and> (consumed = None \<longrightarrow> plain_name message decoded at result \<or> pointed_name decoded at result)"
  using assms
proof (induction rule: name_from_induct)
  case (stop decoded at consumed)
  have "take 1 (drop at message) = [0]" using stop by (simp add: Cons_nth_drop_Suc [symmetric])
  then show ?case
    by (auto simp: plain_name_def or_else_def intro!: exI [of _ "[]"])
next
  case (label decoded at consumed label result)
  have ok: "label \<noteq> []" "length label \<le> MAX_LABEL_LEN"
    using label(3,5) short_label [OF label(2)] by (auto simp: unat_eq_zero MAX_LABEL_LEN_def)
  have "take (length label + 1) (drop at message) = message ! at # label"
    using label(1,6) by (simp add: Cons_nth_drop_Suc [symmetric])
  then have wire: "take (length label + 1) (drop at message) = label_wire label"
    using label(5) by (simp add: label_wire_def)
  have "pointed_name (push_label decoded label) (at + 1 + length label) result \<Longrightarrow> pointed_name decoded at result"
  proof -
    assume "pointed_name (push_label decoded label) (at + 1 + length label) result"
    then obtain ls ls' where "labels_ok (ls @ ls')" "fst result = name_of (push_label decoded label) (ls @ ls')"
        "snd result = at + 1 + length label + length (labels_wire ls) + 2"
      by (auto simp: pointed_name_def)
    then show ?thesis
      unfolding pointed_name_def
      by (intro exI [of _ "label # ls"] exI [of _ ls']) (use ok label(7) in simp)
  qed
  moreover have "\<exists>ls. labels_ok ls \<and> fst result = name_of decoded ls"
    using label(9) ok label(7) by (auto intro: exI [of _ "label # ls" for ls])
  ultimately show ?case using label(9) plain_name_label [OF _ ok label(7) wire] by blast
next
  case (pointer decoded at consumed target result)
  then obtain ls where "labels_ok ls" "fst result = name_of decoded ls" by blast
  moreover have "snd result = or_else consumed (at + 2)" using pointer by blast
  ultimately show ?case
    by (force simp: pointed_name_def or_else_def intro: exI [of _ "[]"] split: option.splits)
qed

lemma join_lengths:
  assumes "labels_ok (ls @ ls')" and "bs = name_of [] (ls @ ls')"
  shows "(if bs = [] then 1 else length bs + 2) \<noteq> length (labels_wire ls) + 2"
proof -
  have whole: "length bs + (if ls @ ls' \<noteq> [] then 1 else 0) = length (labels_wire (ls @ ls'))"
    using length_name_of [OF assms(1), of "[]"] assms(2) by simp
  have "labels_ok zs \<Longrightarrow> zs \<noteq> [] \<Longrightarrow> 2 \<le> length (labels_wire zs)" for zs
    by (cases zs) (auto simp: Suc_le_eq)
  then have "ls' \<noteq> [] \<Longrightarrow> 2 \<le> length (labels_wire ls')" "ls \<noteq> [] \<Longrightarrow> 2 \<le> length (labels_wire ls)"
    using assms(1) by auto
  with whole show ?thesis by (cases "ls = []"; cases "ls' = []") (auto simp: labels_wire_def)
qed

text \<open>The refusal of a compressed question is exact: a name as long as its encoding was read without a pointer.\<close>

lemma name_read_plain:
  assumes "name_read message at = Inr (n, used)" and "used = wire_len n"
  shows "plain_name message [] at (as_bytes n, at + used)"
proof -
  obtain bs stop where read: "name_from message [] at None = Inr (bs, stop)" "n = Name bs" "used = stop - at"
    using assms by (auto simp: name_read_def name_from_def reader_at_def split: if_splits sum.splits)
  have "at < stop" using name_from_ok [OF read(1)] by simp
  then have stop: "stop = at + used" using read(3) by simp
  have "\<not> pointed_name [] at (bs, stop)"
  proof
    assume "pointed_name [] at (bs, stop)"
    then obtain ls ls' where "labels_ok (ls @ ls')" "bs = name_of [] (ls @ ls')" "used = length (labels_wire ls) + 2"
      by (auto simp: pointed_name_def stop)
    moreover have "wire_len n = (if bs = [] then 1 else length bs + 2)"
      by (simp add: read(2) wire_len_def is_root_def)
    ultimately show False using join_lengths [of ls ls' bs] assms(2) by metis
  qed
  then show ?thesis using name_from_shape [OF read(1)] by (auto simp: stop read(2))
qed

lemma name_read_at:
  "at \<le> length message \<Longrightarrow> name_from message [] at None = Inr (bs, stop) \<Longrightarrow>
   name_read message at = Inr (Name bs, stop - at)"
  by (simp add: name_read_def name_from_def reader_at_def)

text \<open>A plain name is decoded alike wherever its bytes stand.\<close>

lemma plain_name_moves:
  assumes "plain_name message [] at (as_bytes n, at + used)" and "name_ok n"
    and "drop at' message' = take used (drop at message) @ rest"
  shows "name_read message' at' = Inr (n, used)"
proof -
  obtain ls where ls: "labels_ok ls" "as_bytes n = name_of [] ls"
      "take (length (labels_wire ls) + 1) (drop at message) = labels_wire ls @ [0]"
      "used = length (labels_wire ls) + 1"
    using assms(1) by (auto simp: plain_name_def)
  have wire: "drop at' message' = labels_wire ls @ 0 # rest" using assms(3) ls by simp
  then have "at' \<le> length message'" by (metis drop_all linear append_is_Nil_conv list.distinct(1))
  moreover have "name_from message' [] at' None = Inr (name_of [] ls, or_else None (at' + length (labels_wire ls) + 1))"
    using assms(2) ls by (intro name_from_labels [OF wire]) (simp_all add: name_ok_def)
  ultimately show ?thesis using ls by (cases n) (simp add: name_read_at or_else_def)
qed

section \<open>Round trip\<close>

lemma split_name_of:
  "labels_ok ls \<Longrightarrow> ls \<noteq> [] \<Longrightarrow> split_dot (name_of decoded ls) =
     (if decoded = [] then [] else split_dot decoded) @ map (map ascii_lower) ls"
proof (induction ls arbitrary: decoded)
  case (Cons l ls)
  then have "push_label decoded l \<noteq> []" by (simp add: push_label_def)
  with Cons show ?case by (cases "ls = []") (auto simp: split_push_label)
qed simp

fun join_dot :: "bytes list \<Rightarrow> bytes" where
  "join_dot [] = []"
| "join_dot [label] = label"
| "join_dot (label # next # labels) = label @ DOT # join_dot (next # labels)"

lemma join_split: "join_dot (split_dot bs) = bs"
proof (induction bs)
  case (Cons b bs)
  obtain l ls where split: "split_dot bs = l # ls" by (cases "split_dot bs") auto
  with Cons show ?case by (cases ls) auto
qed simp

lemma name_of_split:
  assumes "name_ok n" and "\<not> is_root n"
  shows "name_of [] (split_dot (as_bytes n)) = as_bytes n" and "labels_ok (split_dot (as_bytes n))"
proof -
  show ok: "labels_ok (split_dot (as_bytes n))"
    using assms split_dot_no_dot [of _ "as_bytes n"] by (auto simp: name_ok_def is_root_def labels_ok_def list_all_iff)
  have "split_dot (name_of [] (split_dot (as_bytes n))) = split_dot (map ascii_lower (as_bytes n))"
    using split_name_of [OF ok] by (simp add: split_dot_lower)
  then have "join_dot (split_dot (name_of [] (split_dot (as_bytes n)))) = join_dot (split_dot (as_bytes n))"
    using assms(1) by (simp add: name_ok_def)
  then show "name_of [] (split_dot (as_bytes n)) = as_bytes n" by (simp add: join_split)
qed

text \<open>The result of a bounded writer: its cursor and buffer, or nothing once it has overflowed.\<close>

definition bounded_result :: "bounded \<Rightarrow> (nat \<times> bytes) option" where
  "bounded_result w = (if bd_overflowed w then None else Some (bd_at w, bd_out w))"

definition put_bytes :: "bytes \<Rightarrow> nat \<times> bytes \<Rightarrow> (nat \<times> bytes) option" where
  "put_bytes v s = (case s of (at, out) \<Rightarrow>
     if at + length v \<le> length out then Some (at + length v, overwrite out at v) else None)"

lemma bounded_result_bytes: "bounded_result (bounded_bytes v w) = Option.bind (bounded_result w) (put_bytes v)"
  by (auto simp: bounded_result_def bounded_bytes_def put_bytes_def)

lemma overwrite_append:
  "at + length xs + length ys \<le> length out \<Longrightarrow>
   overwrite (overwrite out at xs) (at + length xs) ys = overwrite out at (xs @ ys)"
  by (simp add: overwrite_def min_absorb2 add.commute add.left_commute)

lemma put_bytes_append: "Option.bind (put_bytes xs s) (put_bytes ys) = put_bytes (xs @ ys) s"
  by (cases s) (auto simp: put_bytes_def overwrite_append add.assoc)

lemma bounded_result_append:
  "bounded_result (bounded_bytes ys (bounded_bytes xs w)) = Option.bind (bounded_result w) (put_bytes (xs @ ys))"
  by (simp add: bounded_result_bytes put_bytes_append)

lemma bounded_result_labels:
  "bounded_result (bounded_u8 0 (fold bounded_vector_u8 labels w))
     = Option.bind (bounded_result w) (put_bytes (labels_wire labels @ [0]))"
proof (induction labels arbitrary: w)
  case (Cons l ls)
  then show ?case
    by (simp add: bounded_vector_u8_def bounded_u8_def bounded_result_append label_wire_def put_bytes_append)
qed (simp add: bounded_u8_def bounded_result_bytes)

definition put_or_fail :: "bytes \<Rightarrow> nat \<times> bytes \<Rightarrow> dns_error + nat \<times> bytes" where
  "put_or_fail v s = (case put_bytes v s of None \<Rightarrow> Inl OutputTooSmall | Some s' \<Rightarrow> Inr s')"

lemma put_or_fail_Inr:
  "put_or_fail v (at, out) = Inr (stop, out') \<longleftrightarrow>
     at + length v \<le> length out \<and> stop = at + length v \<and> out' = overwrite out at v"
  by (auto simp: put_or_fail_def put_bytes_def)

lemma bounded_finish_result:
  "(case bounded_finish w of None \<Rightarrow> Inl OutputTooSmall | Some stop \<Rightarrow> Inr (stop, bd_out w))
     = (case bounded_result w of None \<Rightarrow> Inl OutputTooSmall | Some s \<Rightarrow> Inr s)"
  by (simp add: bounded_finish_def bounded_result_def)

text \<open>A writer that starts at a cursor and puts \<open>v\<close> puts it there or fails.\<close>

lemma bounded_puts:
  assumes "\<And>w. bounded_result (f w) = Option.bind (bounded_result w) (put_bytes v)"
  shows "(case bounded_at out at of
            None \<Rightarrow> Inl OutputTooSmall
          | Some w \<Rightarrow> (case bounded_finish (f w) of
                          None \<Rightarrow> Inl OutputTooSmall | Some stop \<Rightarrow> Inr (stop, bd_out (f w))))
     = put_or_fail v (at, out)"
proof -
  have "bounded_result \<lparr>bd_out = out, bd_at = at, bd_overflowed = False\<rparr> = Some (at, out)"
    by (simp add: bounded_result_def)
  then have "bounded_result (f \<lparr>bd_out = out, bd_at = at, bd_overflowed = False\<rparr>) = put_bytes v (at, out)"
    using assms by simp
  then show ?thesis
    unfolding bounded_finish_result by (auto simp: bounded_at_def put_or_fail_def put_bytes_def)
qed

lemma name_write_eq: "name_write n out at = put_or_fail (name_wire n) (at, out)"
proof -
  have "bounded_result (bounded_u8 0 (if is_root n then w else fold bounded_vector_u8 (split_dot (as_bytes n)) w))
      = Option.bind (bounded_result w) (put_bytes (name_wire n))" for w
    using bounded_result_labels [of "[]" w] bounded_result_labels [of "split_dot (as_bytes n)" w]
    by (simp add: name_wire_def)
  then show ?thesis unfolding name_write_def Let_def by (rule bounded_puts)
qed

lemma length_name_wire: "name_ok n \<Longrightarrow> length (name_wire n) = wire_len n"
  using length_name_of [of "split_dot (as_bytes n)" "[]"] name_of_split [of n]
  by (auto simp: name_wire_def wire_len_def)

lemma name_read_wire:
  assumes "name_ok n" and "drop at message = name_wire n @ rest"
  shows "name_read message at = Inr (n, wire_len n)"
proof -
  define ls where "ls = (if is_root n then [] else split_dot (as_bytes n))"
  have ok: "labels_ok ls" "name_of [] ls = as_bytes n"
    using name_of_split [OF assms(1)] by (auto simp: ls_def is_root_def)
  have wire: "drop at message = labels_wire ls @ 0 # rest"
    using assms(2) by (simp add: name_wire_def flip: ls_def)
  then have "at \<le> length message" by (metis drop_all linear append_is_Nil_conv list.distinct(1))
  moreover have "name_from message [] at None = Inr (as_bytes n, at + wire_len n)"
    using name_from_labels [OF wire ok(1), of "[]" None] assms(1) ok(2) length_name_wire [OF assms(1)]
    by (simp add: or_else_def name_ok_def name_wire_def flip: ls_def)
  ultimately show ?thesis using name_read_at by fastforce
qed

text \<open>
  C34. Encoding and decoding are inverse: a well-formed name is written exactly when its encoding fits
  behind the cursor, changes only the bytes of its encoding, and is read back from there as the same
  name with the same length. Every name normalised from presentation form is well-formed.
\<close>

theorem name_write_read:
  assumes "name_ok n \<or> name_parse text = Some n"
  shows "(case name_write n out at of
            Inl e \<Rightarrow> e = OutputTooSmall \<and> length out < at + wire_len n
          | Inr (stop, out') \<Rightarrow>
              stop = at + wire_len n \<and> stop \<le> length out \<and> name_read out' at = Inr (n, wire_len n)
              \<and> take at out' = take at out \<and> drop stop out' = drop stop out)"
proof -
  have ok: "name_ok n" using assms name_parse_ok by blast
  show ?thesis
  proof (cases "at + wire_len n \<le> length out")
    case True
    define out' where "out' = overwrite out at (name_wire n)"
    note len = length_name_wire [OF ok]
    have "name_write n out at = Inr (at + wire_len n, out')"
      using True len by (simp add: name_write_eq put_or_fail_def put_bytes_def out'_def)
    moreover have "drop at out' = name_wire n @ drop (at + wire_len n) out"
      using True len by (simp add: out'_def overwrite_def)
    moreover have "take at out' = take at out" "drop (at + wire_len n) out' = drop (at + wire_len n) out"
      using True len by (simp_all add: out'_def overwrite_def)
    ultimately show ?thesis using name_read_wire [OF ok] True by simp
  next
    case False
    then show ?thesis
      using length_name_wire [OF ok] by (simp add: name_write_eq put_or_fail_def put_bytes_def)
  qed
qed

theorem name_write_read_witness:
  "\<exists>stop out'. name_write (Name [97, 46, 98]) (replicate 9 7) 2 = Inr (stop, out')
     \<and> name_read out' 2 = Inr (Name [97, 46, 98], 5)"
proof -
  have "name_parse [65, 46, 98, 46] = Some (Name [97, 46, 98])"
    by (simp add: name_parse_def DOT_def MAX_NAME_CHARS_def MAX_LABEL_LEN_def ascii_lower_def)
  then show ?thesis
    using name_write_read [of "Name [97, 46, 98]" "[65, 46, 98, 46]" "replicate 9 7" 2]
    by (auto simp: wire_len_def is_root_def split: sum.splits)
qed

end
