(* ===== verification/Dns_Message.thy ===== *)
theory Dns_Message
  imports Dns_Name
begin

text \<open>
  DNS messages, the second part of \<^verbatim>\<open>src/policy/dns.rs\<close>: record types and response codes, the message header
  with its one question, and the walk over the records of a section.

  The record iterator is a state with a cursor and a count; the loops over it are functions that
  recurse on the count. A record that cannot be read leaves the cursor where it was.
\<close>

section \<open>Record types and response codes\<close>

datatype record_type = TypeA | TypeAaaa | TypeHttps | TypeSvcb | TypeOther u16

definition type_from_wire :: "u16 \<Rightarrow> record_type" where
  "type_from_wire w =
     (if w = 1 then TypeA else if w = 28 then TypeAaaa else if w = 64 then TypeSvcb
      else if w = 65 then TypeHttps else TypeOther w)"

fun type_to_wire :: "record_type \<Rightarrow> u16" where
  "type_to_wire TypeA = 1"
| "type_to_wire TypeAaaa = 28"
| "type_to_wire TypeSvcb = 64"
| "type_to_wire TypeHttps = 65"
| "type_to_wire (TypeOther other) = other"

definition carries_svc_params :: "record_type \<Rightarrow> bool" where
  "carries_svc_params t \<longleftrightarrow> t = TypeHttps \<or> t = TypeSvcb"

definition FLAG_RESPONSE :: u16 where "FLAG_RESPONSE = 0x8000"
definition FLAG_RECURSION_DESIRED :: u16 where "FLAG_RECURSION_DESIRED = 0x0100"
definition FLAG_RECURSION_AVAILABLE :: u16 where "FLAG_RECURSION_AVAILABLE = 0x0080"
definition FLAG_TRUNCATED :: u16 where "FLAG_TRUNCATED = 0x0200"
definition FLAG_AUTHENTIC_DATA :: u16 where "FLAG_AUTHENTIC_DATA = 0x0020"
definition FLAG_CHECKING_DISABLED :: u16 where "FLAG_CHECKING_DISABLED = 0x0010"
definition OPCODE_MASK :: u16 where "OPCODE_MASK = 0x7800"
definition OPT :: u16 where "OPT = 41"
definition RCODE_MASK :: u16 where "RCODE_MASK = 0x000f"

datatype rcode = NoError | FormatError | ServerFailure | NameError | RcodeOther u16

definition rcode_from_wire :: "u16 \<Rightarrow> rcode" where
  "rcode_from_wire w =
     (let code = w AND RCODE_MASK
      in if code = 0 then NoError else if code = 1 then FormatError else if code = 2 then ServerFailure
         else if code = 3 then NameError else RcodeOther code)"

fun rcode_to_wire :: "rcode \<Rightarrow> u16" where
  "rcode_to_wire NoError = 0"
| "rcode_to_wire FormatError = 1"
| "rcode_to_wire ServerFailure = 2"
| "rcode_to_wire NameError = 3"
| "rcode_to_wire (RcodeOther other) = other AND RCODE_MASK"

section \<open>Messages\<close>

record question =
  q_name :: name
  q_type :: record_type
  q_class :: u16

record resource_record =
  rr_name :: name
  rr_type :: record_type
  rr_class :: u16
  rr_ttl :: u32
  rr_rdata :: bytes

record message =
  ms_bytes :: bytes
  ms_id :: u16
  ms_flags :: u16
  ms_answer_count :: u16
  ms_authority_count :: u16
  ms_additional_count :: u16
  ms_question :: question
  ms_question_bytes :: bytes
  ms_answers_at :: nat

text \<open>The six header fields, read in order; a short header is one error wherever it ends.\<close>

definition read_header :: "reader \<Rightarrow> (u16 \<times> u16 \<times> u16 \<times> u16 \<times> u16 \<times> u16 \<times> reader) option" where
  "read_header r =
     Option.bind (reader_u16 r) (\<lambda>(ident, r).
     Option.bind (reader_u16 r) (\<lambda>(flags, r).
     Option.bind (reader_u16 r) (\<lambda>(questions, r).
     Option.bind (reader_u16 r) (\<lambda>(answers, r).
     Option.bind (reader_u16 r) (\<lambda>(authority, r).
     Option.bind (reader_u16 r) (\<lambda>(additional, r).
       Some (ident, flags, questions, answers, authority, additional, r)))))))"

definition read_type_class :: "reader \<Rightarrow> (u16 \<times> u16 \<times> reader) option" where
  "read_type_class r =
     Option.bind (reader_u16 r) (\<lambda>(qtype, r). Option.bind (reader_u16 r) (\<lambda>(qclass, r). Some (qtype, qclass, r)))"

definition message_parse :: "bytes \<Rightarrow> dns_error + message" where
  "message_parse bs =
     (case read_header (reader_new bs) of
        None \<Rightarrow> Inl Truncated
      | Some (ident, flags, questions, answers, authority, additional, reader) \<Rightarrow>
          (if flags AND OPCODE_MASK \<noteq> 0 then Inl NotAQuery
           else if questions = 0 then Inl NoQuestion
           else if questions \<noteq> 1 then Inl (MultipleQuestions questions)
           else
             (let question_at = reader_position reader
              in case name_read bs question_at of
                   Inl e \<Rightarrow> Inl e
                 | Inr (n, name_len) \<Rightarrow>
                     (if name_len \<noteq> wire_len n then Inl CompressedQuestion
                      else case reader_skip name_len reader of
                             None \<Rightarrow> Inl Truncated
                           | Some reader \<Rightarrow>
                               (case read_type_class reader of
                                  None \<Rightarrow> Inl Truncated
                                | Some (qtype, qclass, reader) \<Rightarrow>
                                    Inr \<lparr>ms_bytes = bs, ms_id = ident, ms_flags = flags, ms_answer_count = answers,
                                         ms_authority_count = authority, ms_additional_count = additional,
                                         ms_question = \<lparr>q_name = n, q_type = type_from_wire qtype, q_class = qclass\<rparr>,
                                         ms_question_bytes = take (reader_position reader - question_at) (drop question_at bs),
                                         ms_answers_at = reader_position reader\<rparr>)))))"

definition message_rcode :: "message \<Rightarrow> rcode" where
  "message_rcode m = rcode_from_wire (ms_flags m)"

definition is_response :: "message \<Rightarrow> bool" where
  "is_response m \<longleftrightarrow> ms_flags m AND FLAG_RESPONSE \<noteq> 0"

definition is_truncated :: "message \<Rightarrow> bool" where
  "is_truncated m \<longleftrightarrow> ms_flags m AND FLAG_TRUNCATED \<noteq> 0"

definition recursion_desired :: "message \<Rightarrow> bool" where
  "recursion_desired m \<longleftrightarrow> ms_flags m AND FLAG_RECURSION_DESIRED \<noteq> 0"

definition authentic_data :: "message \<Rightarrow> bool" where
  "authentic_data m \<longleftrightarrow> ms_flags m AND FLAG_AUTHENTIC_DATA \<noteq> 0"

definition checking_disabled :: "message \<Rightarrow> bool" where
  "checking_disabled m \<longleftrightarrow> ms_flags m AND FLAG_CHECKING_DISABLED \<noteq> 0"

section \<open>Records of a section\<close>

record answers =
  an_message :: bytes
  an_cursor :: nat
  an_remaining :: u16

definition answers_read :: "answers \<Rightarrow> (dns_error + resource_record) \<times> answers" where
  "answers_read a =
     (case name_read (an_message a) (an_cursor a) of
        Inl e \<Rightarrow> (Inl e, a)
      | Inr (n, name_len) \<Rightarrow>
          (case reader_at (an_message a) (an_cursor a + name_len) of
             None \<Rightarrow> (Inl Truncated, a)
           | Some reader \<Rightarrow>
               (case Option.bind (read_type_class reader) (\<lambda>(rtype, rclass, reader).
                       map_option (\<lambda>(ttl, reader). (rtype, rclass, ttl, reader)) (reader_u32 reader)) of
                  None \<Rightarrow> (Inl Truncated, a)
                | Some (rtype, rclass, ttl, reader) \<Rightarrow>
                    (case reader_vector_u16 reader of
                       None \<Rightarrow> (Inl Truncated, a)
                     | Some (rdata, reader) \<Rightarrow>
                         (Inr \<lparr>rr_name = n, rr_type = type_from_wire rtype, rr_class = rclass, rr_ttl = ttl,
                               rr_rdata = rdata\<rparr>,
                          a\<lparr>an_cursor := reader_position reader\<rparr>)))))"

definition answers_next :: "answers \<Rightarrow> (dns_error + resource_record) option \<times> answers" where
  "answers_next a =
     (if an_remaining a = 0 then (None, a)
      else let (item, a) = answers_read (a\<lparr>an_remaining := an_remaining a - 1\<rparr>) in (Some item, a))"

lemma answers_read_remaining [simp]: "an_remaining (snd (answers_read a)) = an_remaining a"
  by (auto simp: answers_read_def split: sum.splits option.splits prod.splits)

lemma answers_next_remaining:
  assumes "answers_next a = (Some item, a')"
  shows "unat (an_remaining a') < unat (an_remaining a)"
proof -
  have "an_remaining a \<noteq> 0" and "an_remaining a' = an_remaining a - 1"
    using assms answers_read_remaining [of "a\<lparr>an_remaining := an_remaining a - 1\<rparr>"]
    by (auto simp: answers_next_def simp del: answers_read_remaining split: if_splits prod.splits)
  then show ?thesis by (simp add: unat_minus_one unat_gt_0)
qed

text \<open>\<open>Answers::end\<close>, the offset past the last record.\<close>

function answers_end :: "answers \<Rightarrow> dns_error + nat" where
  "answers_end a =
     (case answers_next a of
        (None, a) \<Rightarrow> Inr (an_cursor a)
      | (Some (Inl e), a) \<Rightarrow> Inl e
      | (Some (Inr _), a) \<Rightarrow> answers_end a)"
  by pat_completeness auto

termination
  by (relation "measure (\<lambda>a. unat (an_remaining a))") (auto dest: answers_next_remaining [OF sym])

text \<open>A loop over the records that stops at the first error, of the walk or of its body.\<close>

function for_answers :: "(resource_record \<Rightarrow> 's \<Rightarrow> dns_error + 's) \<Rightarrow> answers \<Rightarrow> 's \<Rightarrow> dns_error + 's" where
  "for_answers body a s =
     (case answers_next a of
        (None, a) \<Rightarrow> Inr s
      | (Some (Inl e), a) \<Rightarrow> Inl e
      | (Some (Inr answer), a) \<Rightarrow> (case body answer s of Inl e \<Rightarrow> Inl e | Inr s \<Rightarrow> for_answers body a s))"
  by pat_completeness auto

termination
  by (relation "measure (\<lambda>(_, a, _). unat (an_remaining a))") (auto dest: answers_next_remaining [OF sym])

text \<open>\<open>find_map\<close> over the records, which goes on past one it cannot read.\<close>

function find_answer :: "((dns_error + resource_record) \<Rightarrow> 'b option) \<Rightarrow> answers \<Rightarrow> 'b option" where
  "find_answer pick a =
     (case answers_next a of
        (None, a) \<Rightarrow> None
      | (Some item, a) \<Rightarrow> (case pick item of None \<Rightarrow> find_answer pick a | Some b \<Rightarrow> Some b))"
  by pat_completeness auto

termination
  by (relation "measure (\<lambda>(_, a). unat (an_remaining a))") (auto dest: answers_next_remaining [OF sym])

declare answers_end.simps [simp del] for_answers.simps [simp del] find_answer.simps [simp del]

definition message_answers :: "message \<Rightarrow> answers" where
  "message_answers m = \<lparr>an_message = ms_bytes m, an_cursor = ms_answers_at m, an_remaining = ms_answer_count m\<rparr>"

definition message_authority :: "message \<Rightarrow> answers" where
  "message_authority m =
     \<lparr>an_message = ms_bytes m,
      an_cursor = (case answers_end (message_answers m) of Inl _ \<Rightarrow> length (ms_bytes m) | Inr at \<Rightarrow> at),
      an_remaining = ms_authority_count m\<rparr>"

definition udp_payload_size :: "message \<Rightarrow> u16 option" where
  "udp_payload_size m =
     (case checked_add (ms_answer_count m) (ms_authority_count m) of
        None \<Rightarrow> None
      | Some records \<Rightarrow>
          (case answers_end \<lparr>an_message = ms_bytes m, an_cursor = ms_answers_at m, an_remaining = records\<rparr> of
             Inl _ \<Rightarrow> None
           | Inr additional_at \<Rightarrow>
               find_answer
                 (\<lambda>item. case item of
                    Inl _ \<Rightarrow> None
                  | Inr r \<Rightarrow> if type_to_wire (rr_type r) = OPT then Some (rr_class r) else None)
                 \<lparr>an_message = ms_bytes m, an_cursor = additional_at, an_remaining = ms_additional_count m\<rparr>))"

end
