(* ===== verification/Host_Policy.thy ===== *)
theory Host_Policy
  imports Dns_Message
begin

text \<open>
  The host rules of \<^verbatim>\<open>src/policy/dns.rs\<close>: three sets of normalised suffixes, the judgment of a name by its
  suffixes from the most specific one up, and the plan of a query that follows from it.
\<close>

section \<open>Rules\<close>

datatype host_verdict = Blocked | Allowed | Inspected

record host_judgment =
  jd_verdict :: host_verdict
  jd_matched :: "name option"

record host_policy =
  hp_allowed :: "bytes set"
  hp_blocked :: "bytes set"
  hp_inspected :: "bytes set"

definition policy_new :: host_policy where
  "policy_new = \<lparr>hp_allowed = {}, hp_blocked = {}, hp_inspected = {}\<rparr>"

text \<open>\<open>insert\<close> on one of the sets: the name must parse and not be the root.\<close>

definition rule_insert :: "bytes \<Rightarrow> bytes set \<Rightarrow> bool \<times> bytes set" where
  "rule_insert text rules =
     (case name_parse text of
        Some parsed \<Rightarrow> if is_root parsed then (False, rules) else (True, insert (as_bytes parsed) rules)
      | None \<Rightarrow> (False, rules))"

definition policy_block :: "bytes \<Rightarrow> host_policy \<Rightarrow> bool \<times> host_policy" where
  "policy_block text p = (let (added, rules) = rule_insert text (hp_blocked p) in (added, p\<lparr>hp_blocked := rules\<rparr>))"

definition policy_allow :: "bytes \<Rightarrow> host_policy \<Rightarrow> bool \<times> host_policy" where
  "policy_allow text p = (let (added, rules) = rule_insert text (hp_allowed p) in (added, p\<lparr>hp_allowed := rules\<rparr>))"

definition policy_inspect :: "bytes \<Rightarrow> host_policy \<Rightarrow> bool \<times> host_policy" where
  "policy_inspect text p = (let (added, rules) = rule_insert text (hp_inspected p) in (added, p\<lparr>hp_inspected := rules\<rparr>))"

definition insert_name :: "host_verdict \<Rightarrow> name \<Rightarrow> host_policy \<Rightarrow> host_policy" where
  "insert_name verdict n p =
     (case verdict of
        Allowed \<Rightarrow> p\<lparr>hp_allowed := insert (as_bytes n) (hp_allowed p)\<rparr>
      | Blocked \<Rightarrow> p\<lparr>hp_blocked := insert (as_bytes n) (hp_blocked p)\<rparr>
      | Inspected \<Rightarrow> p\<lparr>hp_inspected := insert (as_bytes n) (hp_inspected p)\<rparr>)"

record rule_counts =
  rc_allowed :: nat
  rc_blocked :: nat
  rc_inspected :: nat

definition policy_len :: "host_policy \<Rightarrow> rule_counts" where
  "policy_len p =
     \<lparr>rc_allowed = card (hp_allowed p), rc_blocked = card (hp_blocked p), rc_inspected = card (hp_inspected p)\<rparr>"

section \<open>Judgment\<close>

text \<open>The first rule on a suffix decides, a block before an inspection; an exception on any suffix ends the walk.\<close>

definition decide :: "host_policy \<Rightarrow> bytes \<Rightarrow> host_judgment option" where
  "decide p suffix =
     (if suffix \<in> hp_blocked p then Some \<lparr>jd_verdict = Blocked, jd_matched = Some (Name suffix)\<rparr>
      else if suffix \<in> hp_inspected p then Some \<lparr>jd_verdict = Inspected, jd_matched = Some (Name suffix)\<rparr>
      else None)"

fun judge_loop :: "host_policy \<Rightarrow> bytes list \<Rightarrow> host_judgment option \<Rightarrow> host_judgment" where
  "judge_loop p [] decided = or_else decided \<lparr>jd_verdict = Allowed, jd_matched = None\<rparr>"
| "judge_loop p (suffix # rest) decided =
     (if suffix \<in> hp_allowed p then \<lparr>jd_verdict = Allowed, jd_matched = Some (Name suffix)\<rparr>
      else judge_loop p rest (if decided = None then decide p suffix else decided))"

definition judge :: "host_policy \<Rightarrow> name \<Rightarrow> host_judgment" where
  "judge p n = judge_loop p (suffixes n) None"

section \<open>Plans\<close>

datatype ech_policy = EchPreserve | EchStrip

datatype alpn_policy = AlpnPreserve | StripH3

fun ech_policy_for :: "host_verdict \<Rightarrow> ech_policy" where
  "ech_policy_for Inspected = EchStrip"
| "ech_policy_for Allowed = EchPreserve"
| "ech_policy_for Blocked = EchPreserve"

fun alpn_policy_for :: "host_verdict \<Rightarrow> alpn_policy" where
  "alpn_policy_for Inspected = StripH3"
| "alpn_policy_for Allowed = AlpnPreserve"
| "alpn_policy_for Blocked = AlpnPreserve"

record answer_policy =
  ap_ech :: ech_policy
  ap_alpn :: alpn_policy

definition steers :: "answer_policy \<Rightarrow> bool" where
  "steers p \<longleftrightarrow> ap_alpn p = StripH3"

definition answer_policy_for :: "host_verdict \<Rightarrow> answer_policy" where
  "answer_policy_for verdict = \<lparr>ap_ech = ech_policy_for verdict, ap_alpn = alpn_policy_for verdict\<rparr>"

datatype query_plan = Refuse name | Forward answer_policy

definition plan_query :: "question \<Rightarrow> host_policy \<Rightarrow> query_plan" where
  "plan_query q p =
     (let j = judge p (q_name q)
      in if jd_verdict j = Blocked then Refuse (or_else (jd_matched j) ROOT)
         else Forward (answer_policy_for (jd_verdict j)))"

section \<open>Suffixes are the names that cover a name\<close>

definition covers :: "bytes \<Rightarrow> name \<Rightarrow> bool" where
  "covers rule n \<longleftrightarrow> as_bytes n = rule \<or> (\<exists>pre. as_bytes n = pre @ DOT # rule)"

lemma parent_suffix_Some: "DOT \<notin> set label \<Longrightarrow> parent_suffix (label @ DOT # rest) = Some rest"
  by (subst parent_suffix_def, subst dropWhile_append2) auto

lemma parent_suffix_None: "parent_suffix bs = None \<longleftrightarrow> DOT \<notin> set bs"
proof -
  have "parent_suffix bs = None \<longleftrightarrow> dropWhile (\<lambda>b. b \<noteq> DOT) bs = []"
    by (simp add: parent_suffix_def list.case_eq_if)
  then show ?thesis by (auto simp: dropWhile_eq_Nil_conv)
qed

lemma set_suffixes_from: "set (suffixes_from bs) = {s. bs = s \<or> (\<exists>pre. bs = pre @ DOT # s)}"
proof (induction bs rule: suffixes_from.induct)
  case (1 bs)
  show ?case
  proof (cases "DOT \<in> set bs")
    case False
    then have "parent_suffix bs = None" by (simp add: parent_suffix_None)
    with False show ?thesis by (subst suffixes_from.simps) auto
  next
    case True
    then obtain label rest where bs: "bs = label @ DOT # rest" "DOT \<notin> set label"
      using split_list_first by metis
    have parent: "parent_suffix bs = Some rest" using bs by (simp add: parent_suffix_Some)
    have "(\<exists>pre. bs = pre @ DOT # s) \<longleftrightarrow> rest = s \<or> (\<exists>pre. rest = pre @ DOT # s)" for s
    proof
      assume "\<exists>pre. bs = pre @ DOT # s"
      then obtain pre where pre: "label @ DOT # rest = pre @ DOT # s" using bs(1) by auto
      then consider us where "label = pre @ us" "us @ DOT # rest = DOT # s" | us where "label @ us = pre" "DOT # rest = us @ DOT # s"
        by (auto simp: append_eq_append_conv2)
      then show "rest = s \<or> (\<exists>pre. rest = pre @ DOT # s)"
        using bs(2) by cases (auto simp: Cons_eq_append_conv append_eq_Cons_conv)
    next
      assume "rest = s \<or> (\<exists>pre. rest = pre @ DOT # s)"
      then show "\<exists>pre. bs = pre @ DOT # s"
        using bs(1) by (metis append.assoc append_Cons)
    qed
    with "1.IH" [OF parent] show ?thesis by (subst suffixes_from.simps) (auto simp: parent)
  qed
qed

lemma sorted_suffixes_from: "sorted_wrt (\<lambda>s t. length t < length s) (suffixes_from bs)"
proof (induction bs rule: suffixes_from.induct)
  case (1 bs)
  show ?case
  proof (cases "parent_suffix bs")
    case None
    then show ?thesis by (subst suffixes_from.simps) simp
  next
    case (Some rest)
    have "\<forall>s \<in> set (suffixes_from rest). length s \<le> length rest" by (auto simp: set_suffixes_from)
    then show ?thesis
      using "1.IH" [OF Some] parent_suffix_shorter [OF Some] by (subst suffixes_from.simps) (auto simp: Some)
  qed
qed

lemma set_suffixes: "\<not> is_root n \<Longrightarrow> set (suffixes n) = {s. covers s n}"
  by (simp add: suffixes_def is_root_def set_suffixes_from covers_def)

lemma judge_loop_eq:
  "judge_loop p ss decided =
     (case find (\<lambda>s. s \<in> hp_allowed p) ss of
        Some s \<Rightarrow> \<lparr>jd_verdict = Allowed, jd_matched = Some (Name s)\<rparr>
      | None \<Rightarrow>
          (case decided of
             Some j \<Rightarrow> j
           | None \<Rightarrow>
               (case find (\<lambda>s. s \<in> hp_blocked p \<union> hp_inspected p) ss of
                  Some s \<Rightarrow> \<lparr>jd_verdict = (if s \<in> hp_blocked p then Blocked else Inspected), jd_matched = Some (Name s)\<rparr>
                | None \<Rightarrow> \<lparr>jd_verdict = Allowed, jd_matched = None\<rparr>)))"
  by (induction ss arbitrary: decided) (auto simp: or_else_def decide_def split: option.splits)

lemma find_longest:
  assumes "sorted_wrt (\<lambda>s t. length t < length s) ss" and "find P ss = Some s"
  shows "s \<in> set ss \<and> P s \<and> (\<forall>t \<in> set ss. P t \<longrightarrow> length t \<le> length s)"
  using assms by (induction ss) (auto split: if_splits)

text \<open>
  C6. How a name is judged: an exception that covers the name wins over every other rule, whatever their lengths, and
  the longest such exception is reported; without one the longest covering block or inspection rule decides, a
  block before an inspection of the same name; with no covering rule the name is allowed and no rule is reported.
\<close>

theorem judge_longest_rule:
  assumes "\<not> is_root n"
  shows "(case jd_matched (judge p n) of
            None \<Rightarrow> jd_verdict (judge p n) = Allowed
              \<and> (\<forall>s. covers s n \<longrightarrow> s \<notin> hp_allowed p \<union> hp_blocked p \<union> hp_inspected p)
          | Some m \<Rightarrow> covers (as_bytes m) n \<and>
              (if jd_verdict (judge p n) = Allowed
               then as_bytes m \<in> hp_allowed p
                 \<and> (\<forall>s \<in> hp_allowed p. covers s n \<longrightarrow> length s \<le> length (as_bytes m))
               else (\<forall>s \<in> hp_allowed p. \<not> covers s n)
                 \<and> as_bytes m \<in> (if jd_verdict (judge p n) = Blocked then hp_blocked p else hp_inspected p - hp_blocked p)
                 \<and> (\<forall>s \<in> hp_blocked p \<union> hp_inspected p. covers s n \<longrightarrow> length s \<le> length (as_bytes m))))"
proof -
  let ?ss = "suffixes n"
  have sorted: "sorted_wrt (\<lambda>s t. length t < length s) ?ss" by (simp add: suffixes_def sorted_suffixes_from)
  have set: "s \<in> set ?ss \<longleftrightarrow> covers s n" for s using set_suffixes [OF assms] by simp
  show ?thesis
  proof (cases "find (\<lambda>s. s \<in> hp_allowed p) ?ss")
    case (Some s)
    then have "judge p n = \<lparr>jd_verdict = Allowed, jd_matched = Some (Name s)\<rparr>"
      by (simp add: judge_def judge_loop_eq)
    then show ?thesis using find_longest [OF sorted Some] by (simp add: set)
  next
    case None
    then have no: "\<forall>s \<in> hp_allowed p. \<not> covers s n" by (auto simp: find_None_iff set)
    show ?thesis
    proof (cases "find (\<lambda>s. s \<in> hp_blocked p \<union> hp_inspected p) ?ss")
      case found: (Some s)
      have "judge p n = \<lparr>jd_verdict = (if s \<in> hp_blocked p then Blocked else Inspected), jd_matched = Some (Name s)\<rparr>"
        using None found by (simp add: judge_def judge_loop_eq)
      moreover have "covers s n" "s \<in> hp_blocked p \<union> hp_inspected p"
          "\<forall>t \<in> hp_blocked p \<union> hp_inspected p. covers t n \<longrightarrow> length t \<le> length s"
        using find_longest [OF sorted found] set by blast+
      ultimately show ?thesis using no by (cases "s \<in> hp_blocked p") simp_all
    next
      case none: None
      have "judge p n = \<lparr>jd_verdict = Allowed, jd_matched = None\<rparr>"
        using None none by (simp add: judge_def judge_loop_eq)
      then show ?thesis using none no by (auto simp: find_None_iff set)
    qed
  qed
qed

definition sample_policy :: host_policy where
  "sample_policy = \<lparr>hp_allowed = {[97, 46, 98]}, hp_blocked = {[98]}, hp_inspected = {}\<rparr>"

theorem judge_longest_rule_witness:
  "jd_verdict (judge sample_policy (Name [99, 46, 97, 46, 98])) = Allowed"
proof -
  have "covers [97, 46, 98] (Name [99, 46, 97, 46, 98])"
    by (auto simp: covers_def DOT_def intro: exI [of _ "[99]"])
  then show ?thesis
    using judge_longest_rule [of "Name [99, 46, 97, 46, 98]" sample_policy]
    by (simp add: is_root_def sample_policy_def split: option.splits if_splits)
qed

end
