(* ===== verification/Svc_Params.thy ===== *)
theory Svc_Params
  imports Dns_Name
begin

text \<open>
  Service parameters of HTTPS and SVCB records, from \<^verbatim>\<open>src/policy/dns.rs\<close>: the walk over the parameters behind
  the target name, the search for the \<open>ech\<close> parameter and for an \<open>alpn\<close> parameter that offers
  HTTP/3, and RDATA with up to two ranges cut out.

  The walk is a state with a cursor and the last key; ranges are pairs of offsets into the RDATA.
\<close>

section \<open>The walk\<close>

definition SVCPARAM_ECH :: u16 where "SVCPARAM_ECH = 5"
definition SVCPARAM_ALPN :: u16 where "SVCPARAM_ALPN = 1"
definition SVCPARAM_NO_DEFAULT_ALPN :: u16 where "SVCPARAM_NO_DEFAULT_ALPN = 2"

record svc_param =
  sp_key :: u16
  sp_value :: bytes
  sp_at :: "nat \<times> nat"

record svc_walk =
  sw_rdata :: bytes
  sw_cursor :: nat
  sw_previous :: "u16 option"

text \<open>The offset past the uncompressed target name.\<close>

function target_end :: "bytes \<Rightarrow> nat \<Rightarrow> dns_error + nat" where
  "target_end rdata cursor =
     (case slice_get rdata cursor of
        None \<Rightarrow> Inl Truncated
      | Some len \<Rightarrow>
          (if len AND 0xc0 \<noteq> 0 then Inl ReservedLabel
           else if len = 0 then Inr (cursor + 1 + unat len)
           else target_end rdata (cursor + 1 + unat len)))"
  by pat_completeness auto

termination
  by (relation "measure (\<lambda>(rdata, cursor). length rdata - cursor)") auto

declare target_end.simps [simp del]

definition svc_params :: "bytes \<Rightarrow> dns_error + svc_walk" where
  "svc_params rdata =
     (if length rdata < 2 then Inl Truncated
      else case target_end rdata 2 of
             Inl e \<Rightarrow> Inl e
           | Inr cursor \<Rightarrow>
               (if length rdata < cursor then Inl Truncated
                else Inr \<lparr>sw_rdata = rdata, sw_cursor = cursor, sw_previous = None\<rparr>))"

definition params_read :: "svc_walk \<Rightarrow> (dns_error + svc_param) \<times> svc_walk" where
  "params_read w =
     (let start = sw_cursor w
      in case reader_at (sw_rdata w) start of
           None \<Rightarrow> (Inl Truncated, w)
         | Some reader \<Rightarrow>
             (case reader_u16 reader of
                None \<Rightarrow> (Inl Truncated, w)
              | Some (key, reader) \<Rightarrow>
                  (case reader_vector_u16 reader of
                     None \<Rightarrow> (Inl Truncated, w)
                   | Some (v, reader) \<Rightarrow>
                       (let stop = reader_position reader
                        in if (case sw_previous w of None \<Rightarrow> False | Some previous \<Rightarrow> key \<le> previous)
                           then (Inl SvcParamsOutOfOrder, w)
                           else (Inr \<lparr>sp_key = key, sp_value = v, sp_at = (start, stop)\<rparr>,
                                 w\<lparr>sw_cursor := stop, sw_previous := Some key\<rparr>)))))"

definition params_next :: "svc_walk \<Rightarrow> (dns_error + svc_param) option \<times> svc_walk" where
  "params_next w =
     (if length (sw_rdata w) \<le> sw_cursor w then (None, w)
      else let (item, w) = params_read w in (Some item, w))"

lemma params_read_advances:
  "params_read w = (Inr param, w') \<Longrightarrow> sw_rdata w' = sw_rdata w \<and> sw_cursor w < sw_cursor w'"
  by (auto simp: params_read_def Let_def reader_position_def reader_u16_Some reader_vector_u16_Some
      split: option.splits if_splits)

text \<open>A loop over the parameters that stops at the first error, of the walk or of its body.\<close>

function for_params :: "(svc_param \<Rightarrow> 's \<Rightarrow> dns_error + 's) \<Rightarrow> svc_walk \<Rightarrow> 's \<Rightarrow> dns_error + 's" where
  "for_params body w s =
     (case params_next w of
        (None, w) \<Rightarrow> Inr s
      | (Some (Inl e), w) \<Rightarrow> Inl e
      | (Some (Inr param), w) \<Rightarrow> (case body param s of Inl e \<Rightarrow> Inl e | Inr s \<Rightarrow> for_params body w s))"
  by pat_completeness auto

termination
proof (relation "measure (\<lambda>(_, w, _). length (sw_rdata w) - sw_cursor w)", goal_cases)
  case (2 body w s x w' y param s')
  then have "sw_cursor w < length (sw_rdata w)" "params_read w = (Inr param, w')"
    by (auto simp: params_next_def split: if_splits prod.splits)
  with params_read_advances [of w param w'] show ?case by auto
qed simp

declare for_params.simps [simp del]

section \<open>ECH and HTTP/3\<close>

definition is_h3 :: "bytes \<Rightarrow> bool" where
  "is_h3 identifier \<longleftrightarrow> identifier = [104, 51] \<or> take 3 identifier = [104, 51, 45]"

function alpn_loop :: "bytes \<Rightarrow> nat \<Rightarrow> dns_error + bool" where
  "alpn_loop v cursor =
     (if cursor < length v then
        (let len = unat (v ! cursor)
         in if len = 0 then Inl EmptyAlpnIdentifier
            else case slice_range v (cursor + 1) (cursor + 1 + len) of
                   None \<Rightarrow> Inl Truncated
                 | Some identifier \<Rightarrow> if is_h3 identifier then Inr True else alpn_loop v (cursor + (1 + len)))
      else Inr False)"
  by pat_completeness auto

termination
  by (relation "measure (\<lambda>(v, cursor). length v - cursor)") auto

declare alpn_loop.simps [simp del]

definition alpn_offers_h3 :: "bytes \<Rightarrow> dns_error + bool" where
  "alpn_offers_h3 v = alpn_loop v 0"

definition h3_step :: "svc_param \<Rightarrow> (nat \<times> nat) option \<Rightarrow> dns_error + (nat \<times> nat) option" where
  "h3_step param found =
     (if sp_key param = SVCPARAM_ALPN then
        (case alpn_offers_h3 (sp_value param) of
           Inl e \<Rightarrow> Inl e
         | Inr offers \<Rightarrow> Inr (if offers then Some (sp_at param) else found))
      else if sp_key param = SVCPARAM_NO_DEFAULT_ALPN then
        Inr (map_option (\<lambda>range. (fst range, snd (sp_at param))) found)
      else Inr found)"

definition h3_alpn_param :: "bytes \<Rightarrow> dns_error + (nat \<times> nat) option" where
  "h3_alpn_param rdata =
     (case svc_params rdata of Inl e \<Rightarrow> Inl e | Inr params \<Rightarrow> for_params h3_step params None)"

definition ech_step :: "svc_param \<Rightarrow> (nat \<times> nat) option \<Rightarrow> dns_error + (nat \<times> nat) option" where
  "ech_step param found = Inr (if sp_key param = SVCPARAM_ECH then Some (sp_at param) else found)"

definition ech_param :: "bytes \<Rightarrow> dns_error + (nat \<times> nat) option" where
  "ech_param rdata =
     (case svc_params rdata of Inl e \<Rightarrow> Inl e | Inr params \<Rightarrow> for_params ech_step params None)"

section \<open>RDATA with cuts\<close>

text \<open>Up to three slices; their concatenation is what is written.\<close>

type_synonym rdata = "bytes list"

definition verbatim :: "bytes \<Rightarrow> rdata" where
  "verbatim bs = [bs, [], []]"

definition without :: "bytes \<Rightarrow> nat \<times> nat \<Rightarrow> rdata option" where
  "without bs removed =
     Option.bind (slice_range bs 0 (fst removed)) (\<lambda>before.
     Option.bind (slice_range bs (snd removed) (length bs)) (\<lambda>after. Some [before, after, []]))"

definition without_both :: "bytes \<Rightarrow> nat \<times> nat \<Rightarrow> nat \<times> nat \<Rightarrow> rdata option" where
  "without_both bs first second =
     (if fst second < snd first then None
      else
        Option.bind (slice_range bs 0 (fst first)) (\<lambda>before.
        Option.bind (slice_range bs (snd first) (fst second)) (\<lambda>between.
        Option.bind (slice_range bs (snd second) (length bs)) (\<lambda>after. Some [before, between, after]))))"

definition without_all :: "bytes \<Rightarrow> (nat \<times> nat) option \<Rightarrow> (nat \<times> nat) option \<Rightarrow> rdata option" where
  "without_all bs first second =
     (case (first, second) of
        (None, None) \<Rightarrow> Some (verbatim bs)
      | (Some only, None) \<Rightarrow> without bs only
      | (None, Some only) \<Rightarrow> without bs only
      | (Some left, Some right) \<Rightarrow>
          (if fst left \<le> fst right then without_both bs left right else without_both bs right left))"

definition rdata_len :: "rdata \<Rightarrow> nat" where
  "rdata_len r = sum_list (map length r)"

section \<open>Parameter lists\<close>

text \<open>What the walk sees: a list of keys and values, its encoding, and the place of each parameter.\<close>

definition param_wire :: "u16 \<times> bytes \<Rightarrow> bytes" where
  "param_wire p = to_be_16 (fst p) @ to_be_16 (of_nat (length (snd p))) @ snd p"

definition params_wire :: "(u16 \<times> bytes) list \<Rightarrow> bytes" where
  "params_wire ps = concat (map param_wire ps)"

fun params_ok :: "u16 option \<Rightarrow> (u16 \<times> bytes) list \<Rightarrow> bool" where
  "params_ok previous [] \<longleftrightarrow> True"
| "params_ok previous ((key, v) # ps) \<longleftrightarrow>
     (case previous of None \<Rightarrow> True | Some p \<Rightarrow> p < key) \<and> length v < 65536 \<and> params_ok (Some key) ps"

fun located :: "nat \<Rightarrow> (u16 \<times> bytes) list \<Rightarrow> svc_param list" where
  "located at [] = []"
| "located at ((key, v) # ps) =
     \<lparr>sp_key = key, sp_value = v, sp_at = (at, at + length (param_wire (key, v)))\<rparr>
     # located (at + length (param_wire (key, v))) ps"

fun for_each :: "('p \<Rightarrow> 's \<Rightarrow> dns_error + 's) \<Rightarrow> 'p list \<Rightarrow> 's \<Rightarrow> dns_error + 's" where
  "for_each body [] s = Inr s"
| "for_each body (p # ps) s = (case body p s of Inl e \<Rightarrow> Inl e | Inr s' \<Rightarrow> for_each body ps s')"

lemma params_wire_simps [simp]:
  "params_wire [] = []" "params_wire (p # ps) = param_wire p @ params_wire ps"
  "params_wire (ps @ qs) = params_wire ps @ params_wire qs"
  by (simp_all add: params_wire_def)

lemma length_param_wire: "length (param_wire p) = 4 + length (snd p)"
  by (simp add: param_wire_def)

lemma located_append: "located at (ps @ qs) = located at ps @ located (at + length (params_wire ps)) qs"
  by (induction at ps rule: located.induct) (simp_all add: add.assoc)

lemma for_each_append:
  "for_each body (ps @ qs) s = (case for_each body ps s of Inl e \<Rightarrow> Inl e | Inr s' \<Rightarrow> for_each body qs s')"
  by (induction body ps s rule: for_each.induct) (auto split: sum.splits)

lemma params_ok_append:
  "params_ok previous (ps @ qs) \<longleftrightarrow>
     params_ok previous ps \<and> params_ok (if ps = [] then previous else Some (fst (last ps))) qs"
  by (induction previous ps rule: params_ok.induct) auto

lemma params_ok_above:
  "params_ok (Some p) ps \<Longrightarrow> (k, v) \<in> set ps \<Longrightarrow> p < k"
  by (induction "Some p" ps arbitrary: p rule: params_ok.induct) force+

lemma params_ok_fresh: "params_ok (Some p) ps \<Longrightarrow> q \<le> p \<Longrightarrow> q \<notin> fst ` set ps"
  using params_ok_above by force

lemma params_ok_below:
  assumes "params_ok previous (xs @ (p, v) # zs)" and "(k, w) \<in> set xs"
  shows "k < p"
proof -
  obtain xs1 xs2 where xs: "xs = xs1 @ (k, w) # xs2" using split_list [OF assms(2)] by blast
  have "params_ok (Some k) (xs2 @ (p, v) # zs)" using assms(1) by (simp add: xs params_ok_append)
  then show ?thesis by (rule params_ok_above [of _ _ _ v]) simp
qed

lemma params_ok_weaken:
  "params_ok (Some p) ps \<Longrightarrow> (case previous of None \<Rightarrow> True | Some q \<Rightarrow> q \<le> p) \<Longrightarrow> params_ok previous ps"
  by (cases ps) (auto split: option.splits)

text \<open>Removing parameters keeps the order strict.\<close>

lemma params_ok_remove: "params_ok previous (ps @ qs @ rs) \<Longrightarrow> params_ok previous (ps @ rs)"
proof (induction qs arbitrary: ps)
  case (Cons q qs)
  obtain k v where q: "q = (k, v)" by (cases q)
  have "params_ok previous (ps @ qs @ rs)"
  proof -
    have "params_ok (Some k) (qs @ rs)"
        "case (if ps = [] then previous else Some (fst (last ps))) of None \<Rightarrow> True | Some p \<Rightarrow> p \<le> k"
        "params_ok previous ps"
      using Cons.prems by (auto simp: q params_ok_append split: option.splits if_splits)
    then show ?thesis using params_ok_weaken unfolding params_ok_append [of previous ps] by blast
  qed
  then show ?case by (rule Cons.IH)
qed simp

lemma params_read_wire:
  assumes "drop (sw_cursor w) (sw_rdata w) = param_wire (key, v) @ rest" and "length v < 65536"
    and "case sw_previous w of None \<Rightarrow> True | Some p \<Rightarrow> p < key"
  shows "params_next w =
     (Some (Inr \<lparr>sp_key = key, sp_value = v, sp_at = (sw_cursor w, sw_cursor w + length (param_wire (key, v)))\<rparr>),
      w\<lparr>sw_cursor := sw_cursor w + length (param_wire (key, v)), sw_previous := Some key\<rparr>)"
proof -
  let ?c = "sw_cursor w" and ?r = "sw_rdata w"
  have wire: "drop ?c ?r = to_be_16 key @ to_be_16 (of_nat (length v)) @ v @ rest"
    using assms(1) by (simp add: param_wire_def)
  have "length ?r - ?c = 4 + length v + length rest"
    using arg_cong [OF wire, of length] by simp
  then have fits: "?c + 4 + length v \<le> length ?r" by linarith
  have key: "take 2 (drop ?c ?r) = to_be_16 key" using wire by simp
  have "drop (?c + 2) ?r = to_be_16 (of_nat (length v)) @ v @ rest"
    using arg_cong [OF wire, of "drop 2"] by (simp add: add.commute)
  note len = this
  have "drop (?c + 2 + 2) ?r = v @ rest"
    using arg_cong [OF len, of "drop 2"] by (simp add: add.commute)
  moreover have "unat (of_nat (length v) :: u16) = length v" using assms(2) by (simp add: unat_of_nat)
  ultimately show ?thesis
    using fits key len assms(3)
    by (auto simp: params_next_def params_read_def Let_def reader_at_def reader_u16_def reader_vector_u16_def
        reader_array_def reader_rest_def reader_take_def slice_range_def reader_position_def length_param_wire not_le
        split: option.splits)
qed

lemma params_read_decode:
  assumes "params_next w = (Some (Inr param), w')"
  shows "\<exists>v. param = \<lparr>sp_key = sp_key param, sp_value = v,
                     sp_at = (sw_cursor w, sw_cursor w + length (param_wire (sp_key param, v)))\<rparr>
     \<and> length v < 65536 \<and> (case sw_previous w of None \<Rightarrow> True | Some p \<Rightarrow> p < sp_key param)
     \<and> w' = w\<lparr>sw_cursor := sw_cursor w + length (param_wire (sp_key param, v)), sw_previous := Some (sp_key param)\<rparr>
     \<and> sw_cursor w + length (param_wire (sp_key param, v)) \<le> length (sw_rdata w)
     \<and> drop (sw_cursor w) (sw_rdata w) = param_wire (sp_key param, v) @ drop (sw_cursor w') (sw_rdata w)"
proof -
  let ?c = "sw_cursor w" and ?r = "sw_rdata w"
  define n where "n = unat (from_be (take 2 (drop (?c + 2) ?r)) :: u16)"
  define v where "v = take n (drop (?c + 2 + 2) ?r)"
  have read: "params_read w = (Inr param, w')"
    using assms by (auto simp: params_next_def split: if_splits prod.splits)
  have fits: "?c + 4 + n \<le> length ?r"
    and param: "param = \<lparr>sp_key = from_be (take 2 (drop ?c ?r)), sp_value = v, sp_at = (?c, ?c + 4 + n)\<rparr>"
    and above: "case sw_previous w of None \<Rightarrow> True | Some p \<Rightarrow> p < sp_key param"
    and w': "w' = w\<lparr>sw_cursor := ?c + 4 + n, sw_previous := Some (sp_key param)\<rparr>"
    using read
    by (auto simp: params_read_def Let_def reader_u16_Some reader_vector_u16_Some reader_position_def n_def v_def
        not_le split: option.splits if_splits)
  have len: "length v = n" using fits by (simp add: v_def)
  have "n < 65536" by (simp add: n_def)
  moreover have "to_be_16 (of_nat (length v)) = take 2 (drop (?c + 2) ?r)"
    using fits by (simp add: len n_def to_be_16_from_be)
  moreover have "to_be_16 (sp_key param) = take 2 (drop ?c ?r)" using fits by (simp add: param to_be_16_from_be)
  moreover have "drop ?c ?r = take 2 (drop ?c ?r) @ take 2 (drop (?c + 2) ?r) @ v @ drop (?c + 4 + n) ?r"
  proof -
    have one: "take 2 (drop ?c ?r) @ drop (?c + 2) ?r = drop ?c ?r"
      using append_take_drop_id [of 2 "drop ?c ?r"] by (simp only: drop_drop add.commute)
    have two: "take 2 (drop (?c + 2) ?r) @ drop (?c + 2 + 2) ?r = drop (?c + 2) ?r"
      using append_take_drop_id [of 2 "drop (?c + 2) ?r"] by (simp only: drop_drop add.commute add.left_commute)
    have three: "v @ drop (?c + 2 + 2 + n) ?r = drop (?c + 2 + 2) ?r"
      using append_take_drop_id [of n "drop (?c + 2 + 2) ?r"]
      by (simp only: v_def drop_drop add.commute add.left_commute)
    have "?c + 4 + n = ?c + 2 + 2 + n" by simp
    then show ?thesis by (simp only: three two one)
  qed
  ultimately show ?thesis
    using fits above w' by (intro exI [of _ v]) (simp add: param len param_wire_def)
qed

lemma for_params_wire:
  assumes "drop at rdata = params_wire ps" and "at \<le> length rdata" and "params_ok previous ps"
  shows "for_params body \<lparr>sw_rdata = rdata, sw_cursor = at, sw_previous = previous\<rparr> s = for_each body (located at ps) s"
  using assms
proof (induction ps arbitrary: at previous s)
  case Nil
  then show ?case by (subst for_params.simps) (simp add: params_next_def)
next
  case (Cons p ps)
  obtain key v where p: "p = (key, v)" by (cases p)
  let ?w = "\<lparr>sw_rdata = rdata, sw_cursor = at, sw_previous = previous\<rparr>"
  have wire: "drop at rdata = param_wire (key, v) @ params_wire ps" using Cons.prems(1) by (simp add: p)
  have step: "params_next ?w =
     (Some (Inr \<lparr>sp_key = key, sp_value = v, sp_at = (at, at + length (param_wire (key, v)))\<rparr>),
      ?w\<lparr>sw_cursor := at + length (param_wire (key, v)), sw_previous := Some key\<rparr>)"
    using params_read_wire [of ?w key v "params_wire ps"] wire Cons.prems(3) by (simp add: p)
  have rest: "drop (at + length (param_wire (key, v))) rdata = params_wire ps"
    using arg_cong [OF wire, of "drop (length (param_wire (key, v)))"] by (simp add: add.commute)
  have "length (drop at rdata) = length (param_wire (key, v)) + length (params_wire ps)" using wire by simp
  then have "at + length (param_wire (key, v)) \<le> length rdata" using Cons.prems(2) by simp
  then have "for_params body \<lparr>sw_rdata = rdata, sw_cursor = at + length (param_wire (key, v)), sw_previous = Some key\<rparr> s'
      = for_each body (located (at + length (param_wire (key, v))) ps) s'" for s'
    using Cons.IH [OF rest] Cons.prems(3) by (simp add: p)
  then show ?case by (subst for_params.simps) (simp add: step p split: sum.splits)
qed

lemma for_params_decode:
  assumes "for_params body w s = Inr s'" and "sw_cursor w \<le> length (sw_rdata w)"
  shows "\<exists>ps. drop (sw_cursor w) (sw_rdata w) = params_wire ps \<and> params_ok (sw_previous w) ps"
  using assms
proof (induction body w s rule: for_params.induct)
  case (1 body w s)
  show ?case
  proof (cases "params_next w")
    case (Pair item w1)
    show ?thesis
    proof (cases item)
      case None
      then have "length (sw_rdata w) \<le> sw_cursor w"
        using Pair by (auto simp: params_next_def split: if_splits prod.splits)
      then show ?thesis by (intro exI [of _ "[]"]) simp
    next
      case (Some r)
      then obtain param s1 where r: "r = Inr param" "body param s = Inr s1" "for_params body w1 s1 = Inr s'"
        using "1.prems"(1) Pair by (subst (asm) for_params.simps) (auto split: sum.splits)
      obtain v where v: "length v < 65536" "case sw_previous w of None \<Rightarrow> True | Some p \<Rightarrow> p < sp_key param"
          "w1 = w\<lparr>sw_cursor := sw_cursor w + length (param_wire (sp_key param, v)), sw_previous := Some (sp_key param)\<rparr>"
          "sw_cursor w + length (param_wire (sp_key param, v)) \<le> length (sw_rdata w)"
          "drop (sw_cursor w) (sw_rdata w) = param_wire (sp_key param, v) @ drop (sw_cursor w1) (sw_rdata w)"
        using params_read_decode [of w param w1] Pair Some r(1) by blast
      obtain ps where "drop (sw_cursor w1) (sw_rdata w1) = params_wire ps" "params_ok (sw_previous w1) ps"
        using "1.IH" [OF Pair [symmetric] Some [unfolded r(1)] refl r(2)] r(3) v(3,4) by auto
      then show ?thesis
        using v by (intro exI [of _ "(sp_key param, v) # ps"]) simp
    qed
  qed
qed

section \<open>The searches on a parameter list\<close>

lemma target_end_prefix:
  assumes "target_end rdata at = Inr stop" and "take stop rdata' = take stop rdata" and "stop \<le> length rdata"
  shows "at < stop \<and> target_end rdata' at = Inr stop"
  using assms
proof (induction rdata at rule: target_end.induct)
  case (1 rdata at)
  have at: "at < length rdata" using "1.prems"(1) by (subst (asm) target_end.simps) (auto split: option.splits)
  have byte: "(rdata ! at) AND 0xc0 = 0"
    using "1.prems"(1) at by (subst (asm) target_end.simps) (auto simp: slice_get_def split: if_splits)
  show ?case
  proof (cases "rdata ! at = 0")
    case True
    have stop: "stop = at + 1" using "1.prems"(1) at True by (subst (asm) target_end.simps) (simp add: slice_get_def)
    then have "rdata' ! at = rdata ! at" "at < length rdata'"
      using "1.prems"(2,3) by (metis lessI nth_take Suc_eq_plus1, metis Suc_eq_plus1 Suc_le_lessD length_take min.absorb2 min.cobounded1)
    then show ?thesis using True stop by (subst target_end.simps) (simp add: slice_get_def)
  next
    case False
    have "target_end rdata (at + 1 + unat (rdata ! at)) = Inr stop"
      using "1.prems"(1) at byte False by (subst (asm) target_end.simps) (simp add: slice_get_def)
    with "1.IH" [of "rdata ! at"] at byte False "1.prems"(2,3)
    have later: "at + 1 + unat (rdata ! at) < stop" "target_end rdata' (at + 1 + unat (rdata ! at)) = Inr stop"
      by (auto simp: slice_get_def)
    have "length rdata' \<ge> stop" using "1.prems"(2,3) by (metis length_take min.absorb2 min.cobounded1)
    moreover have "rdata' ! at = rdata ! at" using "1.prems"(2) later(1) by (metis nth_take add.assoc less_add_same_cancel1 add_lessD1)
    ultimately show ?thesis
      using later byte False by (subst target_end.simps) (simp add: slice_get_def)
  qed
qed

text \<open>RDATA whose target name ends at \<open>at\<close> and whose parameters are \<open>ps\<close>.\<close>

definition svc_shape :: "bytes \<Rightarrow> nat \<Rightarrow> (u16 \<times> bytes) list \<Rightarrow> bool" where
  "svc_shape rdata at ps \<longleftrightarrow>
     svc_params rdata = Inr \<lparr>sw_rdata = rdata, sw_cursor = at, sw_previous = None\<rparr>
     \<and> at \<le> length rdata \<and> drop at rdata = params_wire ps \<and> params_ok None ps"

lemma svc_shape_replace:
  assumes "svc_shape rdata at ps" and "params_ok None qs"
  shows "svc_shape (take at rdata @ params_wire qs) at qs"
proof -
  have at: "at \<le> length rdata" "2 \<le> length rdata" "target_end rdata 2 = Inr at"
    using assms(1) by (auto simp: svc_shape_def svc_params_def split: if_splits sum.splits)
  then have "2 < at \<and> target_end (take at rdata @ params_wire qs) 2 = Inr at"
    by (intro target_end_prefix) simp_all
  then show ?thesis using at assms(2) by (simp add: svc_shape_def svc_params_def)
qed

lemma svc_shape_exists:
  assumes "svc_params rdata = Inr w" and "for_params body w s = Inr s'"
  obtains at ps where "svc_shape rdata at ps"
proof -
  have w: "w = \<lparr>sw_rdata = rdata, sw_cursor = sw_cursor w, sw_previous = None\<rparr>" "sw_cursor w \<le> length rdata"
    using assms(1) by (auto simp: svc_params_def split: if_splits sum.splits)
  then have "\<exists>ps. drop (sw_cursor w) rdata = params_wire ps \<and> params_ok None ps"
    using for_params_decode [OF assms(2)] by (metis svc_walk.select_convs)
  then show ?thesis using that assms(1) w unfolding svc_shape_def by metis
qed

lemma svc_shape_searches:
  assumes "svc_shape rdata at ps"
  shows "ech_param rdata = for_each ech_step (located at ps) None"
    and "h3_alpn_param rdata = for_each h3_step (located at ps) None"
  using assms for_params_wire [of at rdata ps None] by (simp_all add: svc_shape_def ech_param_def h3_alpn_param_def)

definition range_of :: "nat \<Rightarrow> (u16 \<times> bytes) list \<Rightarrow> (u16 \<times> bytes) list \<Rightarrow> nat \<times> nat" where
  "range_of at xs ys = (at + length (params_wire xs), at + length (params_wire (xs @ ys)))"

lemma ech_absent: "SVCPARAM_ECH \<notin> fst ` set ps \<Longrightarrow> for_each ech_step (located at ps) found = Inr found"
  by (induction at ps arbitrary: found rule: located.induct) (auto simp: ech_step_def)

lemma ech_at:
  "SVCPARAM_ECH \<notin> fst ` set (xs @ zs) \<Longrightarrow>
   for_each ech_step (located at (xs @ (SVCPARAM_ECH, v) # zs)) None = Inr (Some (range_of at xs [(SVCPARAM_ECH, v)]))"
  by (simp add: located_append for_each_append ech_absent ech_step_def range_of_def image_Un add.assoc)

lemma ech_once:
  assumes "params_ok previous ps" and "SVCPARAM_ECH \<in> fst ` set ps"
  obtains xs v zs where "ps = xs @ (SVCPARAM_ECH, v) # zs" "SVCPARAM_ECH \<notin> fst ` set (xs @ zs)"
proof -
  obtain xs v zs where ps: "ps = xs @ (SVCPARAM_ECH, v) # zs" "SVCPARAM_ECH \<notin> fst ` set xs"
    using assms(2) split_list_first_prop [of ps "\<lambda>p. fst p = SVCPARAM_ECH"] by fastforce
  moreover have "SVCPARAM_ECH \<notin> fst ` set zs"
    using assms(1) params_ok_fresh [of SVCPARAM_ECH zs] by (simp add: ps(1) params_ok_append)
  ultimately show ?thesis using that [of xs v zs] by (simp add: image_Un)
qed

lemma h3_absent:
  "SVCPARAM_ALPN \<notin> fst ` set ps \<Longrightarrow> for_each h3_step (located at ps) None = Inr None"
  by (induction at ps rule: located.induct) (auto simp: h3_step_def)

lemma h3_kept:
  "SVCPARAM_ALPN \<notin> fst ` set ps \<Longrightarrow> SVCPARAM_NO_DEFAULT_ALPN \<notin> fst ` set ps \<Longrightarrow>
   for_each h3_step (located at ps) found = Inr found"
  by (induction at ps arbitrary: found rule: located.induct) (auto simp: h3_step_def)

lemma h3_found:
  assumes "params_ok None ps" and "for_each h3_step (located at ps) None = Inr h"
  obtains "h = None"
    | xs ys zs where "ps = xs @ ys @ zs" "h = Some (range_of at xs ys)" "SVCPARAM_ALPN \<in> fst ` set ys"
        "fst ` set ys \<subseteq> {SVCPARAM_ALPN, SVCPARAM_NO_DEFAULT_ALPN}"
        "fst ` set (xs @ zs) \<inter> {SVCPARAM_ALPN, SVCPARAM_NO_DEFAULT_ALPN} = {}"
        "fst ` set xs \<subseteq> {0}"
proof (cases "SVCPARAM_ALPN \<in> fst ` set ps")
  case False
  then show ?thesis using that(1) h3_absent [OF False, of at] assms(2) by simp
next
  case True
  then obtain xs v zs where ps: "ps = xs @ (SVCPARAM_ALPN, v) # zs" "SVCPARAM_ALPN \<notin> fst ` set xs"
    using split_list_first_prop [of ps "\<lambda>p. fst p = SVCPARAM_ALPN"] by fastforce
  define at' where "at' = at + length (params_wire xs)"
  have zs: "params_ok (Some SVCPARAM_ALPN) zs" using assms(1) by (simp add: ps(1) params_ok_append)
  have zero: "fst ` set xs \<subseteq> {0}"
    using assms(1) params_ok_below [of None xs SVCPARAM_ALPN v zs]
    by (force simp: ps(1) SVCPARAM_ALPN_def word_less_nat_alt unat_eq_zero)
  then have xs: "fst ` set xs \<inter> {SVCPARAM_ALPN, SVCPARAM_NO_DEFAULT_ALPN} = {}"
    by (auto simp: SVCPARAM_ALPN_def SVCPARAM_NO_DEFAULT_ALPN_def)
  have run: "for_each h3_step (located at ps) None = (case alpn_offers_h3 v of
      Inl e \<Rightarrow> Inl e
    | Inr offers \<Rightarrow> for_each h3_step (located (at' + length (param_wire (SVCPARAM_ALPN, v))) zs)
        (if offers then Some (range_of at xs [(SVCPARAM_ALPN, v)]) else None))"
    using ps(2) by (simp add: ps(1) located_append for_each_append h3_absent h3_step_def at'_def range_of_def add.assoc
        split: sum.splits)
  have fresh: "SVCPARAM_ALPN \<notin> fst ` set zs" using params_ok_fresh [OF zs] by simp
  show ?thesis
  proof (cases "alpn_offers_h3 v = Inr True")
    case False
    then have "h = None"
      using assms(2) h3_absent [OF fresh] unfolding run by (auto split: sum.splits if_splits)
    then show ?thesis using that(1) by simp
  next
    case True
    show ?thesis
    proof (cases "\<exists>w zs'. zs = (SVCPARAM_NO_DEFAULT_ALPN, w) # zs'")
      case True2: True
      then obtain w zs' where zs': "zs = (SVCPARAM_NO_DEFAULT_ALPN, w) # zs'" by blast
      have rest: "SVCPARAM_NO_DEFAULT_ALPN \<notin> fst ` set zs'"
        using zs params_ok_fresh [of SVCPARAM_NO_DEFAULT_ALPN zs'] by (simp add: zs')
      have "h = Some (range_of at xs [(SVCPARAM_ALPN, v), (SVCPARAM_NO_DEFAULT_ALPN, w)])"
        using assms(2) fresh rest h3_kept [of zs'] unfolding run
        by (simp add: True zs' h3_step_def range_of_def at'_def SVCPARAM_ALPN_def SVCPARAM_NO_DEFAULT_ALPN_def add.assoc)
      then show ?thesis
        using that(2) [of xs "[(SVCPARAM_ALPN, v), (SVCPARAM_NO_DEFAULT_ALPN, w)]" zs'] xs rest fresh zero
        by (auto simp: ps(1) zs' image_Un)
    next
      case False
      have "SVCPARAM_NO_DEFAULT_ALPN \<notin> fst ` set zs"
      proof (cases zs)
        case (Cons z zs')
        obtain k w where z: "z = (k, w)" by (cases z)
        have "SVCPARAM_ALPN < k" "k \<noteq> SVCPARAM_NO_DEFAULT_ALPN" "params_ok (Some k) zs'"
          using zs False by (auto simp: Cons z)
        moreover from this have "SVCPARAM_NO_DEFAULT_ALPN \<le> k"
          by (simp add: SVCPARAM_ALPN_def SVCPARAM_NO_DEFAULT_ALPN_def word_less_nat_alt word_le_nat_alt)
        ultimately show ?thesis using params_ok_fresh [of k zs'] by (simp add: Cons z)
      qed simp
      moreover from this have "h = Some (range_of at xs [(SVCPARAM_ALPN, v)])"
        using assms(2) fresh h3_kept [of zs] unfolding run by (simp add: True)
      ultimately show ?thesis
        using that(2) [of xs "[(SVCPARAM_ALPN, v)]" zs] xs fresh zero by (auto simp: ps(1) image_Un)
    qed
  qed
qed

section \<open>Cutting parameters out\<close>

lemma without_range:
  assumes "svc_shape rdata at (xs @ ys @ zs)"
  shows "\<exists>parts. without rdata (range_of at xs ys) = Some parts
     \<and> concat parts = take at rdata @ params_wire (xs @ zs)"
proof -
  have "rdata = take at rdata @ params_wire xs @ params_wire ys @ params_wire zs" "at \<le> length rdata"
    using assms append_take_drop_id [of at rdata] by (simp_all add: svc_shape_def)
  then obtain pre where rdata: "rdata = pre @ params_wire xs @ params_wire ys @ params_wire zs" "at = length pre"
    by (metis length_take min.absorb2)
  then show ?thesis by (simp add: without_def range_of_def slice_range_def)
qed

lemma without_both_ranges:
  assumes "svc_shape rdata at (xs @ ys @ ms @ es @ zs)"
  shows "\<exists>parts. without_both rdata (range_of at xs ys) (range_of at (xs @ ys @ ms) es) = Some parts
     \<and> concat parts = take at rdata @ params_wire (xs @ ms @ zs)"
proof -
  have "rdata = take at rdata @ params_wire xs @ params_wire ys @ params_wire ms @ params_wire es @ params_wire zs"
      "at \<le> length rdata"
    using assms append_take_drop_id [of at rdata] by (simp_all add: svc_shape_def)
  then obtain pre where rdata: "at = length pre"
      "rdata = pre @ params_wire xs @ params_wire ys @ params_wire ms @ params_wire es @ params_wire zs"
    by (metis length_take min.absorb2)
  then show ?thesis by (simp add: without_both_def range_of_def slice_range_def)
qed

text \<open>The parameters that stay: all but \<open>ech\<close> and, when HTTP/3 is offered, \<open>alpn\<close> with \<open>no-default-alpn\<close>.\<close>

definition surviving :: "bool \<Rightarrow> bool \<Rightarrow> (u16 \<times> bytes) list \<Rightarrow> (u16 \<times> bytes) list" where
  "surviving cut_h3 cut_ech ps =
     filter (\<lambda>(k, _). \<not> (cut_ech \<and> k = SVCPARAM_ECH)
       \<and> \<not> (cut_h3 \<and> k \<in> {SVCPARAM_ALPN, SVCPARAM_NO_DEFAULT_ALPN})) ps"

lemma surviving_append: "surviving c d (xs @ ys) = surviving c d xs @ surviving c d ys"
  by (simp add: surviving_def)

lemma surviving_all:
  "(cut_ech \<longrightarrow> SVCPARAM_ECH \<notin> fst ` set ps) \<Longrightarrow>
   (cut_h3 \<longrightarrow> fst ` set ps \<inter> {SVCPARAM_ALPN, SVCPARAM_NO_DEFAULT_ALPN} = {}) \<Longrightarrow> surviving cut_h3 cut_ech ps = ps"
  unfolding surviving_def by (rule filter_True) (force simp: image_iff)

lemma surviving_none: "fst ` set ys \<subseteq> {SVCPARAM_ALPN, SVCPARAM_NO_DEFAULT_ALPN} \<Longrightarrow> surviving True c ys = []"
  unfolding surviving_def by (rule filter_False) force

lemma params_ok_surviving: "params_ok previous ps \<Longrightarrow> params_ok previous (surviving c d ps)"
proof (induction previous ps rule: params_ok.induct)
  case (2 previous key v ps)
  then have ih: "params_ok (Some key) (surviving c d ps)" by simp
  show ?case
  proof (cases "surviving c d ((key, v) # ps) = surviving c d ps")
    case True
    then show ?thesis using ih "2.prems" params_ok_weaken [OF ih, of previous]
      by (auto split: option.splits)
  next
    case False
    then have "surviving c d ((key, v) # ps) = (key, v) # surviving c d ps" by (auto simp: surviving_def)
    then show ?thesis using ih "2.prems" by simp
  qed
qed (simp add: surviving_def)

text \<open>The cuts the rewriter makes leave exactly the surviving parameters behind the target name.\<close>

lemma cut_ech_only:
  assumes "svc_shape rdata at ps" and "ech_param rdata = Inr e"
  shows "\<exists>parts. without_all rdata None e = Some parts \<and> concat parts = take at rdata @ params_wire (surviving False True ps)"
proof (cases "SVCPARAM_ECH \<in> fst ` set ps")
  case True
  have "params_ok None ps" using assms(1) by (simp add: svc_shape_def)
  then obtain xs v zs where ps: "ps = xs @ (SVCPARAM_ECH, v) # zs" "SVCPARAM_ECH \<notin> fst ` set (xs @ zs)"
    using ech_once True by blast
  have "e = Some (range_of at xs [(SVCPARAM_ECH, v)])"
    using svc_shape_searches(1) [OF assms(1)] ech_at [OF ps(2), of at v] assms(2) by (simp add: ps(1))
  moreover have "surviving False True ps = xs @ zs"
    using ps(2) surviving_all [of True "xs @ zs" False] by (simp add: ps(1) surviving_def image_Un)
  ultimately show ?thesis using without_range [of rdata at xs "[(SVCPARAM_ECH, v)]" zs] assms(1) by (simp add: ps(1) without_all_def)
next
  case False
  then have "e = None" using svc_shape_searches(1) [OF assms(1)] ech_absent [OF False, of at None] assms(2) by simp
  moreover have "surviving False True ps = ps" using False by (intro surviving_all) simp_all
  ultimately show ?thesis
    using assms(1) append_take_drop_id [of at rdata] by (simp add: svc_shape_def without_all_def verbatim_def)
qed

lemma cut_h3_only:
  assumes "svc_shape rdata at ps" and "h3_alpn_param rdata = Inr (Some h)"
  shows "\<exists>parts. without_all rdata (Some h) None = Some parts
     \<and> concat parts = take at rdata @ params_wire (surviving True False ps)"
proof -
  have ok: "params_ok None ps" and run: "for_each h3_step (located at ps) None = Inr (Some h)"
    using assms svc_shape_searches(2) [OF assms(1)] by (simp_all add: svc_shape_def)
  show ?thesis
  proof (rule h3_found [OF ok run])
    fix xs ys zs
    assume ps: "ps = xs @ ys @ zs" and h: "Some h = Some (range_of at xs ys)"
      and ys: "fst ` set ys \<subseteq> {SVCPARAM_ALPN, SVCPARAM_NO_DEFAULT_ALPN}"
      and rest: "fst ` set (xs @ zs) \<inter> {SVCPARAM_ALPN, SVCPARAM_NO_DEFAULT_ALPN} = {}"
    have "surviving True False ps = xs @ zs"
      using rest surviving_all [of False "xs @ zs" True] surviving_none [OF ys, of False]
      by (simp add: ps surviving_append)
    then show ?thesis using without_range [of rdata at xs ys zs] assms(1) h by (simp add: ps without_all_def)
  qed simp
qed

lemma cut_both:
  assumes "svc_shape rdata at ps" and "ech_param rdata = Inr (Some e)" and "h3_alpn_param rdata = Inr (Some h)"
  shows "\<exists>parts. without_all rdata (Some h) (Some e) = Some parts
     \<and> concat parts = take at rdata @ params_wire (surviving True True ps)"
proof -
  have ok: "params_ok None ps" and run: "for_each h3_step (located at ps) None = Inr (Some h)"
    using assms svc_shape_searches(2) [OF assms(1)] by (simp_all add: svc_shape_def)
  show ?thesis
  proof (rule h3_found [OF ok run])
    fix xs ys zs
    assume ps: "ps = xs @ ys @ zs" and h: "Some h = Some (range_of at xs ys)"
      and ys: "fst ` set ys \<subseteq> {SVCPARAM_ALPN, SVCPARAM_NO_DEFAULT_ALPN}"
      and rest: "fst ` set (xs @ zs) \<inter> {SVCPARAM_ALPN, SVCPARAM_NO_DEFAULT_ALPN} = {}" and xs: "fst ` set xs \<subseteq> {0}"
    have early: "SVCPARAM_ECH \<notin> fst ` set xs" "SVCPARAM_ECH \<notin> fst ` set ys"
      using xs ys by (auto simp: SVCPARAM_ECH_def SVCPARAM_ALPN_def SVCPARAM_NO_DEFAULT_ALPN_def)
    have "SVCPARAM_ECH \<in> fst ` set zs"
      using ech_absent [of ps at None] svc_shape_searches(1) [OF assms(1)] assms(2) early by (auto simp: ps image_Un)
    moreover have "params_ok (if xs @ ys = [] then None else Some (fst (last (xs @ ys)))) zs"
      using ok params_ok_append [of None "xs @ ys" zs] by (simp add: ps)
    ultimately obtain ms v zs' where zs: "zs = ms @ (SVCPARAM_ECH, v) # zs'" "SVCPARAM_ECH \<notin> fst ` set (ms @ zs')"
      using ech_once by blast
    have "e = range_of at (xs @ ys @ ms) [(SVCPARAM_ECH, v)]"
      using ech_at [of "xs @ ys @ ms" zs' at v] svc_shape_searches(1) [OF assms(1)] assms(2) early zs(2)
      by (simp add: ps zs(1) image_Un)
    moreover have "surviving True True ps = xs @ ms @ zs'"
      using rest early zs(2) surviving_all [of True "xs @ ms @ zs'" True] surviving_none [OF ys, of True]
      by (simp add: ps zs(1) surviving_append image_Un Int_Un_distrib2) (simp add: surviving_def)
    ultimately show ?thesis
      using without_both_ranges [of rdata at xs ys ms "[(SVCPARAM_ECH, v)]" zs'] assms(1) h
      by (simp add: ps zs(1) without_all_def range_of_def)
  qed simp
qed

lemma without_all_survivors:
  assumes "svc_shape rdata at ps" and "ech_param rdata = Inr e" and "h3_alpn_param rdata = Inr h"
  shows "\<exists>parts. without_all rdata (if strip then h else None) (if strip then e else None) = Some parts
     \<and> concat parts = take at rdata @ params_wire (if strip then surviving (h \<noteq> None) True ps else ps)"
proof (cases "strip \<and> h \<noteq> None \<and> e \<noteq> None")
  case True
  then show ?thesis using cut_both [OF assms(1)] assms(2,3) by auto
next
  case False
  have verbatim: "\<exists>parts. without_all rdata None None = Some parts \<and> concat parts = take at rdata @ params_wire ps"
    using assms(1) append_take_drop_id [of at rdata] by (simp add: svc_shape_def without_all_def verbatim_def)
  have "surviving True True ps = surviving True False ps" if "e = None"
  proof -
    have "SVCPARAM_ECH \<notin> fst ` set ps"
    proof
      assume "SVCPARAM_ECH \<in> fst ` set ps"
      moreover have "params_ok None ps" using assms(1) by (simp add: svc_shape_def)
      ultimately obtain xs v zs where "ps = xs @ (SVCPARAM_ECH, v) # zs" "SVCPARAM_ECH \<notin> fst ` set (xs @ zs)"
        using ech_once by blast
      with ech_at [of xs zs at v] svc_shape_searches(1) [OF assms(1)] assms(2) that show False by simp
    qed
    then show ?thesis unfolding surviving_def by (intro filter_cong) force+
  qed
  with False verbatim show ?thesis
    using cut_h3_only [OF assms(1)] cut_ech_only [OF assms(1)] assms(2,3) by (cases strip; cases h; cases e) auto
qed

lemma h3_stays_found: "for_each h3_step (located at ps) (Some r) = Inr h \<Longrightarrow> h \<noteq> None"
  by (induction at ps arbitrary: r rule: located.induct) (auto simp: h3_step_def split: sum.splits if_splits)

lemma h3_none_iff:
  "for_each h3_step (located at ps) None = Inr None \<longleftrightarrow>
     (\<forall>v. (SVCPARAM_ALPN, v) \<in> set ps \<longrightarrow> alpn_offers_h3 v = Inr False)"
proof (induction at ps rule: located.induct)
  case (2 at key v ps)
  show ?case
  proof (cases "key = SVCPARAM_ALPN")
    case True
    have "for_each h3_step (located at' ps) (Some r) \<noteq> Inr None" for at' r using h3_stays_found by blast
    moreover have "h3_step \<lparr>sp_key = SVCPARAM_ALPN, sp_value = v, sp_at = r\<rparr> None =
        (case alpn_offers_h3 v of Inl e \<Rightarrow> Inl e | Inr offers \<Rightarrow> Inr (if offers then Some r else None))" for r
      by (simp add: h3_step_def split: sum.splits)
    ultimately show ?thesis using 2 True by (cases "alpn_offers_h3 v") (auto split: if_splits)
  next
    case False
    then have "h3_step \<lparr>sp_key = key, sp_value = v, sp_at = r\<rparr> None = Inr None" for r by (simp add: h3_step_def)
    then show ?thesis using 2 False by auto
  qed
qed simp

lemma stripped_clean:
  assumes "svc_shape rdata at ps" and "h3_alpn_param rdata = Inr h"
    and "rdata' = take at rdata @ params_wire (surviving (h \<noteq> None) True ps)"
  shows "svc_shape rdata' at (surviving (h \<noteq> None) True ps)"
    and "ech_param rdata' = Inr None" and "h3_alpn_param rdata' = Inr None"
proof -
  let ?qs = "surviving (h \<noteq> None) True ps"
  show shape: "svc_shape rdata' at ?qs"
    unfolding assms(3) using assms(1)
    by (intro svc_shape_replace [OF assms(1)] params_ok_surviving) (simp add: svc_shape_def)
  have "SVCPARAM_ECH \<notin> fst ` set ?qs" by (auto simp: surviving_def)
  then show "ech_param rdata' = Inr None" using svc_shape_searches(1) [OF shape] ech_absent by simp
  have "\<forall>v. (SVCPARAM_ALPN, v) \<in> set ?qs \<longrightarrow> alpn_offers_h3 v = Inr False"
    using svc_shape_searches(2) [OF assms(1)] assms(2) h3_none_iff [of at ps] by (cases h) (auto simp: surviving_def)
  then show "h3_alpn_param rdata' = Inr None" using svc_shape_searches(2) [OF shape] h3_none_iff by metis
qed

end
