(* ===== verification/Dns_Records.thy ===== *)
theory Dns_Records
  imports Dns_Message Svc_Params
begin

text \<open>
  The wire format behind the message reader: the records a section holds, the encoding of a record
  and of a header with its question, and that reading inverts them.
\<close>

section \<open>Records of a section\<close>

function section_records :: "answers \<Rightarrow> dns_error + resource_record list" where
  "section_records a =
     (case answers_next a of
        (None, a) \<Rightarrow> Inr []
      | (Some (Inl e), a) \<Rightarrow> Inl e
      | (Some (Inr r), a) \<Rightarrow> (case section_records a of Inl e \<Rightarrow> Inl e | Inr rs \<Rightarrow> Inr (r # rs)))"
  by pat_completeness auto

termination
  by (relation "measure (\<lambda>a. unat (an_remaining a))") (auto dest: answers_next_remaining [OF sym])

declare section_records.simps [simp del]

text \<open>A loop that succeeds ran over all records of the section.\<close>

lemma for_answers_records:
  assumes "for_answers body a s = Inr s'"
  shows "\<exists>rs. section_records a = Inr rs \<and> for_each body rs s = Inr s'"
  using assms
proof (induction body a s rule: for_answers.induct)
  case (1 body a s)
  obtain item a1 where step: "answers_next a = (item, a1)" by (cases "answers_next a")
  show ?case
  proof (cases item)
    case None
    then show ?thesis
      using "1.prems" step
      by (subst (asm) for_answers.simps) (auto simp: section_records.simps [of a])
  next
    case (Some r)
    then obtain answer s1 where r: "r = Inr answer" "body answer s = Inr s1" "for_answers body a1 s1 = Inr s'"
      using "1.prems" step by (subst (asm) for_answers.simps) (auto split: sum.splits)
    then obtain rs where "section_records a1 = Inr rs" "for_each body rs s1 = Inr s'"
      using "1.IH" [OF step [symmetric] Some [unfolded r(1)] refl r(2)] by auto
    then show ?thesis
      using step Some r by (intro exI [of _ "answer # rs"]) (simp add: section_records.simps [of a])
  qed
qed

definition record_ok :: "resource_record \<Rightarrow> bool" where
  "record_ok r \<longleftrightarrow> name_ok (rr_name r) \<and> type_from_wire (type_to_wire (rr_type r)) = rr_type r
     \<and> length (rr_rdata r) < 65536"

lemma type_canonical [simp]: "type_from_wire (type_to_wire (type_from_wire w)) = type_from_wire w"
  by (simp add: type_from_wire_def)

lemma name_read_ok: "name_read message at = Inr (n, used) \<Longrightarrow> name_ok n"
  by (auto simp: name_read_def name_from_def [symmetric] reader_at_def split: if_splits sum.splits
      dest: name_from_ok [THEN conjunct1])

lemma answers_read_ok:
  assumes "answers_read a = (Inr r, a')"
  shows "record_ok r"
proof -
  have "unat (w :: u16) < 65536" for w by simp
  then show ?thesis
    using assms
    by (auto simp: answers_read_def record_ok_def reader_vector_u16_Some Let_def dest: name_read_ok
        split: sum.splits option.splits prod.splits)
qed

lemma section_records_ok:
  assumes "section_records a = Inr rs"
  shows "list_all record_ok rs \<and> length rs = unat (an_remaining a)"
  using assms
proof (induction a arbitrary: rs rule: section_records.induct)
  case (1 a)
  obtain item a1 where step: "answers_next a = (item, a1)" by (cases "answers_next a")
  show ?case
  proof (cases item)
    case None
    then show ?thesis
      using "1.prems" step
      by (subst (asm) section_records.simps) (auto simp: answers_next_def split: if_splits prod.splits)
  next
    case (Some x)
    then obtain r rs1 where r: "x = Inr r" "section_records a1 = Inr rs1" "rs = r # rs1"
      using "1.prems" step by (subst (asm) section_records.simps) (auto split: sum.splits)
    have rest: "an_remaining a \<noteq> 0" "answers_read (a\<lparr>an_remaining := an_remaining a - 1\<rparr>) = (Inr r, a1)"
      using step Some r(1) by (auto simp: answers_next_def split: if_splits prod.splits)
    then have "an_remaining a1 = an_remaining a - 1"
      using answers_read_remaining [of "a\<lparr>an_remaining := an_remaining a - 1\<rparr>"] by simp
    then have "Suc (unat (an_remaining a1)) = unat (an_remaining a)"
      using rest(1) by (simp add: unat_minus_one unat_gt_0)
    then show ?thesis
      using "1.IH" [OF step [symmetric] Some [unfolded r(1)] refl r(2)] answers_read_ok [OF rest(2)] r(3) by simp
  qed
qed

section \<open>Encoded records\<close>

definition record_wire :: "resource_record \<Rightarrow> bytes" where
  "record_wire r =
     name_wire (rr_name r) @ to_be_16 (type_to_wire (rr_type r)) @ to_be_16 (rr_class r) @ to_be_32 (rr_ttl r)
     @ to_be_16 (of_nat (length (rr_rdata r))) @ rr_rdata r"

lemma reader_u16_be:
  "drop (rd_at r) (rd_bytes r) = to_be_16 w @ rest \<Longrightarrow> reader_u16 r = Some (w, r\<lparr>rd_at := rd_at r + 2\<rparr>)"
  by (simp add: reader_u16_def reader_array_def reader_rest_def)

lemma reader_u32_be:
  "drop (rd_at r) (rd_bytes r) = to_be_32 w @ rest \<Longrightarrow> reader_u32 r = Some (w, r\<lparr>rd_at := rd_at r + 4\<rparr>)"
  by (simp add: reader_u32_def reader_array_def reader_rest_def)

lemma drop_wire: "drop at bs = xs @ ys \<Longrightarrow> drop (at + length xs) bs = ys"
  by (metis add.commute append_eq_conv_conj drop_drop)

lemma reader_vector_u16_be:
  assumes "drop (rd_at r) (rd_bytes r) = to_be_16 (of_nat (length v)) @ v @ rest" and "length v < 65536"
  shows "reader_vector_u16 r = Some (v, r\<lparr>rd_at := rd_at r + 2 + length v\<rparr>)"
proof -
  have "drop (rd_at r + 2) (rd_bytes r) = v @ rest" using drop_wire [OF assms(1)] by simp
  moreover have "unat (of_nat (length v) :: u16) = length v" using assms(2) by (simp add: unat_of_nat)
  ultimately show ?thesis
    using reader_u16_be [OF assms(1)]
    by (simp add: reader_vector_u16_def reader_take_def reader_rest_def slice_range_def)
qed

lemma answers_read_wire:
  assumes "drop (an_cursor a) (an_message a) = record_wire r @ rest" and "record_ok r"
  shows "answers_read a = (Inr r, a\<lparr>an_cursor := an_cursor a + length (record_wire r)\<rparr>)"
proof -
  let ?m = "an_message a" and ?n = "wire_len (rr_name r)"
  define c where "c = an_cursor a + ?n"
  have ok: "name_ok (rr_name r)" "length (rr_rdata r) < 65536" "type_from_wire (type_to_wire (rr_type r)) = rr_type r"
    using assms(2) by (simp_all add: record_ok_def)
  note len = length_name_wire [OF ok(1)]
  have name: "name_read ?m (an_cursor a) = Inr (rr_name r, ?n)"
    using assms(1) by (intro name_read_wire [OF ok(1)]) (simp add: record_wire_def)
  have at0: "drop c ?m = to_be_16 (type_to_wire (rr_type r)) @ to_be_16 (rr_class r) @ to_be_32 (rr_ttl r)
      @ to_be_16 (of_nat (length (rr_rdata r))) @ rr_rdata r @ rest"
    using drop_wire [of "an_cursor a" ?m "name_wire (rr_name r)"] assms(1) len by (simp add: record_wire_def c_def)
  have at2: "drop (c + 2) ?m = to_be_16 (rr_class r) @ to_be_32 (rr_ttl r)
      @ to_be_16 (of_nat (length (rr_rdata r))) @ rr_rdata r @ rest"
    using drop_wire [OF at0] by simp
  have at4: "drop (c + 2 + 2) ?m = to_be_32 (rr_ttl r) @ to_be_16 (of_nat (length (rr_rdata r))) @ rr_rdata r @ rest"
    using drop_wire [OF at2] by simp
  have at8: "drop (c + 2 + 2 + 4) ?m = to_be_16 (of_nat (length (rr_rdata r))) @ rr_rdata r @ rest"
    using drop_wire [OF at4] by simp
  have "c \<le> length ?m" using at0 by (cases "c \<le> length ?m") (auto dest: arg_cong [of _ _ length])
  moreover have "reader_u16 \<lparr>rd_bytes = ?m, rd_at = c\<rparr> = Some (type_to_wire (rr_type r), \<lparr>rd_bytes = ?m, rd_at = c + 2\<rparr>)"
    using reader_u16_be [of "\<lparr>rd_bytes = ?m, rd_at = c\<rparr>"] at0 by simp
  moreover have "reader_u16 \<lparr>rd_bytes = ?m, rd_at = c + 2\<rparr> = Some (rr_class r, \<lparr>rd_bytes = ?m, rd_at = c + 2 + 2\<rparr>)"
    using reader_u16_be [of "\<lparr>rd_bytes = ?m, rd_at = c + 2\<rparr>"] at2 by simp
  moreover have "reader_u32 \<lparr>rd_bytes = ?m, rd_at = c + 2 + 2\<rparr> = Some (rr_ttl r, \<lparr>rd_bytes = ?m, rd_at = c + 2 + 2 + 4\<rparr>)"
    using reader_u32_be [of "\<lparr>rd_bytes = ?m, rd_at = c + 2 + 2\<rparr>"] at4 by simp
  moreover have "reader_vector_u16 \<lparr>rd_bytes = ?m, rd_at = c + 2 + 2 + 4\<rparr> =
      Some (rr_rdata r, \<lparr>rd_bytes = ?m, rd_at = c + 2 + 2 + 4 + 2 + length (rr_rdata r)\<rparr>)"
    using reader_vector_u16_be [of "\<lparr>rd_bytes = ?m, rd_at = c + 2 + 2 + 4\<rparr>"] at8 ok(2) by simp
  moreover have "an_cursor a + length (record_wire r) = c + 2 + 2 + 4 + 2 + length (rr_rdata r)"
    by (simp add: record_wire_def len c_def)
  ultimately show ?thesis
    using name ok(3)
    by (simp add: answers_read_def reader_at_def read_type_class_def reader_position_def flip: c_def)
qed

definition records_wire :: "resource_record list \<Rightarrow> bytes" where
  "records_wire rs = concat (map record_wire rs)"

lemma section_records_wire:
  assumes "drop (an_cursor a) (an_message a) = records_wire rs @ rest" and "list_all record_ok rs"
    and "length rs = unat (an_remaining a)"
  shows "section_records a = Inr rs"
  using assms
proof (induction rs arbitrary: a)
  case Nil
  then have "an_remaining a = 0" by (simp add: unat_eq_zero)
  then show ?case by (subst section_records.simps) (simp add: answers_next_def)
next
  case (Cons r rs)
  have some: "an_remaining a \<noteq> 0" using Cons.prems(3) by auto
  let ?a = "a\<lparr>an_remaining := an_remaining a - 1\<rparr>"
  let ?a' = "?a\<lparr>an_cursor := an_cursor a + length (record_wire r)\<rparr>"
  have wire: "drop (an_cursor ?a) (an_message ?a) = record_wire r @ records_wire rs @ rest"
    using Cons.prems(1) by (simp add: records_wire_def)
  have "answers_next a = (Some (Inr r), ?a')"
    using some answers_read_wire [OF wire] Cons.prems(2) by (simp add: answers_next_def)
  moreover have "section_records ?a' = Inr rs"
    using Cons.prems drop_wire [OF wire] some by (intro Cons.IH) (simp_all add: unat_minus_one unat_gt_0)
  ultimately show ?case by (subst section_records.simps) simp
qed

section \<open>Header and question\<close>

definition header_wire :: "u16 \<Rightarrow> u16 \<Rightarrow> u16 \<Rightarrow> bytes" where
  "header_wire ident flags count = to_be_16 ident @ to_be_16 flags @ to_be_16 1 @ to_be_16 count @ [0, 0, 0, 0]"

lemma length_header_wire [simp]: "length (header_wire ident flags count) = 12"
  by (simp add: header_wire_def)

lemma to_be_16_zero: "to_be_16 0 = [0, 0]"
  by (simp add: to_be_16_pair)

lemma read_header_wire:
  "read_header (reader_new (header_wire ident flags count @ rest)) =
     Some (ident, flags, 1, count, 0, 0, \<lparr>rd_bytes = header_wire ident flags count @ rest, rd_at = 12\<rparr>)"
proof -
  let ?b = "header_wire ident flags count @ rest"
  have b: "?b = to_be_16 ident @ to_be_16 flags @ to_be_16 1 @ to_be_16 count @ to_be_16 0 @ to_be_16 0 @ rest"
    by (simp add: header_wire_def to_be_16_zero)
  have step: "reader_u16 \<lparr>rd_bytes = ?b, rd_at = at\<rparr> = Some (w, \<lparr>rd_bytes = ?b, rd_at = at + 2\<rparr>)"
    if "drop at ?b = to_be_16 w @ tail" for at w tail
    using reader_u16_be [of "\<lparr>rd_bytes = ?b, rd_at = at\<rparr>" w tail] that by simp
  have "drop 0 ?b = to_be_16 ident @ to_be_16 flags @ to_be_16 1 @ to_be_16 count @ to_be_16 0 @ to_be_16 0 @ rest"
      "drop 2 ?b = to_be_16 flags @ to_be_16 1 @ to_be_16 count @ to_be_16 0 @ to_be_16 0 @ rest"
      "drop 4 ?b = to_be_16 1 @ to_be_16 count @ to_be_16 0 @ to_be_16 0 @ rest"
      "drop 6 ?b = to_be_16 count @ to_be_16 0 @ to_be_16 0 @ rest"
      "drop 8 ?b = to_be_16 0 @ to_be_16 0 @ rest" "drop 10 ?b = to_be_16 0 @ rest"
    unfolding b by simp_all
  note steps = this [THEN step]
  show ?thesis using steps by (simp add: read_header_def reader_new_def del: add_2_eq_Suc add_2_eq_Suc')
qed

text \<open>What a parsed message says about its bytes.\<close>

lemma message_parse_question:
  assumes "message_parse bs = Inr m"
  defines "q \<equiv> ms_question m" and "n \<equiv> wire_len (q_name (ms_question m))"
  shows "name_read bs 12 = Inr (q_name q, n)" and "12 + n + 4 \<le> length bs"
    and "ms_question_bytes m = take (n + 4) (drop 12 bs)"
    and "q_type q = type_from_wire (from_be (take 2 (drop (12 + n) bs)))"
    and "q_class q = from_be (take 2 (drop (12 + n + 2) bs))"
    and "ms_bytes m = bs" and "ms_answers_at m = 12 + n + 4"
proof -
  obtain ident flags questions count authority additional reader where
    header: "read_header (reader_new bs) = Some (ident, flags, questions, count, authority, additional, reader)"
    using assms(1) by (auto simp: message_parse_def split: option.splits)
  have reader: "reader = \<lparr>rd_bytes = bs, rd_at = 12\<rparr>" "12 \<le> length bs"
    using header by (auto simp: read_header_def reader_new_def reader_u16_Some bind_eq_Some_conv)
  show "name_read bs 12 = Inr (q_name q, n)" "12 + n + 4 \<le> length bs"
      "ms_question_bytes m = take (n + 4) (drop 12 bs)"
      "q_type q = type_from_wire (from_be (take 2 (drop (12 + n) bs)))"
      "q_class q = from_be (take 2 (drop (12 + n + 2) bs))" "ms_bytes m = bs" "ms_answers_at m = 12 + n + 4"
    using assms(1) header reader
    by (auto simp: message_parse_def q_def n_def reader_position_def reader_skip_Some read_type_class_def
        reader_u16_Some bind_eq_Some_conv Let_def add.commute split: if_splits sum.splits option.splits)
qed

lemma message_parse_wire:
  assumes query: "message_parse bs = Inr m" and opcode: "flags AND OPCODE_MASK = 0"
    and out: "out = header_wire ident flags count @ ms_question_bytes m @ rest"
  shows "message_parse out =
     Inr \<lparr>ms_bytes = out, ms_id = ident, ms_flags = flags, ms_answer_count = count, ms_authority_count = 0,
          ms_additional_count = 0, ms_question = ms_question m, ms_question_bytes = ms_question_bytes m,
          ms_answers_at = 12 + length (ms_question_bytes m)\<rparr>"
proof -
  let ?q = "ms_question m"
  define n where "n = wire_len (q_name ?q)"
  note parsed = message_parse_question [OF query, folded n_def]
  have split: "take (n + 4) (drop 12 bs) = take n (drop 12 bs) @ take 2 (drop (12 + n) bs) @ take 2 (drop (12 + n + 2) bs)"
  proof -
    have "take (n + 4) (drop 12 bs) = take n (drop 12 bs) @ take (2 + 2) (drop n (drop 12 bs))"
      using take_add [of n "2 + 2" "drop 12 bs"] by simp
    also have "take (2 + 2) (drop n (drop 12 bs)) = take 2 (drop (12 + n) bs) @ take 2 (drop (12 + n + 2) bs)"
      unfolding take_add by (simp add: add.commute add.left_commute)
    finally show ?thesis .
  qed
  define t where "t = (from_be (take 2 (drop (12 + n) bs)) :: u16)"
  define c where "c = (from_be (take 2 (drop (12 + n + 2) bs)) :: u16)"
  have tc: "take 2 (drop (12 + n) bs) = to_be_16 t" "take 2 (drop (12 + n + 2) bs) = to_be_16 c"
    using parsed(2) by (simp_all add: t_def c_def to_be_16_from_be)
  have qb: "ms_question_bytes m = take n (drop 12 bs) @ to_be_16 t @ to_be_16 c"
    using parsed(3) split tc by simp
  have len: "length (ms_question_bytes m) = n + 4" "length (take n (drop 12 bs)) = n" using parsed(2,3) by simp_all
  have at: "drop 12 out = take n (drop 12 bs) @ to_be_16 t @ to_be_16 c @ rest"
    by (simp add: out qb)
  have name: "name_read out 12 = Inr (q_name ?q, n)"
    using name_read_plain [OF parsed(1) n_def] name_read_ok [OF parsed(1)] at
    by (intro plain_name_moves [of bs 12]) (simp_all add: n_def)
  have at1: "drop (12 + n) out = to_be_16 t @ to_be_16 c @ rest" using drop_wire [OF at] len(2) by simp
  have at2: "drop (12 + n + 2) out = to_be_16 c @ rest" using drop_wire [OF at1] by simp
  have skip: "reader_skip n \<lparr>rd_bytes = out, rd_at = 12\<rparr> = Some \<lparr>rd_bytes = out, rd_at = 12 + n\<rparr>"
    using arg_cong [OF at, of length] len(2) by (simp add: reader_skip_Some reader_rest_def)
  have "reader_u16 \<lparr>rd_bytes = out, rd_at = 12 + n\<rparr> = Some (t, \<lparr>rd_bytes = out, rd_at = 12 + n + 2\<rparr>)"
    using reader_u16_be [of "\<lparr>rd_bytes = out, rd_at = 12 + n\<rparr>"] at1 by simp
  moreover have "reader_u16 \<lparr>rd_bytes = out, rd_at = 12 + n + 2\<rparr> = Some (c, \<lparr>rd_bytes = out, rd_at = 12 + n + 2 + 2\<rparr>)"
    using reader_u16_be [of "\<lparr>rd_bytes = out, rd_at = 12 + n + 2\<rparr>"] at2 by simp
  ultimately have tail: "read_type_class \<lparr>rd_bytes = out, rd_at = 12 + n\<rparr> = Some (t, c, \<lparr>rd_bytes = out, rd_at = 12 + n + 2 + 2\<rparr>)"
    by (simp add: read_type_class_def)
  have header: "read_header (reader_new out) = Some (ident, flags, 1, count, 0, 0, \<lparr>rd_bytes = out, rd_at = 12\<rparr>)"
    unfolding out by (rule read_header_wire)
  have "\<lparr>q_name = q_name ?q, q_type = type_from_wire t, q_class = c\<rparr> = ?q"
    using parsed(4,5) by (simp add: t_def c_def)
  moreover have "take (4 + n) (drop 12 out) = ms_question_bytes m" using len(1) by (simp add: out add.commute)
  ultimately show ?thesis
    using header opcode name skip tail len(1)
    by (simp add: message_parse_def reader_position_def Let_def flip: n_def)
qed

end
