(* ===== verification/Dns_Response.thy ===== *)
theory Dns_Response
  imports Host_Policy Dns_Records Net
begin

text \<open>
  Responses, the last part of \<^verbatim>\<open>src/policy/dns.rs\<close>: the rewriting of an upstream reply for a client's query,
  with ECH and HTTP/3 removed from the answers of an inspected host, and the responses
  synthesised without an upstream.

  A failed write abandons the output buffer, so writing returns it only on success.
\<close>

section \<open>Writing\<close>

definition HEADER_BYTES :: nat where "HEADER_BYTES = 12"

definition ANCOUNT_AT :: nat where "ANCOUNT_AT = 6"

definition finished :: "bounded \<Rightarrow> dns_error + nat \<times> bytes" where
  "finished w = (case bounded_finish w of None \<Rightarrow> Inl OutputTooSmall | Some stop \<Rightarrow> Inr (stop, bd_out w))"

definition write_header_and_question :: "bytes \<Rightarrow> message \<Rightarrow> u16 \<Rightarrow> dns_error + nat \<times> bytes" where
  "write_header_and_question out query flags =
     (case bounded_at out 0 of
        None \<Rightarrow> Inl OutputTooSmall
      | Some w \<Rightarrow>
          finished (bounded_bytes (ms_question_bytes query) (bounded_zeros 6 (bounded_u16 1
            (bounded_u16 flags (bounded_u16 (ms_id query) w))))))"

definition write_record :: "bytes \<Rightarrow> nat \<Rightarrow> resource_record \<Rightarrow> rdata \<Rightarrow> dns_error + nat \<times> bytes" where
  "write_record out at r parts =
     (case try_from (rdata_len parts) of
        None \<Rightarrow> Inl OutputTooSmall
      | Some len \<Rightarrow>
          (case name_write (rr_name r) out at of
             Inl e \<Rightarrow> Inl e
           | Inr (at, out) \<Rightarrow>
               (case bounded_at out at of
                  None \<Rightarrow> Inl OutputTooSmall
                | Some w \<Rightarrow>
                    finished (fold bounded_bytes parts (bounded_u16 len (bounded_u32 (rr_ttl r)
                      (bounded_u16 (rr_class r) (bounded_u16 (type_to_wire (rr_type r)) w))))))))"

section \<open>Rewriting a reply\<close>

datatype ech_outcome = EchAbsent | EchPreserved | EchStripped u16

datatype alpn_outcome = AlpnAbsent | AlpnPreserved | AlpnSteered u16

record rewritten =
  rn_len :: nat
  rn_answers :: u16
  rn_ech :: ech_outcome
  rn_alpn :: alpn_outcome

record rewrite_state =
  rw_out :: bytes
  rw_cursor :: nat
  rw_answers :: u16
  rw_ech_seen :: bool
  rw_ech_stripped :: u16
  rw_h3_seen :: bool
  rw_h3_stripped :: u16

definition find_params :: "resource_record \<Rightarrow> dns_error + (nat \<times> nat) option \<times> (nat \<times> nat) option" where
  "find_params r =
     (if carries_svc_params (rr_type r) then
        (case ech_param (rr_rdata r) of
           Inl e \<Rightarrow> Inl e
         | Inr ech_at \<Rightarrow> (case h3_alpn_param (rr_rdata r) of Inl e \<Rightarrow> Inl e | Inr h3_at \<Rightarrow> Inr (ech_at, h3_at)))
      else Inr (None, None))"

definition write_answer ::
    "answer_policy \<Rightarrow> u32 \<Rightarrow> resource_record \<Rightarrow> rewrite_state \<Rightarrow> dns_error + rewrite_state" where
  "write_answer policy age r s =
     (case find_params r of
        Inl e \<Rightarrow> Inl e
      | Inr (ech_at, h3_at) \<Rightarrow>
          (let ech_cut = (if ap_ech policy = EchStrip then ech_at else None);
               h3_cut = (if ap_alpn policy = StripH3 then h3_at else None)
           in case without_all (rr_rdata r) h3_cut ech_cut of
                None \<Rightarrow> Inl Truncated
              | Some parts \<Rightarrow>
                  (case write_record (rw_out s) (rw_cursor s) (r\<lparr>rr_ttl := saturating_sub (rr_ttl r) age\<rparr>) parts of
                     Inl e \<Rightarrow> Inl e
                   | Inr (cursor, out) \<Rightarrow>
                       Inr \<lparr>rw_out = out, rw_cursor = cursor, rw_answers = rw_answers s + 1,
                            rw_ech_seen = (rw_ech_seen s \<or> ech_at \<noteq> None),
                            rw_ech_stripped = rw_ech_stripped s + (if ech_cut = None then 0 else 1),
                            rw_h3_seen = (rw_h3_seen s \<or> h3_at \<noteq> None),
                            rw_h3_stripped = rw_h3_stripped s + (if h3_cut = None then 0 else 1)\<rparr>)))"

definition response_flags :: "message \<Rightarrow> message \<Rightarrow> u16" where
  "response_flags query upstream =
     FLAG_RESPONSE OR FLAG_RECURSION_AVAILABLE OR rcode_to_wire (message_rcode upstream)
     OR (if recursion_desired query then FLAG_RECURSION_DESIRED else 0)
     OR (if checking_disabled query then FLAG_CHECKING_DISABLED else 0)
     OR (if authentic_data upstream then FLAG_AUTHENTIC_DATA else 0)
     OR (if is_truncated upstream then FLAG_TRUNCATED else 0)"

definition rewrite_start :: "nat \<Rightarrow> bytes \<Rightarrow> rewrite_state" where
  "rewrite_start cursor out =
     \<lparr>rw_out = out, rw_cursor = cursor, rw_answers = 0, rw_ech_seen = False, rw_ech_stripped = 0,
      rw_h3_seen = False, rw_h3_stripped = 0\<rparr>"

definition write_response_aged ::
    "bytes \<Rightarrow> message \<Rightarrow> message \<Rightarrow> answer_policy \<Rightarrow> u32 \<Rightarrow> dns_error + rewritten \<times> bytes" where
  "write_response_aged out query upstream policy age =
     (case write_header_and_question out query (response_flags query upstream) of
        Inl e \<Rightarrow> Inl e
      | Inr (cursor, out) \<Rightarrow>
          (case for_answers (write_answer policy age) (message_answers upstream) (rewrite_start cursor out) of
             Inl e \<Rightarrow> Inl e
           | Inr s \<Rightarrow>
               (case bounded_at (rw_out s) ANCOUNT_AT of
                  None \<Rightarrow> Inl OutputTooSmall
                | Some w \<Rightarrow>
                    (case finished (bounded_u16 (rw_answers s) w) of
                       Inl e \<Rightarrow> Inl e
                     | Inr (_, out) \<Rightarrow>
                         Inr (\<lparr>rn_len = rw_cursor s, rn_answers = rw_answers s,
                               rn_ech = (if \<not> rw_ech_seen s then EchAbsent
                                         else if rw_ech_stripped s = 0 then EchPreserved
                                         else EchStripped (rw_ech_stripped s)),
                               rn_alpn = (if \<not> rw_h3_seen s then AlpnAbsent
                                          else if rw_h3_stripped s = 0 then AlpnPreserved
                                          else AlpnSteered (rw_h3_stripped s))\<rparr>, out)))))"

definition write_response ::
    "bytes \<Rightarrow> message \<Rightarrow> message \<Rightarrow> answer_policy \<Rightarrow> dns_error + rewritten \<times> bytes" where
  "write_response out query upstream policy = write_response_aged out query upstream policy 0"

section \<open>Addresses and synthesised responses\<close>

definition answer_address :: "resource_record \<Rightarrow> ip_addr option" where
  "answer_address r =
     (case rr_type r of
        TypeA \<Rightarrow> if 4 \<le> length (rr_rdata r) then Some (V4 (from_be (take 4 (rr_rdata r)))) else None
      | TypeAaaa \<Rightarrow> if 16 \<le> length (rr_rdata r) then Some (V6 (from_be (take 16 (rr_rdata r)))) else None
      | _ \<Rightarrow> None)"

text \<open>The addresses pushed before an error stay pushed.\<close>

function push_addresses :: "answers \<Rightarrow> ip_addr list \<Rightarrow> (dns_error + unit) \<times> ip_addr list" where
  "push_addresses a out =
     (case answers_next a of
        (None, a) \<Rightarrow> (Inr (), out)
      | (Some (Inl e), a) \<Rightarrow> (Inl e, out)
      | (Some (Inr r), a) \<Rightarrow>
          push_addresses a (case answer_address r of None \<Rightarrow> out | Some addr \<Rightarrow> out @ [addr]))"
  by pat_completeness auto

termination
  by (relation "measure (\<lambda>(a, _). unat (an_remaining a))") (auto dest: answers_next_remaining [OF sym])

declare push_addresses.simps [simp del]

definition answer_addresses :: "message \<Rightarrow> ip_addr list \<Rightarrow> (dns_error + unit) \<times> ip_addr list" where
  "answer_addresses m out = push_addresses (message_answers m) out"

definition wants_recursion :: "message \<Rightarrow> u16" where
  "wants_recursion query = (if recursion_desired query then FLAG_RECURSION_DESIRED else 0)"

definition write_truncated :: "bytes \<Rightarrow> message \<Rightarrow> dns_error + nat \<times> bytes" where
  "write_truncated out query =
     write_header_and_question out query
       (FLAG_RESPONSE OR FLAG_RECURSION_AVAILABLE OR FLAG_TRUNCATED OR wants_recursion query)"

definition write_refusal :: "bytes \<Rightarrow> message \<Rightarrow> dns_error + nat \<times> bytes" where
  "write_refusal out query =
     write_header_and_question out query
       (FLAG_RESPONSE OR FLAG_RECURSION_AVAILABLE OR rcode_to_wire NameError OR wants_recursion query)"

definition write_failure :: "bytes \<Rightarrow> message \<Rightarrow> dns_error + nat \<times> bytes" where
  "write_failure out query =
     write_header_and_question out query
       (FLAG_RESPONSE OR FLAG_RECURSION_AVAILABLE OR rcode_to_wire ServerFailure OR wants_recursion query)"

definition write_format_error :: "bytes \<Rightarrow> bytes \<Rightarrow> dns_error + nat \<times> bytes" where
  "write_format_error out query =
     (if length query < 4 then Inl Truncated
      else
        (let flags = (from_be (take 2 (drop 2 query)) AND FLAG_RECURSION_DESIRED)
                       OR FLAG_RESPONSE OR rcode_to_wire FormatError
         in case bounded_at out 0 of
              None \<Rightarrow> Inl OutputTooSmall
            | Some w \<Rightarrow> finished (bounded_zeros (HEADER_BYTES - 4) (bounded_u16 flags (bounded_bytes (take 2 query) w)))))"

section \<open>What is written\<close>

lemma put_or_fail_append:
  "(case put_or_fail xs s of Inl e \<Rightarrow> Inl e | Inr s' \<Rightarrow> put_or_fail ys s') = put_or_fail (xs @ ys) s"
  unfolding put_or_fail_def put_bytes_append [symmetric] by (cases "put_bytes xs s") simp_all

lemma finished_puts:
  assumes "\<And>w. bounded_result (f w) = Option.bind (bounded_result w) (put_bytes v)"
  shows "(case bounded_at out at of None \<Rightarrow> Inl OutputTooSmall | Some w \<Rightarrow> finished (f w)) = put_or_fail v (at, out)"
  unfolding finished_def by (rule bounded_puts [OF assms])

lemmas bounded_fields = bounded_u8_def bounded_u16_def bounded_u32_def bounded_zeros_eq_bytes bounded_result_bytes put_bytes_append

lemma write_header_eq:
  "write_header_and_question out query flags =
     put_or_fail (header_wire (ms_id query) flags 0 @ ms_question_bytes query) (0, out)"
proof -
  have six: "replicate 6 (0 :: u8) = to_be_16 0 @ [0, 0, 0, 0]" by (simp add: to_be_16_zero numeral_eq_Suc)
  show ?thesis
    unfolding write_header_and_question_def
    by (rule finished_puts) (simp add: bounded_fields header_wire_def six)
qed

lemma bounded_result_parts:
  "bounded_result (fold bounded_bytes parts (bounded_bytes v w)) = Option.bind (bounded_result w) (put_bytes (v @ concat parts))"
proof (induction parts arbitrary: v w)
  case (Cons p ps)
  have "bounded_result (fold bounded_bytes ps (bounded_bytes p (bounded_bytes v w)))
      = Option.bind (bounded_result (bounded_bytes v w)) (put_bytes (p @ concat ps))"
    by (rule Cons.IH)
  then show ?case by (simp add: bounded_result_bytes put_bytes_append)
qed (simp add: bounded_result_bytes)

lemma write_record_eq:
  "write_record out at r parts =
     (if length (concat parts) < 65536 then put_or_fail (record_wire (r\<lparr>rr_rdata := concat parts\<rparr>)) (at, out)
      else Inl OutputTooSmall)"
proof -
  have len: "rdata_len parts = length (concat parts)" by (simp add: rdata_len_def length_concat)
  define tail where "tail = to_be_16 (type_to_wire (rr_type r)) @ to_be_16 (rr_class r) @ to_be_32 (rr_ttl r)
    @ to_be_16 (of_nat (length (concat parts))) @ concat parts"
  have "(case bounded_at out' at' of
           None \<Rightarrow> Inl OutputTooSmall
         | Some w \<Rightarrow> finished (fold bounded_bytes parts (bounded_u16 (of_nat (length (concat parts))) (bounded_u32 (rr_ttl r)
             (bounded_u16 (rr_class r) (bounded_u16 (type_to_wire (rr_type r)) w))))))
      = put_or_fail tail (at', out')" for at' out'
    by (rule finished_puts) (simp add: bounded_fields bounded_result_parts tail_def)
  then show ?thesis
    using put_or_fail_append [where xs = "name_wire (rr_name r)" and s = "(at, out)" and ys = tail]
    by (auto simp: write_record_def len try_from_def name_write_eq record_wire_def tail_def split: sum.splits)
qed

text \<open>The record the client gets for a record of the upstream.\<close>

definition rewritten_record :: "answer_policy \<Rightarrow> u32 \<Rightarrow> resource_record \<Rightarrow> resource_record" where
  "rewritten_record policy age r =
     (case find_params r of
        Inl _ \<Rightarrow> r
      | Inr (ech_at, h3_at) \<Rightarrow>
          r\<lparr>rr_ttl := saturating_sub (rr_ttl r) age,
            rr_rdata := concat (the (without_all (rr_rdata r) (if ap_alpn policy = StripH3 then h3_at else None)
                                                             (if ap_ech policy = EchStrip then ech_at else None)))\<rparr>)"

definition filled :: "rewrite_state \<Rightarrow> bytes" where
  "filled s = take (rw_cursor s) (rw_out s)"

lemma write_answer_Inr:
  assumes "write_answer policy age r s = Inr s'" and "record_ok r" and "rw_cursor s \<le> length (rw_out s)"
  shows "filled s' = filled s @ record_wire (rewritten_record policy age r)"
    and "rw_cursor s' \<le> length (rw_out s')" and "rw_answers s' = rw_answers s + 1"
    and "record_ok (rewritten_record policy age r)"
proof -
  obtain e h where params: "find_params r = Inr (e, h)"
    using assms(1) by (auto simp: write_answer_def split: sum.splits)
  define parts where "parts = the (without_all (rr_rdata r) (if ap_alpn policy = StripH3 then h else None)
    (if ap_ech policy = EchStrip then e else None))"
  let ?r = "r\<lparr>rr_ttl := saturating_sub (rr_ttl r) age, rr_rdata := concat parts\<rparr>"
  have r: "rewritten_record policy age r = ?r"
    by (simp add: rewritten_record_def params parts_def)
  obtain cursor out where put: "length (concat parts) < 65536"
      "put_or_fail (record_wire ?r) (rw_cursor s, rw_out s) = Inr (cursor, out)"
      "rw_cursor s' = cursor" "rw_out s' = out" "rw_answers s' = rw_answers s + 1"
    using assms(1)
    by (auto simp: write_answer_def params Let_def parts_def write_record_eq split: option.splits sum.splits if_splits)
  then have fits: "rw_cursor s + length (record_wire ?r) \<le> length (rw_out s)"
      "cursor = rw_cursor s + length (record_wire ?r)" "out = overwrite (rw_out s) (rw_cursor s) (record_wire ?r)"
    by (simp_all add: put_or_fail_Inr)
  show "filled s' = filled s @ record_wire (rewritten_record policy age r)"
    using fits put by (simp add: filled_def r overwrite_def)
  show "rw_cursor s' \<le> length (rw_out s')" using fits put by simp
  show "rw_answers s' = rw_answers s + 1" by (rule put)
  show "record_ok (rewritten_record policy age r)" using put(1) assms(2) by (simp add: r record_ok_def)
qed

lemma write_answers_Inr:
  assumes "for_each (write_answer policy age) rs s = Inr s'" and "list_all record_ok rs"
    and "rw_cursor s \<le> length (rw_out s)"
  shows "filled s' = filled s @ records_wire (map (rewritten_record policy age) rs)
     \<and> rw_cursor s' \<le> length (rw_out s') \<and> rw_answers s' = rw_answers s + of_nat (length rs)
     \<and> list_all record_ok (map (rewritten_record policy age) rs)"
  using assms
proof (induction rs arbitrary: s)
  case Nil
  then show ?case by (simp add: records_wire_def)
next
  case (Cons r rs)
  obtain s1 where s1: "write_answer policy age r s = Inr s1" "for_each (write_answer policy age) rs s1 = Inr s'"
    using Cons.prems(1) by (auto split: sum.splits)
  note step = write_answer_Inr [OF s1(1)]
  have "record_ok r" using Cons.prems(2) by simp
  with step Cons.IH [OF s1(2)] Cons.prems(2,3) show ?case
    by (simp add: records_wire_def add.assoc add.commute)
qed

section \<open>Flags\<close>

lemma rcode_wire: "rcode_to_wire (rcode_from_wire w) = w AND RCODE_MASK"
  by (simp add: rcode_from_wire_def Let_def and.assoc)

lemma rcode_mask: "rcode_from_wire (w AND RCODE_MASK) = rcode_from_wire w"
  by (simp add: rcode_from_wire_def and.assoc)

lemmas flag_bits = FLAG_RESPONSE_def FLAG_RECURSION_DESIRED_def FLAG_RECURSION_AVAILABLE_def FLAG_TRUNCATED_def
  FLAG_AUTHENTIC_DATA_def FLAG_CHECKING_DISABLED_def OPCODE_MASK_def RCODE_MASK_def

lemma response_flags_bits:
  "response_flags query upstream AND OPCODE_MASK = 0"
  "response_flags query upstream AND FLAG_RESPONSE \<noteq> 0"
  "response_flags query upstream AND RCODE_MASK = ms_flags upstream AND RCODE_MASK"
  "response_flags query upstream AND FLAG_TRUNCATED \<noteq> 0 \<longleftrightarrow> is_truncated upstream"
  "response_flags query upstream AND FLAG_RECURSION_DESIRED \<noteq> 0 \<longleftrightarrow> recursion_desired query"
proof -
  have code: "(w AND RCODE_MASK) AND m = 0" if "RCODE_MASK AND m = 0" for w m :: u16
    using that by (simp add: and.assoc)
  have flags: "response_flags query upstream = FLAG_RESPONSE OR FLAG_RECURSION_AVAILABLE OR (ms_flags upstream AND RCODE_MASK)
     OR (if recursion_desired query then FLAG_RECURSION_DESIRED else 0)
     OR (if checking_disabled query then FLAG_CHECKING_DISABLED else 0)
     OR (if authentic_data upstream then FLAG_AUTHENTIC_DATA else 0)
     OR (if is_truncated upstream then FLAG_TRUNCATED else 0)"
    by (simp add: response_flags_def message_rcode_def rcode_wire)
  show "response_flags query upstream AND OPCODE_MASK = 0"
    unfolding flags bit.conj_disj_distrib2 by (simp add: code flag_bits and.assoc)
  show "response_flags query upstream AND FLAG_RESPONSE \<noteq> 0"
    unfolding flags bit.conj_disj_distrib2 by (simp add: flag_bits and.assoc)
  show "response_flags query upstream AND RCODE_MASK = ms_flags upstream AND RCODE_MASK"
    unfolding flags bit.conj_disj_distrib2 by (simp add: flag_bits and.assoc)
  show "response_flags query upstream AND FLAG_TRUNCATED \<noteq> 0 \<longleftrightarrow> is_truncated upstream"
    unfolding flags bit.conj_disj_distrib2 by (simp add: flag_bits and.assoc)
  show "response_flags query upstream AND FLAG_RECURSION_DESIRED \<noteq> 0 \<longleftrightarrow> recursion_desired query"
    unfolding flags bit.conj_disj_distrib2 by (simp add: flag_bits and.assoc)
qed

section \<open>The response as a message\<close>

lemma overwrite_count:
  "overwrite (header_wire ident flags count @ rest) ANCOUNT_AT (to_be_16 count') = header_wire ident flags count' @ rest"
  by (simp add: overwrite_def header_wire_def ANCOUNT_AT_def)

lemma take_overwrite: "at + length xs \<le> n \<Longrightarrow> n \<le> length bs \<Longrightarrow> take n (overwrite bs at xs) = overwrite (take n bs) at xs"
  by (simp add: overwrite_def take_drop min_absorb1 min_absorb2 flip: append_assoc)

lemma write_response_Inr:
  assumes query: "message_parse qs = Inr query"
    and run: "write_response_aged out query upstream policy age = Inr (rw, out')"
  obtains rs m where "section_records (message_answers upstream) = Inr rs"
    "message_parse (take (rn_len rw) out') = Inr m" "ms_id m = ms_id query" "ms_question m = ms_question query"
    "ms_flags m = response_flags query upstream" "ms_answer_count m = ms_answer_count upstream"
    "section_records (message_answers m) = Inr (map (rewritten_record policy age) rs)"
    "rn_answers rw = ms_answer_count upstream"
proof -
  let ?flags = "response_flags query upstream" and ?qb = "ms_question_bytes query"
  have patch: "(case bounded_at bs at of None \<Rightarrow> Inl OutputTooSmall | Some w \<Rightarrow> finished (bounded_u16 v w))
      = put_or_fail (to_be_16 v) (at, bs)" for bs at v
    by (rule finished_puts) (simp add: bounded_fields)
  obtain cursor buf s where
    head: "put_or_fail (header_wire (ms_id query) ?flags 0 @ ?qb) (0, out) = Inr (cursor, buf)"
    and loop: "for_answers (write_answer policy age) (message_answers upstream) (rewrite_start cursor buf) = Inr s"
    and rw: "rn_len rw = rw_cursor s" "rn_answers rw = rw_answers s"
    and patched: "\<exists>stop. put_or_fail (to_be_16 (rw_answers s)) (ANCOUNT_AT, rw_out s) = Inr (stop, out')"
    using run unfolding write_response_aged_def write_header_eq patch [symmetric]
    by (auto split: sum.splits option.splits)
  obtain rs where rs: "section_records (message_answers upstream) = Inr rs"
      "for_each (write_answer policy age) rs (rewrite_start cursor buf) = Inr s"
    using for_answers_records [OF loop] by blast
  have ok: "list_all record_ok rs" "length rs = unat (ms_answer_count upstream)"
    using section_records_ok [OF rs(1)] by (simp_all add: message_answers_def)
  have buf: "filled (rewrite_start cursor buf) = header_wire (ms_id query) ?flags 0 @ ?qb" "cursor \<le> length buf"
    using head by (auto simp: put_or_fail_Inr filled_def rewrite_start_def overwrite_def)
  let ?rs = "map (rewritten_record policy age) rs"
  have written: "filled s = header_wire (ms_id query) ?flags 0 @ ?qb @ records_wire ?rs"
      "rw_cursor s \<le> length (rw_out s)" "rw_answers s = of_nat (length rs)" "list_all record_ok ?rs"
    using write_answers_Inr [OF rs(2) ok(1)] buf by (simp_all add: rewrite_start_def)
  have count: "rw_answers s = ms_answer_count upstream" using written(3) ok(2) by simp
  have "length (filled s) = rw_cursor s" using written(2) by (simp add: filled_def)
  then have "12 \<le> rw_cursor s" using written(1) by simp
  then have "take (rw_cursor s) out' = overwrite (filled s) ANCOUNT_AT (to_be_16 (rw_answers s))"
    using patched written(2) by (auto simp: put_or_fail_Inr filled_def take_overwrite ANCOUNT_AT_def)
  then have out': "take (rn_len rw) out' = header_wire (ms_id query) ?flags (rw_answers s) @ ?qb @ records_wire ?rs"
    by (simp add: rw(1) written(1) overwrite_count)
  note parsed = message_parse_wire [OF query response_flags_bits(1) out']
  define m where "m = projr (message_parse (take (rn_len rw) out'))"
  have m: "message_parse (take (rn_len rw) out') = Inr m" "ms_id m = ms_id query" "ms_question m = ms_question query"
      "ms_flags m = ?flags" "ms_answer_count m = rw_answers s" "ms_bytes m = take (rn_len rw) out'"
      "ms_answers_at m = 12 + length ?qb"
    by (simp_all add: m_def parsed)
  have "drop (12 + length ?qb) (take (rn_len rw) out') = records_wire ?rs"
    unfolding out' by (simp add: drop_append)
  then have "section_records (message_answers m) = Inr ?rs"
    using written(4) ok(2) m(5-7) count
    by (intro section_records_wire [where rest = "[]"]) (simp_all add: message_answers_def)
  then show ?thesis using that [of rs m] rs(1) m count rw(2) by simp
qed

lemma for_each_Inr: "for_each body ps s = Inr s' \<Longrightarrow> p \<in> set ps \<Longrightarrow> \<exists>s1 s2. body p s1 = Inr s2"
  by (induction body ps s rule: for_each.induct) (auto split: sum.splits)

lemma write_response_params:
  assumes "write_response_aged out query upstream policy age = Inr (rw, out')"
    and "section_records (message_answers upstream) = Inr rs" and "r \<in> set rs"
  shows "\<exists>e h. find_params r = Inr (e, h)"
proof -
  obtain s s' where "for_answers (write_answer policy age) (message_answers upstream) s = Inr s'"
    using assms(1) by (auto simp: write_response_aged_def split: sum.splits)
  then have "for_each (write_answer policy age) rs s = Inr s'" using for_answers_records assms(2) by fastforce
  then obtain s1 s2 where "write_answer policy age r s1 = Inr s2" using for_each_Inr assms(3) by metis
  then show ?thesis by (auto simp: write_answer_def split: sum.splits)
qed

text \<open>
  C15. A rewritten response is a well-formed message that answers the query with the upstream's
  answers: it parses, with the query's identifier and question, as a response with the upstream's
  code and truncation; its answer section holds the upstream's records in order, each with its TTL
  reduced by the age and its RDATA as the policy leaves it.
\<close>

theorem response_round_trip:
  assumes "message_parse qs = Inr query" and "write_response_aged out query upstream policy age = Inr (rw, out')"
  shows "\<exists>rs m. section_records (message_answers upstream) = Inr rs
     \<and> message_parse (take (rn_len rw) out') = Inr m \<and> ms_id m = ms_id query \<and> ms_question m = ms_question query
     \<and> is_response m \<and> message_rcode m = message_rcode upstream \<and> is_truncated m = is_truncated upstream
     \<and> recursion_desired m = recursion_desired query
     \<and> section_records (message_answers m) = Inr (map (rewritten_record policy age) rs)
     \<and> rn_answers rw = of_nat (length rs)"
proof -
  obtain rs m where rs: "section_records (message_answers upstream) = Inr rs"
    and m: "message_parse (take (rn_len rw) out') = Inr m" "ms_id m = ms_id query" "ms_question m = ms_question query"
      "ms_flags m = response_flags query upstream" "ms_answer_count m = ms_answer_count upstream"
      "section_records (message_answers m) = Inr (map (rewritten_record policy age) rs)"
      "rn_answers rw = ms_answer_count upstream"
    using write_response_Inr [OF assms] .
  have "length rs = unat (ms_answer_count upstream)"
    using section_records_ok [OF rs] by (simp add: message_answers_def)
  moreover have "message_rcode m = message_rcode upstream"
    using rcode_mask [of "ms_flags m"] rcode_mask [of "ms_flags upstream"] response_flags_bits(3)
    by (simp add: message_rcode_def m(4))
  ultimately show ?thesis
    using rs m response_flags_bits
    by (intro exI [of _ rs] exI [of _ m]) (simp add: is_response_def is_truncated_def recursion_desired_def)
qed

text \<open>
  C2. Nothing inspected escapes through DNS: in a response for an inspected host no HTTPS or SVCB
  answer carries an \<open>ech\<close> parameter or an \<open>alpn\<close> that offers HTTP/3, and of the upstream's parameters
  exactly \<open>ech\<close> and, where HTTP/3 was offered, \<open>alpn\<close> with \<open>no-default-alpn\<close> are gone.
\<close>

theorem inspected_answers_stripped:
  assumes "message_parse qs = Inr query" and "message_parse (take (rn_len rw) out') = Inr m"
    and "write_response_aged out query upstream (answer_policy_for Inspected) age = Inr (rw, out')"
    and "section_records (message_answers m) = Inr rs'" and "r \<in> set rs'" and "carries_svc_params (rr_type r)"
  shows "ech_param (rr_rdata r) = Inr None \<and> h3_alpn_param (rr_rdata r) = Inr None
     \<and> (\<exists>rs r0 at ps c. section_records (message_answers upstream) = Inr rs \<and> r0 \<in> set rs
          \<and> svc_shape (rr_rdata r0) at ps \<and> svc_shape (rr_rdata r) at (surviving c True ps)
          \<and> (c \<longleftrightarrow> h3_alpn_param (rr_rdata r0) \<noteq> Inr None))"
proof -
  obtain rs m1 where rs: "section_records (message_answers upstream) = Inr rs"
    and m1: "message_parse (take (rn_len rw) out') = Inr m1"
      "section_records (message_answers m1) = Inr (map (rewritten_record (answer_policy_for Inspected) age) rs)"
    using write_response_Inr [OF assms(1,3)] .
  then have "rs' = map (rewritten_record (answer_policy_for Inspected) age) rs" using assms(2,4) by simp
  then obtain r0 where r0: "r0 \<in> set rs" "r = rewritten_record (answer_policy_for Inspected) age r0"
    using assms(5) by auto
  have "carries_svc_params (rr_type r0)"
    using assms(6) r0(2) by (auto simp: rewritten_record_def split: sum.splits)
  moreover obtain e h where params: "find_params r0 = Inr (e, h)"
    using write_response_params [OF assms(3) rs r0(1)] by auto
  ultimately have e: "ech_param (rr_rdata r0) = Inr e" and h: "h3_alpn_param (rr_rdata r0) = Inr h"
    by (auto simp: find_params_def split: sum.splits)
  obtain w where "svc_params (rr_rdata r0) = Inr w" "for_params ech_step w None = Inr e"
    using e by (auto simp: ech_param_def split: sum.splits)
  then obtain at ps where shape: "svc_shape (rr_rdata r0) at ps" by (rule svc_shape_exists)
  have "rr_rdata r = take at (rr_rdata r0) @ params_wire (surviving (h \<noteq> None) True ps)"
    using without_all_survivors [OF shape e h, of True]
    by (auto simp: r0(2) rewritten_record_def params answer_policy_for_def)
  note clean = stripped_clean [OF shape h this]
  have "h \<noteq> None \<longleftrightarrow> h3_alpn_param (rr_rdata r0) \<noteq> Inr None" using h by simp
  with clean shape rs r0(1) show ?thesis by blast
qed

section \<open>A sample exchange\<close>

lemma for_answers_each: "section_records a = Inr rs \<Longrightarrow> for_answers body a s = for_each body rs s"
proof (induction a arbitrary: rs s rule: section_records.induct)
  case (1 a)
  obtain item a1 where step: "answers_next a = (item, a1)" by (cases "answers_next a")
  show ?case
  proof (cases item)
    case None
    then show ?thesis
      using "1.prems" step by (subst for_answers.simps) (simp add: section_records.simps [of a])
  next
    case (Some x)
    then obtain r rs1 where r: "x = Inr r" "section_records a1 = Inr rs1" "rs = r # rs1"
      using "1.prems" step by (subst (asm) section_records.simps) (auto split: sum.splits)
    show ?thesis
      using "1.IH" [OF step [symmetric] Some [unfolded r(1)] refl r(2)] step Some r
      by (subst for_answers.simps) (simp split: sum.split)
  qed
qed

definition sample_query :: bytes where
  "sample_query = [0, 7, 1, 0, 0, 1, 0, 0, 0, 0, 0, 0, 0, 0, 65, 0, 1]"

definition sample_params :: "(u16 \<times> bytes) list" where
  "sample_params = [(SVCPARAM_ALPN, [2, 104, 51]), (SVCPARAM_ECH, [9])]"

definition sample_record :: resource_record where
  "sample_record = \<lparr>rr_name = Name [], rr_type = TypeHttps, rr_class = 1, rr_ttl = 60,
     rr_rdata = [0, 1, 0] @ params_wire sample_params\<rparr>"

lemma sample_query_parse:
  "message_parse sample_query = Inr \<lparr>ms_bytes = sample_query, ms_id = 7, ms_flags = 0x100, ms_answer_count = 0,
     ms_authority_count = 0, ms_additional_count = 0,
     ms_question = \<lparr>q_name = Name [], q_type = TypeHttps, q_class = 1\<rparr>,
     ms_question_bytes = [0, 0, 65, 0, 1], ms_answers_at = 17\<rparr>"
proof -
  have "name_read sample_query 12 = Inr (Name [], 1)"
    using name_from_end [of 12 sample_query "[]" None]
    by (simp add: name_read_at or_else_def sample_query_def)
  then show ?thesis
    by (simp add: message_parse_def sample_query_def read_header_def read_type_class_def reader_new_def reader_u16_def
        reader_array_def reader_rest_def reader_position_def reader_skip_def reader_take_def slice_range_def
        from_be_def OPCODE_MASK_def wire_len_def is_root_def type_from_wire_def del: add_2_eq_Suc add_2_eq_Suc')
qed

definition sample_q :: message where
  "sample_q = projr (message_parse sample_query)"

definition sample_reply :: bytes where
  "sample_reply = header_wire 9 0x8180 1 @ ms_question_bytes sample_q @ records_wire [sample_record]"

definition sample_u :: message where
  "sample_u = projr (message_parse sample_reply)"

lemma sample_q: "message_parse sample_query = Inr sample_q"
  by (simp add: sample_q_def sample_query_parse)

lemma sample_shape: "svc_shape (rr_rdata sample_record) 3 sample_params"
proof -
  have "target_end ([0, 1, 0] @ params_wire sample_params) 2 = Inr 3"
    by (subst target_end.simps) (simp add: slice_get_def)
  then show ?thesis
    by (simp add: svc_shape_def svc_params_def sample_record_def sample_params_def SVCPARAM_ALPN_def SVCPARAM_ECH_def)
qed

lemma sample_found:
  "find_params sample_record = Inr (Some (10, 15), Some (3, 10))"
proof -
  have "alpn_loop [2, 104, 51] 0 = Inr True"
    by (subst alpn_loop.simps) (simp add: slice_range_def is_h3_def)
  then show ?thesis
    using svc_shape_searches [OF sample_shape]
    by (simp add: find_params_def sample_record_def carries_svc_params_def sample_params_def ech_step_def h3_step_def
        SVCPARAM_ALPN_def SVCPARAM_ECH_def SVCPARAM_NO_DEFAULT_ALPN_def length_param_wire alpn_offers_h3_def)
qed

lemma sample_u: "message_parse sample_reply = Inr sample_u" "section_records (message_answers sample_u) = Inr [sample_record]"
proof -
  have wire: "message_parse sample_reply = Inr \<lparr>ms_bytes = sample_reply, ms_id = 9, ms_flags = 0x8180, ms_answer_count = 1,
      ms_authority_count = 0, ms_additional_count = 0, ms_question = ms_question sample_q,
      ms_question_bytes = ms_question_bytes sample_q, ms_answers_at = 12 + length (ms_question_bytes sample_q)\<rparr>"
    by (rule message_parse_wire [OF sample_q]) (simp_all add: OPCODE_MASK_def sample_reply_def)
  then show "message_parse sample_reply = Inr sample_u" by (simp add: sample_u_def)
  have "record_ok sample_record"
    by (simp add: record_ok_def sample_record_def type_from_wire_def sample_params_def length_param_wire)
  then show "section_records (message_answers sample_u) = Inr [sample_record]"
    using wire
    by (intro section_records_wire [where rest = "[]"])
      (simp_all add: sample_u_def message_answers_def sample_reply_def)
qed

definition sample_response :: "dns_error + rewritten \<times> bytes" where
  "sample_response = write_response_aged (replicate 80 0) sample_q sample_u (answer_policy_for Inspected) 5"

lemma sample_response: "\<exists>rw out. sample_response = Inr (rw, out)"
proof -
  have qb: "length (ms_question_bytes sample_q) = 5" by (simp add: sample_q_def sample_query_parse)
  have cut: "without_all (rr_rdata sample_record) (Some (3, 10)) (Some (10, 15)) = Some [[0, 1, 0], [], []]"
    by (simp add: without_all_def without_both_def slice_range_def sample_record_def sample_params_def length_param_wire
        param_wire_def)
  have len: "length (record_wire (sample_record\<lparr>rr_ttl := t, rr_rdata := [0, 1, 0]\<rparr>)) = 14" for t
    by (simp add: record_wire_def sample_record_def name_wire_def is_root_def)
  show ?thesis
    unfolding sample_response_def write_response_aged_def write_header_eq for_answers_each [OF sample_u(2)]
    by (simp add: put_or_fail_def put_bytes_def qb rewrite_start_def write_answer_def sample_found answer_policy_for_def
        cut write_record_eq ANCOUNT_AT_def len bounded_at_def finished_def bounded_u16_def bounded_bytes_def
        bounded_finish_def)
qed

theorem response_round_trip_witness:
  "\<exists>m rs. message_parse (take (rn_len (fst (projr sample_response))) (snd (projr sample_response))) = Inr m
     \<and> ms_id m = 7 \<and> message_rcode m = NoError
     \<and> section_records (message_answers m) = Inr (map (rewritten_record (answer_policy_for Inspected) 5) rs) \<and> length rs = 1"
proof -
  obtain rw out where run: "write_response_aged (replicate 80 0) sample_q sample_u (answer_policy_for Inspected) 5 = Inr (rw, out)"
    using sample_response by (auto simp: sample_response_def)
  have "ms_id sample_q = 7" by (simp add: sample_q_def sample_query_parse)
  moreover have "message_rcode sample_u = NoError"
    using message_parse_wire [OF sample_q, of "0x8180" sample_reply 9 1 "records_wire [sample_record]"]
    by (simp add: sample_u_def sample_reply_def OPCODE_MASK_def message_rcode_def rcode_from_wire_def RCODE_MASK_def)
  moreover obtain rs m where "section_records (message_answers sample_u) = Inr rs"
      "message_parse (take (rn_len rw) out) = Inr m" "ms_id m = ms_id sample_q" "message_rcode m = message_rcode sample_u"
      "section_records (message_answers m) = Inr (map (rewritten_record (answer_policy_for Inspected) 5) rs)"
    using response_round_trip [OF sample_q run] by blast
  ultimately show ?thesis
    using sample_u(2) run by (intro exI [of _ m] exI [of _ rs]) (auto simp: sample_response_def)
qed

theorem inspected_answers_stripped_witness:
  "\<exists>m r. message_parse (take (rn_len (fst (projr sample_response))) (snd (projr sample_response))) = Inr m
     \<and> section_records (message_answers m) = Inr [r] \<and> carries_svc_params (rr_type r)
     \<and> ech_param (rr_rdata r) = Inr None \<and> h3_alpn_param (rr_rdata r) = Inr None"
proof -
  obtain rw out where run: "write_response_aged (replicate 80 0) sample_q sample_u (answer_policy_for Inspected) 5 = Inr (rw, out)"
    using sample_response by (auto simp: sample_response_def)
  obtain rs m1 where "section_records (message_answers sample_u) = Inr rs" "message_parse (take (rn_len rw) out) = Inr m1"
      "section_records (message_answers m1) = Inr (map (rewritten_record (answer_policy_for Inspected) 5) rs)"
    using write_response_Inr [OF sample_q run] .
  then obtain m where m: "message_parse (take (rn_len rw) out) = Inr m"
      "section_records (message_answers m) = Inr [rewritten_record (answer_policy_for Inspected) 5 sample_record]"
    using sample_u(2) by fastforce
  moreover have svc: "carries_svc_params (rr_type (rewritten_record (answer_policy_for Inspected) 5 sample_record))"
    by (simp add: rewritten_record_def sample_found) (simp add: sample_record_def carries_svc_params_def)
  moreover have "ech_param (rr_rdata (rewritten_record (answer_policy_for Inspected) 5 sample_record)) = Inr None"
      "h3_alpn_param (rr_rdata (rewritten_record (answer_policy_for Inspected) 5 sample_record)) = Inr None"
    using inspected_answers_stripped [OF sample_q m(1) run m(2) _ svc] by simp_all
  ultimately show ?thesis
    using run
    by (intro exI [of _ m] exI [of _ "rewritten_record (answer_policy_for Inspected) 5 sample_record"])
      (simp add: sample_response_def)
qed

end
