(* ===== verification/Fifo.thy ===== *)
theory Fifo
  imports Prelude
begin

text \<open>
  The bounded memo of \<^verbatim>\<open>src/fifo.rs\<close>: a hash map with the order its keys came in, which forgets
  its oldest entry at capacity. The locale \<open>bounded_memo\<close> is the contract its clients rely on; it
  is interpreted on the definitions of this theory.
\<close>

section \<open>Model\<close>

record ('k, 'v) bounded_fifo =
  ff_entries :: "('k, 'v) hash_map"
  ff_order :: "'k list"
  ff_capacity :: nat

definition fifo_new :: "nat \<Rightarrow> ('k, 'v) bounded_fifo" where
  "fifo_new cap = \<lparr>ff_entries = [], ff_order = [], ff_capacity = cap\<rparr>"

definition fifo_get :: "('k, 'v) bounded_fifo \<Rightarrow> 'k \<Rightarrow> 'v option" where
  "fifo_get q k = hm_get (ff_entries q) k"

definition fifo_insert :: "'k \<Rightarrow> 'v \<Rightarrow> ('k, 'v) bounded_fifo \<Rightarrow> ('k, 'v) bounded_fifo" where
  "fifo_insert k v q =
     (if hm_contains (ff_entries q) k then q\<lparr>ff_entries := hm_insert k v (ff_entries q)\<rparr>
      else let q' = (if ff_capacity q \<le> length (ff_entries q) then
                       (case ff_order q of
                          [] \<Rightarrow> q
                        | oldest # rest \<Rightarrow> q\<lparr>ff_order := rest, ff_entries := hm_remove oldest (ff_entries q)\<rparr>)
                     else q)
           in q'\<lparr>ff_entries := hm_insert k v (ff_entries q'), ff_order := ff_order q' @ [k]\<rparr>)"

definition fifo_get_or_insert_with ::
    "'k \<Rightarrow> (unit \<Rightarrow> 'v) \<Rightarrow> ('k, 'v) bounded_fifo \<Rightarrow> 'v \<times> ('k, 'v) bounded_fifo" where
  "fifo_get_or_insert_with k compute q =
     (case hm_get (ff_entries q) k of
        Some existing \<Rightarrow> (existing, q)
      | None \<Rightarrow> (let v = compute () in (v, fifo_insert k v q)))"

definition fifo_clear :: "('k, 'v) bounded_fifo \<Rightarrow> ('k, 'v) bounded_fifo" where
  "fifo_clear q = q\<lparr>ff_entries := [], ff_order := []\<rparr>"

section \<open>Invariant\<close>

text \<open>The order lists exactly the stored keys, each once, and the capacity bounds them.\<close>

definition fifo_ok :: "('k, 'v) bounded_fifo \<Rightarrow> bool" where
  "fifo_ok q \<longleftrightarrow> hm_ok (ff_entries q) \<and> distinct (ff_order q)
     \<and> set (ff_order q) = fst ` set (ff_entries q)
     \<and> length (ff_entries q) \<le> ff_capacity q \<and> 0 < ff_capacity q"

lemma fifo_ok_order:
  assumes "fifo_ok q"
  shows "hm_contains (ff_entries q) k \<longleftrightarrow> k \<in> set (ff_order q)" and "length (ff_order q) = length (ff_entries q)"
proof -
  show "hm_contains (ff_entries q) k \<longleftrightarrow> k \<in> set (ff_order q)"
    using assms by (auto simp: fifo_ok_def hm_contains_def map_of_eq_None_iff)
  have "length (ff_order q) = card (set (ff_order q))"
    using assms distinct_card [of "ff_order q"] by (simp add: fifo_ok_def)
  also have "\<dots> = card (fst ` set (ff_entries q))"
    using assms by (simp add: fifo_ok_def)
  also have "\<dots> = length (ff_entries q)"
    using assms by (simp add: fifo_ok_def hm_ok_def distinct_card flip: set_map)
  finally show "length (ff_order q) = length (ff_entries q)" .
qed

lemma fifo_ok_new [simp]: "0 < cap \<Longrightarrow> fifo_ok (fifo_new cap)"
  by (simp add: fifo_ok_def fifo_new_def)

lemma fifo_ok_clear [simp]: "fifo_ok q \<Longrightarrow> fifo_ok (fifo_clear q)"
  by (simp add: fifo_ok_def fifo_clear_def)

text \<open>The three cases of an insertion on a well-formed memo.\<close>

lemma fifo_insert_present:
  "hm_contains (ff_entries q) k \<Longrightarrow> fifo_insert k v q = q\<lparr>ff_entries := hm_insert k v (ff_entries q)\<rparr>"
  by (simp add: fifo_insert_def)

lemma fifo_insert_room:
  "\<not> hm_contains (ff_entries q) k \<Longrightarrow> length (ff_entries q) < ff_capacity q \<Longrightarrow>
   fifo_insert k v q = q\<lparr>ff_entries := hm_insert k v (ff_entries q), ff_order := ff_order q @ [k]\<rparr>"
  by (simp add: fifo_insert_def Let_def)

lemma fifo_insert_full:
  assumes "fifo_ok q" and "\<not> hm_contains (ff_entries q) k" and "length (ff_entries q) = ff_capacity q"
  obtains oldest rest where "ff_order q = oldest # rest"
    "fifo_insert k v q =
       q\<lparr>ff_entries := hm_insert k v (hm_remove oldest (ff_entries q)), ff_order := rest @ [k]\<rparr>"
proof (cases "ff_order q")
  case Nil
  with assms fifo_ok_order(2) [OF assms(1)] show ?thesis by (simp add: fifo_ok_def)
next
  case (Cons oldest rest)
  with assms show ?thesis by (intro that [of oldest rest]) (simp_all add: fifo_insert_def Let_def)
qed

lemma set_keys_insert [simp]: "fst ` set (hm_insert k v m) = insert k (fst ` set m)"
  by (simp add: dom_update)

lemma set_keys_remove [simp]: "fst ` set (hm_remove k m) = fst ` set m - {k}"
  by (simp add: delete_keys dom_map_of_conv_image_fst [symmetric] delete_conv')

lemma fifo_ok_insert [simp]:
  assumes "fifo_ok q"
  shows "fifo_ok (fifo_insert k v q)"
proof (cases "hm_contains (ff_entries q) k")
  case True
  with assms show ?thesis
    by (auto simp: fifo_insert_present fifo_ok_def length_hm_insert hm_contains_def map_of_eq_None_iff)
next
  case False
  note absent = this and order = fifo_ok_order(1) [OF assms, of k]
  show ?thesis
  proof (cases "length (ff_entries q) < ff_capacity q")
    case True
    with assms absent order show ?thesis
      by (simp add: fifo_insert_room fifo_ok_def length_hm_insert hm_contains_def)
  next
    case False
    with assms have "length (ff_entries q) = ff_capacity q" by (simp add: fifo_ok_def)
    with assms absent obtain oldest rest where q: "ff_order q = oldest # rest"
      "fifo_insert k v q =
         q\<lparr>ff_entries := hm_insert k v (hm_remove oldest (ff_entries q)), ff_order := rest @ [k]\<rparr>"
      by (rule fifo_insert_full)
    moreover from q(1) have "hm_get (ff_entries q) oldest \<noteq> None"
      using fifo_ok_order(1) [OF assms, of oldest] by (simp add: hm_contains_def)
    moreover have "insert oldest (set rest) = fst ` set (ff_entries q)" "oldest \<notin> set rest" "distinct rest"
      using assms q(1) by (auto simp: fifo_ok_def)
    ultimately show ?thesis
      using assms absent order
      by (auto simp: fifo_ok_def length_hm_insert length_hm_remove hm_contains_def)
  qed
qed

lemma fifo_capacity_insert [simp]: "ff_capacity (fifo_insert k v q) = ff_capacity q"
  by (simp add: fifo_insert_def Let_def split: list.splits)

lemma fifo_get_insert:
  assumes "fifo_ok q"
  shows "fifo_get (fifo_insert k v q) k = Some v"
    and "k' \<noteq> k \<Longrightarrow> fifo_get (fifo_insert k v q) k' \<in> {fifo_get q k', None}"
  by (auto simp: fifo_get_def fifo_insert_def Let_def split: list.splits if_splits)

section \<open>Contract\<close>

text \<open>
  What a client may rely on: an insertion is found until something else is inserted, and what a
  memo forgets it forgets entirely.
\<close>

locale bounded_memo =
  fixes empty :: 'm and lookup :: "'m \<Rightarrow> 'k \<Rightarrow> 'v option" and store :: "'k \<Rightarrow> 'v \<Rightarrow> 'm \<Rightarrow> 'm"
    and valid :: "'m \<Rightarrow> bool" and size_of :: "'m \<Rightarrow> nat" and bound :: nat
  assumes valid_empty: "valid empty"
    and lookup_empty: "lookup empty k = None"
    and valid_store: "valid m \<Longrightarrow> valid (store k v m)"
    and lookup_stored: "valid m \<Longrightarrow> lookup (store k v m) k = Some v"
    and lookup_other: "valid m \<Longrightarrow> k' \<noteq> k \<Longrightarrow> lookup (store k v m) k' \<in> {lookup m k', None}"
    and size_bound: "valid m \<Longrightarrow> size_of m \<le> bound"
begin

definition run :: "('k \<times> 'v) list \<Rightarrow> 'm" where
  "run kvs = foldl (\<lambda>m (k, v). store k v m) empty kvs"

lemma run_snoc: "run (kvs @ [(k, v)]) = store k v (run kvs)"
  by (simp add: run_def)

lemma valid_run: "valid (run kvs)"
proof (induction kvs rule: rev_induct)
  case Nil
  show ?case by (simp add: run_def valid_empty)
next
  case (snoc kv kvs)
  then show ?case by (cases kv) (simp add: run_snoc valid_store)
qed

text \<open>A lookup answers with the value last stored for the key, or not at all.\<close>

lemma lookup_last_stored: "lookup (run kvs) k = Some v \<Longrightarrow> map_of (rev kvs) k = Some v"
proof (induction kvs arbitrary: v rule: rev_induct)
  case Nil
  then show ?case by (simp add: run_def lookup_empty)
next
  case (snoc kv kvs)
  obtain k' v' where kv: "kv = (k', v')" by (cases kv)
  show ?case
  proof (cases "k = k'")
    case True
    with snoc.prems kv show ?thesis by (simp add: run_snoc lookup_stored [OF valid_run])
  next
    case False
    with snoc.prems kv have "lookup (run kvs) k = Some v"
      using lookup_other [OF valid_run, of k k' v' kvs] by (auto simp: run_snoc)
    with False kv snoc.IH show ?thesis by simp
  qed
qed

lemma size_run: "size_of (run kvs) \<le> bound"
  by (rule size_bound [OF valid_run])

end

interpretation fifo: bounded_memo "fifo_new (Suc n)" fifo_get fifo_insert
    "\<lambda>q. fifo_ok q \<and> ff_capacity q = Suc n" "\<lambda>q. length (ff_entries q)" "Suc n" for n
proof (unfold_locales, goal_cases)
  case (2 k)
  show ?case by (simp add: fifo_new_def fifo_get_def)
next
  case (5 m k' k v)
  then show ?case using fifo_get_insert(2) [of m k' k v] by simp
qed (simp_all add: fifo_get_insert(1), simp_all add: fifo_new_def fifo_ok_def)

text \<open>
  C20. However many entries a bounded memo of capacity \<open>n + 1\<close> has taken in, it holds at most
  \<open>n + 1\<close> of them, and a lookup that answers gives the value stored last under that key.
\<close>

theorem fifo_bounded_and_current:
  assumes "q = foldl (\<lambda>m (k, v). fifo_insert k v m) (fifo_new (Suc n)) kvs"
  shows "length (ff_entries q) \<le> Suc n \<and> fifo_get q k \<in> {map_of (rev kvs) k, None}"
  using fifo.size_run [of n kvs] fifo.lookup_last_stored [of n kvs k] assms
  by (cases "fifo_get q k") (auto simp: fifo.run_def)

theorem fifo_bounded_and_current_witness:
  "fifo_get (foldl (\<lambda>m (k, v). fifo_insert k v m) (fifo_new (Suc 0)) [(1 :: nat, True), (2, False)]) 2
     \<in> {Some False, None}"
  using fifo_bounded_and_current [OF refl, of 0 "[(1 :: nat, True), (2, False)]" 2] by simp

text \<open>Memoising a function of the key never changes its answer.\<close>

lemma get_or_insert_with_pure:
  assumes "fifo_ok q" and "\<And>i w. fifo_get q i = Some w \<Longrightarrow> w = f i"
    and "fifo_get_or_insert_with k (\<lambda>_. f k) q = (v, q')"
  shows "v = f k" and "fifo_ok q'" and "fifo_get q' k' = Some v' \<Longrightarrow> v' = f k'"
proof -
  show "v = f k" "fifo_ok q'"
    using assms by (auto simp: fifo_get_or_insert_with_def Let_def fifo_get_def split: option.splits)
  assume "fifo_get q' k' = Some v'"
  with assms fifo_get_insert(1) [OF assms(1), of k "f k"] fifo_get_insert(2) [OF assms(1), of k' k "f k"]
  show "v' = f k'"
    by (cases "k' = k")
      (auto simp: fifo_get_or_insert_with_def Let_def split: option.splits)
qed

end
