(* ===== verification/Dns_Cache.thy ===== *)
theory Dns_Cache
  imports Dns_Response Fifo
begin

text \<open>
  The memo of upstream replies of \<^verbatim>\<open>src/policy/cache.rs\<close>: how long a reply may be served, and the cache over
  the bounded memo. Time is an argument. Adding a lifetime to an instant panics past the end of the
  clock, which is \<open>None\<close> here.
\<close>

section \<open>Model\<close>

definition MIN_TTL :: duration where "MIN_TTL = from_secs 30"
definition MAX_TTL :: duration where "MAX_TTL = from_secs 3600"
definition NEGATIVE_TTL :: duration where "NEGATIVE_TTL = from_secs 60"
definition SOA :: u16 where "SOA = 6"

record cached =
  ca_reply :: bytes
  ca_admitted :: instant
  ca_expires :: instant

record dns_cache =
  dc_entries :: "(name \<times> record_type, cached) bounded_fifo"

definition cache_new :: "nat \<Rightarrow> dns_cache" where
  "cache_new cap = \<lparr>dc_entries = fifo_new cap\<rparr>"

definition cache_get :: "name \<Rightarrow> record_type \<Rightarrow> instant \<Rightarrow> dns_cache \<Rightarrow> (bytes \<times> duration) option" where
  "cache_get n qtype now c =
     (case fifo_get (dc_entries c) (n, qtype) of
        None \<Rightarrow> None
      | Some e \<Rightarrow> if now < ca_expires e then Some (ca_reply e, now - ca_admitted e) else None)"

text \<open>The SOA of the authority section; its last four bytes are the negative lifetime.\<close>

definition find_soa :: "message \<Rightarrow> resource_record option" where
  "find_soa m =
     find_answer
       (\<lambda>item. case item of
          Inl _ \<Rightarrow> None
        | Inr r \<Rightarrow> if type_to_wire (rr_type r) = SOA then Some r else None)
       (message_authority m)"

definition negative_lifetime :: "message \<Rightarrow> duration" where
  "negative_lifetime m =
     (case find_soa m of
        None \<Rightarrow> NEGATIVE_TTL
      | Some soa \<Rightarrow>
          (if length (rr_rdata soa) < 4 then NEGATIVE_TTL
           else from_secs (unat (min (rr_ttl soa) (from_be (drop (length (rr_rdata soa) - 4) (rr_rdata soa)))))))"

definition shortest_ttl :: "resource_record \<Rightarrow> u32 option \<Rightarrow> dns_error + u32 option" where
  "shortest_ttl r shortest = Inr (Some (case shortest of None \<Rightarrow> rr_ttl r | Some ttl \<Rightarrow> min ttl (rr_ttl r)))"

definition lifetime :: "message \<Rightarrow> duration option" where
  "lifetime m =
     (let raw = (case message_rcode m of
                   NoError \<Rightarrow>
                     (case for_answers shortest_ttl (message_answers m) None of
                        Inl _ \<Rightarrow> None
                      | Inr None \<Rightarrow> Some (negative_lifetime m)
                      | Inr (Some ttl) \<Rightarrow> Some (from_secs (unat ttl)))
                 | NameError \<Rightarrow> Some (negative_lifetime m)
                 | _ \<Rightarrow> None)
      in map_option (\<lambda>d. max MIN_TTL (min d MAX_TTL)) raw)"

definition reply_lifetime :: "bytes \<Rightarrow> duration option" where
  "reply_lifetime reply = (case message_parse reply of Inl _ \<Rightarrow> None | Inr m \<Rightarrow> lifetime m)"

definition cache_admit :: "name \<Rightarrow> record_type \<Rightarrow> bytes \<Rightarrow> instant \<Rightarrow> dns_cache \<Rightarrow> dns_cache option" where
  "cache_admit n qtype reply now c =
     (case reply_lifetime reply of
        None \<Rightarrow> Some c
      | Some d \<Rightarrow>
          map_option
            (\<lambda>expires. c\<lparr>dc_entries := fifo_insert (n, qtype)
               \<lparr>ca_reply = reply, ca_admitted = now, ca_expires = expires\<rparr> (dc_entries c)\<rparr>)
            (instant_add now d))"

definition cache_clear :: "dns_cache \<Rightarrow> dns_cache" where
  "cache_clear c = c\<lparr>dc_entries := fifo_clear (dc_entries c)\<rparr>"

section \<open>Lifetimes\<close>

lemma lifetime_bounds: "lifetime m = Some d \<Longrightarrow> MIN_TTL \<le> d \<and> d \<le> MAX_TTL"
  by (auto simp: lifetime_def Let_def MIN_TTL_def MAX_TTL_def from_secs_def)

text \<open>The shortest time to live of a list of records.\<close>

lemma shortest_each:
  "for_each shortest_ttl rs s =
     Inr (if rs = [] then s else Some (case s of None \<Rightarrow> Min (rr_ttl ` set rs) | Some t \<Rightarrow> min t (Min (rr_ttl ` set rs))))"
proof (induction rs arbitrary: s)
  case (Cons r rs)
  then show ?case
    by (cases "rs = []") (auto simp: shortest_ttl_def min.assoc split: option.splits)
qed simp

lemma lifetime_answers:
  assumes "message_rcode m = NoError" and "section_records (message_answers m) = Inr rs" and "rs \<noteq> []"
  shows "lifetime m = Some (max MIN_TTL (min (from_secs (unat (Min (rr_ttl ` set rs)))) MAX_TTL))"
  using assms by (simp add: lifetime_def for_answers_each shortest_each)

section \<open>The cache against an unbounded memo\<close>

datatype cache_op = Admit name record_type bytes instant | Clear

fun cache_step :: "cache_op \<Rightarrow> dns_cache \<Rightarrow> dns_cache option" where
  "cache_step (Admit n qtype reply now) c = cache_admit n qtype reply now c"
| "cache_step Clear c = Some (cache_clear c)"

fun cache_run :: "cache_op list \<Rightarrow> dns_cache \<Rightarrow> dns_cache option" where
  "cache_run [] c = Some c"
| "cache_run (op # ops) c = Option.bind (cache_step op c) (cache_run ops)"

type_synonym memo = "name \<times> record_type \<Rightarrow> (bytes \<times> instant \<times> duration) option"

fun memo_step :: "cache_op \<Rightarrow> memo \<Rightarrow> memo" where
  "memo_step (Admit n qtype reply now) b =
     (case reply_lifetime reply of None \<Rightarrow> b | Some d \<Rightarrow> b((n, qtype) \<mapsto> (reply, now, d)))"
| "memo_step Clear b = (\<lambda>_. None)"

definition memo_get :: "name \<Rightarrow> record_type \<Rightarrow> instant \<Rightarrow> memo \<Rightarrow> (bytes \<times> duration) option" where
  "memo_get n qtype now b =
     (case b (n, qtype) of
        Some (reply, admitted, d) \<Rightarrow> if now < admitted + d then Some (reply, now - admitted) else None
      | None \<Rightarrow> None)"

definition on_clock :: "cache_op \<Rightarrow> bool" where
  "on_clock op = (case op of Admit _ _ _ now \<Rightarrow> now + MAX_TTL \<le> instant_max | Clear \<Rightarrow> True)"

definition cache_sim :: "dns_cache \<Rightarrow> memo \<Rightarrow> bool" where
  "cache_sim c b \<longleftrightarrow> fifo_ok (dc_entries c)
     \<and> (\<forall>k e. fifo_get (dc_entries c) k = Some e \<longrightarrow>
          (\<exists>d. b k = Some (ca_reply e, ca_admitted e, d) \<and> ca_expires e = ca_admitted e + d))"

lemma cache_sim_step:
  assumes "cache_sim c b" and "on_clock op"
  shows "\<exists>c'. cache_step op c = Some c' \<and> cache_sim c' (memo_step op b)
     \<and> ff_capacity (dc_entries c') = ff_capacity (dc_entries c)"
proof (cases op)
  case (Admit n qtype reply now)
  show ?thesis
  proof (cases "reply_lifetime reply")
    case None
    then show ?thesis using assms(1) by (simp add: Admit cache_admit_def)
  next
    case (Some d)
    have "d \<le> MAX_TTL" using Some lifetime_bounds by (auto simp: reply_lifetime_def split: sum.splits)
    then have add: "instant_add now d = Some (now + d)"
      using assms(2) by (simp add: on_clock_def Admit instant_add_def)
    define e where "e = \<lparr>ca_reply = reply, ca_admitted = now, ca_expires = now + d\<rparr>"
    define q where "q = fifo_insert (n, qtype) e (dc_entries c)"
    have ok: "fifo_ok (dc_entries c)" using assms(1) by (simp add: cache_sim_def)
    have "cache_sim (c\<lparr>dc_entries := q\<rparr>) (b((n, qtype) \<mapsto> (reply, now, d)))"
      unfolding cache_sim_def
    proof (intro conjI allI impI)
      show "fifo_ok (dc_entries (c\<lparr>dc_entries := q\<rparr>))" using ok by (simp add: q_def)
      fix k f
      assume "fifo_get (dc_entries (c\<lparr>dc_entries := q\<rparr>)) k = Some f"
      then have "k = (n, qtype) \<and> f = e \<or> k \<noteq> (n, qtype) \<and> fifo_get (dc_entries c) k = Some f"
        using fifo_get_insert(1) [OF ok, of "(n, qtype)" e] fifo_get_insert(2) [OF ok, of k "(n, qtype)" e]
        by (cases "k = (n, qtype)") (auto simp: q_def)
      then show "\<exists>d'. (b((n, qtype) \<mapsto> (reply, now, d))) k = Some (ca_reply f, ca_admitted f, d')
          \<and> ca_expires f = ca_admitted f + d'"
        using assms(1) by (cases k) (auto simp: cache_sim_def e_def)
    qed
    then show ?thesis by (simp add: Admit cache_admit_def Some add q_def e_def)
  qed
next
  case Clear
  then show ?thesis
    using assms(1) by (simp add: cache_sim_def cache_clear_def) (simp add: fifo_get_def fifo_clear_def)
qed

lemma cache_sim_run:
  assumes "cache_sim c b" and "list_all on_clock ops"
  shows "\<exists>c'. cache_run ops c = Some c' \<and> cache_sim c' (fold memo_step ops b)
     \<and> ff_capacity (dc_entries c') = ff_capacity (dc_entries c)"
  using assms
proof (induction ops arbitrary: c b)
  case (Cons op ops)
  then obtain c1 where "cache_step op c = Some c1" "cache_sim c1 (memo_step op b)"
      "ff_capacity (dc_entries c1) = ff_capacity (dc_entries c)"
    using cache_sim_step [of c b op] by auto
  then show ?case using Cons by fastforce
qed simp

lemma memo_kept:
  assumes "\<And>k reply t d. b k = Some (reply, t, d) \<Longrightarrow> reply_lifetime reply = Some d"
    and "fold memo_step ops b k = Some (reply, t, d)"
  shows "reply_lifetime reply = Some d"
  using assms
proof (induction ops arbitrary: b)
  case (Cons op ops)
  show ?case
  proof (rule Cons.IH)
    show "fold memo_step ops (memo_step op b) k = Some (reply, t, d)" using Cons.prems(2) by simp
    show "reply_lifetime reply' = Some d'" if "memo_step op b k' = Some (reply', t', d')" for k' reply' t' d'
      using that Cons.prems(1) by (cases op) (auto split: option.splits if_splits)
  qed
qed simp

text \<open>
  C16. The cache is an unbounded memo that may forget: whatever was admitted and cleared, an answer it
  gives is the one the memo gives, a reply admitted last for the question, younger than its
  lifetime, with its age; lifetimes lie between 30 seconds and an hour, replies that do not parse
  or report a failure are never kept, no operation fails within the clock, and the number of
  entries stays within capacity.
\<close>

theorem cache_refines_memo:
  assumes "list_all on_clock ops" and "0 < cap"
  shows "\<exists>c. cache_run ops (cache_new cap) = Some c \<and> length (ff_entries (dc_entries c)) \<le> cap
     \<and> cache_get n qtype now c \<in> {memo_get n qtype now (fold memo_step ops (\<lambda>_. None)), None}
     \<and> (\<forall>reply age. cache_get n qtype now c = Some (reply, age) \<longrightarrow>
          (\<exists>d. reply_lifetime reply = Some d \<and> age < d \<and> MIN_TTL \<le> d \<and> d \<le> MAX_TTL))"
proof -
  have new: "cache_sim (cache_new cap) (\<lambda>_. None)"
    using assms(2) by (simp add: cache_sim_def cache_new_def) (simp add: fifo_get_def fifo_new_def)
  obtain c where run: "cache_run ops (cache_new cap) = Some c" "cache_sim c (fold memo_step ops (\<lambda>_. None))"
      "ff_capacity (dc_entries c) = cap"
    using cache_sim_run [OF new assms(1)] by (auto simp: cache_new_def fifo_new_def)
  have size: "length (ff_entries (dc_entries c)) \<le> cap" using run(2,3) by (simp add: cache_sim_def fifo_ok_def)
  show ?thesis
  proof (cases "cache_get n qtype now c")
    case None
    then show ?thesis using run(1) size by auto
  next
    case (Some answer)
    then obtain e where e: "fifo_get (dc_entries c) (n, qtype) = Some e" "now < ca_expires e"
        "answer = (ca_reply e, now - ca_admitted e)"
      by (auto simp: cache_get_def split: option.splits if_splits)
    then obtain d where d: "fold memo_step ops (\<lambda>_. None) (n, qtype) = Some (ca_reply e, ca_admitted e, d)"
        "ca_expires e = ca_admitted e + d"
      using run(2) unfolding cache_sim_def by blast
    have life: "reply_lifetime (ca_reply e) = Some d" using memo_kept [OF _ d(1)] by simp
    then have "MIN_TTL \<le> d" "d \<le> MAX_TTL" using lifetime_bounds by (auto simp: reply_lifetime_def split: sum.splits)
    moreover have "0 < MIN_TTL" by (simp add: MIN_TTL_def from_secs_def)
    ultimately have "MIN_TTL \<le> d" "d \<le> MAX_TTL" "now - ca_admitted e < d" using e(2) d(2) by linarith+
    moreover have "memo_get n qtype now (fold memo_step ops (\<lambda>_. None)) = Some answer"
      using e d by (simp add: memo_get_def)
    ultimately show ?thesis using run(1) size Some e(3) life by auto
  qed
qed

lemma sample_lifetime: "reply_lifetime sample_reply = Some (from_secs 60)"
proof -
  have "message_rcode sample_u = NoError"
    using message_parse_wire [OF sample_q, of "0x8180" sample_reply 9 1 "records_wire [sample_record]"]
    by (simp add: sample_u_def sample_reply_def OPCODE_MASK_def message_rcode_def rcode_from_wire_def RCODE_MASK_def)
  then have "lifetime sample_u = Some (from_secs 60)"
    using sample_u(2) by (simp add: lifetime_answers) (simp add: sample_record_def MIN_TTL_def MAX_TTL_def from_secs_def)
  then show ?thesis by (simp add: reply_lifetime_def sample_u(1))
qed

theorem cache_refines_memo_witness:
  "\<exists>c. cache_run [Clear, Admit ROOT TypeHttps sample_reply 5] (cache_new 3) = Some c
     \<and> cache_get ROOT TypeHttps 6 c \<in> {Some (sample_reply, 1), None}"
  using cache_refines_memo [of "[Clear, Admit ROOT TypeHttps sample_reply 5]" 3 ROOT TypeHttps 6]
  by (auto simp: on_clock_def MAX_TTL_def instant_max_def memo_get_def sample_lifetime from_secs_def
      split: if_splits)

end
