(* ===== verification/Demux.thy ===== *)
theory Demux
  imports Dns_Response
begin

text \<open>
  One upstream connection with many queries in flight, \<^verbatim>\<open>src/policy/demux.rs\<close>: the table of waiters keyed by wire
  identifier, and the steps of the task that drives it, which rewrites the identifier of each
  query and restores it in the reply.

  A waiter's reply channel is a handle of a type of its own. Whether its receiver has stopped
  waiting is known only to the channel, so it is an argument of the operations that ask. The search
  for an identifier has no bound of its own; not returning is \<open>None\<close>.
\<close>

section \<open>Waiters\<close>

definition MAX_PENDING :: nat where "MAX_PENDING = 1024"

definition ID_BYTES :: nat where "ID_BYTES = 2"

record 'r request =
  rq_message :: bytes
  rq_question :: question
  rq_reply :: 'r

record 'r waiter =
  wt_original :: bytes
  wt_question :: question
  wt_reply :: 'r

record 'r in_flight =
  fl_by_id :: "(u16, 'r waiter) hash_map"
  fl_next :: u16

definition flight_new :: "u16 \<Rightarrow> 'r in_flight" where
  "flight_new random = \<lparr>fl_by_id = [], fl_next = random\<rparr>"

definition flight_is_empty :: "'r in_flight \<Rightarrow> bool" where
  "flight_is_empty p \<longleftrightarrow> fl_by_id p = []"

definition flight_sweep :: "('r \<Rightarrow> bool) \<Rightarrow> 'r in_flight \<Rightarrow> 'r in_flight" where
  "flight_sweep closed p = p\<lparr>fl_by_id := hm_retain (\<lambda>_ w. \<not> closed (wt_reply w)) (fl_by_id p)\<rparr>"

partial_function (option) find_id ::
    "('r \<Rightarrow> bool) \<Rightarrow> (u16, 'r waiter) hash_map \<Rightarrow> u16 \<Rightarrow> (u16 \<times> u16) option" where
  "find_id closed m candidate =
     (if (case hm_get m candidate of None \<Rightarrow> True | Some held \<Rightarrow> closed (wt_reply held))
      then Some (candidate, candidate + 1)
      else find_id closed m (candidate + 1))"

definition flight_admit ::
    "('r \<Rightarrow> bool) \<Rightarrow> 'r waiter \<Rightarrow> 'r in_flight \<Rightarrow> (u16 option \<times> 'r in_flight) option" where
  "flight_admit closed w p =
     (let p = (if MAX_PENDING \<le> length (fl_by_id p) then flight_sweep closed p else p)
      in if MAX_PENDING \<le> length (fl_by_id p) then Some (None, p)
         else case find_id closed (fl_by_id p) (fl_next p) of
                None \<Rightarrow> None
              | Some (ident, nxt) \<Rightarrow>
                  Some (Some ident, p\<lparr>fl_next := nxt, fl_by_id := hm_insert ident w (fl_by_id p)\<rparr>))"

definition flight_claim :: "bytes \<Rightarrow> 'r in_flight \<Rightarrow> 'r waiter option \<times> 'r in_flight" where
  "flight_claim reply p =
     (case message_parse reply of
        Inl _ \<Rightarrow> (None, p)
      | Inr parsed \<Rightarrow>
          (if \<not> is_response parsed then (None, p)
           else case hm_get (fl_by_id p) (ms_id parsed) of
                  None \<Rightarrow> (None, p)
                | Some w \<Rightarrow>
                    (if wt_question w \<noteq> ms_question parsed then (None, p)
                     else (Some w, p\<lparr>fl_by_id := hm_remove (ms_id parsed) (fl_by_id p)\<rparr>))))"

section \<open>The driver\<close>

text \<open>\<open>Demux::query\<close> up to the channel: only a message that parses becomes a request.\<close>

definition make_request :: "bytes \<Rightarrow> 'r \<Rightarrow> 'r request option" where
  "make_request message reply =
     (case message_parse message of
        Inl _ \<Rightarrow> None
      | Inr m \<Rightarrow> Some \<lparr>rq_message = message, rq_question = ms_question m, rq_reply = reply\<rparr>)"

text \<open>A request taken from the channel, with the message sent if it was admitted.\<close>

definition drive_request ::
    "('r \<Rightarrow> bool) \<Rightarrow> 'r request \<Rightarrow> 'r in_flight \<Rightarrow> (bytes option \<times> 'r in_flight) option" where
  "drive_request closed rq p =
     (let original = take ID_BYTES (rq_message rq)
      in case flight_admit closed \<lparr>wt_original = original, wt_question = rq_question rq, wt_reply = rq_reply rq\<rparr> p of
           None \<Rightarrow> None
         | Some (None, p) \<Rightarrow> Some (None, p)
         | Some (Some ident, p) \<Rightarrow> Some (Some (overwrite (rq_message rq) 0 (to_be_16 ident)), p))"

text \<open>A reply received from the transport, with the channel it is sent to if it was claimed.\<close>

definition drive_reply :: "bytes \<Rightarrow> 'r in_flight \<Rightarrow> ('r \<times> bytes) option \<times> 'r in_flight" where
  "drive_reply reply p =
     (case flight_claim reply p of
        (None, p) \<Rightarrow> (None, p)
      | (Some w, p) \<Rightarrow> (Some (wt_reply w, overwrite reply 0 (wt_original w)), p))"

text \<open>
  A run of the driver, with what was asked on each channel and what was delivered on it. Channels
  close at any time, so the predicate may differ from step to step.
\<close>

inductive drive_step ::
    "('r \<times> bytes) list \<times> ('r \<times> bytes) list \<times> 'r in_flight \<Rightarrow>
     ('r \<times> bytes) list \<times> ('r \<times> bytes) list \<times> 'r in_flight \<Rightarrow> bool" where
  request: "make_request message r = Some rq \<Longrightarrow> drive_request closed rq p = Some (sent, p') \<Longrightarrow>
    drive_step (asked, delivered, p) ((r, message) # asked, delivered, p')"
| received: "drive_reply reply p = (Some d, p') \<Longrightarrow> drive_step (asked, delivered, p) (asked, d # delivered, p')"
| unclaimed: "drive_reply reply p = (None, p') \<Longrightarrow> drive_step (asked, delivered, p) (asked, delivered, p')"
| sweep: "drive_step (asked, delivered, p) (asked, delivered, flight_sweep closed p)"

section \<open>Identifiers\<close>

definition flight_ok :: "'r in_flight \<Rightarrow> bool" where
  "flight_ok p \<longleftrightarrow> hm_ok (fl_by_id p) \<and> length (fl_by_id p) \<le> MAX_PENDING"

text \<open>Fewer entries than identifiers: counting up from anywhere meets a free one.\<close>

lemma free_id_exists:
  assumes "length m < 65536"
  shows "\<exists>k < 65536. hm_get m ((start :: u16) + of_nat k) = None"
proof (rule ccontr)
  assume none: "\<not> ?thesis"
  have "inj_on (\<lambda>k. start + (of_nat k :: u16)) {..<65536}"
    by (rule inj_on_inverseI [where g = "\<lambda>w. unat (w - start)"]) (simp add: unat_of_nat)
  then have "card ((\<lambda>k. start + (of_nat k :: u16)) ` {..<65536}) = 65536"
    by (simp add: card_image)
  moreover have "(\<lambda>k. start + (of_nat k :: u16)) ` {..<65536} \<subseteq> fst ` set m"
    using none by (force simp: map_of_eq_None_iff)
  ultimately have "65536 \<le> card (fst ` set m)" by (metis card_mono finite_imageI finite_set)
  also have "\<dots> \<le> length m" by (metis card_image_le finite_set card_length order_trans)
  finally show False using assms by simp
qed

lemma find_id_Some:
  assumes "find_id closed m candidate = Some (ident, nxt)"
  shows "case hm_get m ident of None \<Rightarrow> True | Some held \<Rightarrow> closed (wt_reply held)"
proof -
  have "case hm_get m (fst (ident, nxt)) of None \<Rightarrow> True | Some held \<Rightarrow> closed (wt_reply held)"
  proof (rule find_id.raw_induct [where P = "\<lambda>closed m candidate r.
      case hm_get m (fst r) of None \<Rightarrow> True | Some held \<Rightarrow> closed (wt_reply held)", OF _ assms], goal_cases)
    case (1 again closed m candidate r)
    then show ?case by (simp split: if_splits) auto
  qed
  then show ?thesis by simp
qed

lemma find_id_returns:
  assumes "hm_get m (candidate + of_nat k) = None"
  shows "\<exists>r. find_id closed m candidate = Some r"
  using assms
proof (induction k arbitrary: candidate)
  case 0
  then show ?case by (subst find_id.simps) simp
next
  case (Suc k)
  then have "hm_get m (candidate + 1 + of_nat k) = None" by (simp add: add.assoc)
  then have "\<exists>r. find_id closed m (candidate + 1) = Some r" by (rule Suc.IH)
  then show ?case by (subst find_id.simps) simp
qed

lemma live_full:
  assumes "length (fl_by_id p) \<le> MAX_PENDING"
  shows "MAX_PENDING \<le> length (fl_by_id (if MAX_PENDING \<le> length (fl_by_id p) then flight_sweep closed p else p))
     \<longleftrightarrow> length (filter (\<lambda>(_, v). \<not> closed (wt_reply v)) (fl_by_id p)) = MAX_PENDING"
proof (cases "MAX_PENDING \<le> length (fl_by_id p)")
  case True
  then show ?thesis
    using length_filter_le [of "\<lambda>(_, v). \<not> closed (wt_reply v)" "fl_by_id p"] assms
    by (auto simp: flight_sweep_def hm_retain_def)
next
  case False
  then have "length (filter (\<lambda>(_, v). \<not> closed (wt_reply v)) (fl_by_id p)) < MAX_PENDING"
    by (intro le_less_trans [OF length_filter_le]) simp
  with False show ?thesis by (simp)
qed

text \<open>
  C35. Admission always returns and never takes an identifier from a caller that still waits: in a
  well-formed table a waiter is refused exactly when 1024 callers are still waiting, and otherwise
  gets an identifier no waiting caller has; every waiting caller keeps its own.
\<close>

theorem admission_fresh:
  assumes "flight_ok p"
  shows "\<exists>res p'. flight_admit closed w p = Some (res, p') \<and> flight_ok p'
     \<and> (res = None \<longleftrightarrow> length (filter (\<lambda>(_, v). \<not> closed (wt_reply v)) (fl_by_id p)) = MAX_PENDING)
     \<and> (case res of
          None \<Rightarrow> \<forall>k v. \<not> closed (wt_reply v) \<longrightarrow> (hm_get (fl_by_id p') k = Some v \<longleftrightarrow> hm_get (fl_by_id p) k = Some v)
        | Some ident \<Rightarrow>
            hm_get (fl_by_id p') ident = Some w
            \<and> (\<forall>v. hm_get (fl_by_id p) ident = Some v \<longrightarrow> closed (wt_reply v))
            \<and> (\<forall>k v. k \<noteq> ident \<longrightarrow> \<not> closed (wt_reply v) \<longrightarrow>
                 (hm_get (fl_by_id p') k = Some v \<longleftrightarrow> hm_get (fl_by_id p) k = Some v)))"
proof -
  define q where "q = (if MAX_PENDING \<le> length (fl_by_id p) then flight_sweep closed p else p)"
  have ok: "hm_ok (fl_by_id p)" "length (fl_by_id p) \<le> MAX_PENDING" using assms by (simp_all add: flight_ok_def)
  have q: "hm_ok (fl_by_id q)" "length (fl_by_id q) \<le> length (fl_by_id p)"
    using ok(1) by (simp_all add: q_def flight_sweep_def)
  have same: "hm_get (fl_by_id q) k = Some v \<longleftrightarrow> hm_get (fl_by_id p) k = Some v" if "\<not> closed (wt_reply v)" for k v
    using ok(1) that by (auto simp: q_def flight_sweep_def hm_get_retain split: option.splits)
  have sub: "hm_get (fl_by_id q) k = Some v \<Longrightarrow> hm_get (fl_by_id p) k = Some v" for k v
    using ok(1) by (auto simp: q_def flight_sweep_def hm_get_retain split: option.splits if_splits)
  have len: "MAX_PENDING \<le> length (fl_by_id q) \<longleftrightarrow>
      length (filter (\<lambda>(_, v). \<not> closed (wt_reply v)) (fl_by_id p)) = MAX_PENDING"
    using live_full [OF ok(2)] by (simp add: q_def)
  show ?thesis
  proof (cases "MAX_PENDING \<le> length (fl_by_id q)")
    case True
    then have "flight_admit closed w p = Some (None, q)" by (simp add: flight_admit_def q_def)
    then show ?thesis using True len same q ok by (simp add: flight_ok_def)
  next
    case False
    then obtain k where "hm_get (fl_by_id q) (fl_next q + of_nat k) = None"
      using free_id_exists [of "fl_by_id q" "fl_next q"] by (auto simp: MAX_PENDING_def)
    then obtain ident nxt where found: "find_id closed (fl_by_id q) (fl_next q) = Some (ident, nxt)"
      using find_id_returns by (metis prod.exhaust)
    let ?p = "q\<lparr>fl_next := nxt, fl_by_id := hm_insert ident w (fl_by_id q)\<rparr>"
    have admit: "flight_admit closed w p = Some (Some ident, ?p)"
      using False found by (simp add: flight_admit_def Let_def flip: q_def)
    have free: "\<forall>v. hm_get (fl_by_id p) ident = Some v \<longrightarrow> closed (wt_reply v)"
      using find_id_Some [OF found] same [of _ ident] by (metis option.case(2))
    have "flight_ok ?p" using q ok False by (simp add: flight_ok_def length_hm_insert)
    then show ?thesis using admit free same False len by simp
  qed
qed

theorem admission_fresh_witness:
  "\<exists>res p'. flight_admit (\<lambda>r. r = (7 :: nat))
       \<lparr>wt_original = [0, 1], wt_question = \<lparr>q_name = ROOT, q_type = TypeA, q_class = 1\<rparr>, wt_reply = 9\<rparr>
       \<lparr>fl_by_id = [(5, \<lparr>wt_original = [0, 0],
          wt_question = \<lparr>q_name = ROOT, q_type = TypeA, q_class = 1\<rparr>, wt_reply = 8\<rparr>)], fl_next = 5\<rparr>
     = Some (res, p') \<and> flight_ok p' \<and> res \<noteq> None"
  using admission_fresh [of "\<lparr>fl_by_id = [(5, \<lparr>wt_original = [0, 0],
          wt_question = \<lparr>q_name = ROOT, q_type = TypeA, q_class = 1\<rparr>, wt_reply = 8\<rparr>)], fl_next = 5\<rparr>"
      "\<lambda>r. r = (7 :: nat)"
      "\<lparr>wt_original = [0, 1], wt_question = \<lparr>q_name = ROOT, q_type = TypeA, q_class = 1\<rparr>, wt_reply = 9\<rparr>"]
  by (auto simp: flight_ok_def MAX_PENDING_def hm_ok_def)

section \<open>A message under another identifier\<close>

lemma reader_u16_moves:
  "rd_at r = rd_at r' \<Longrightarrow> length (rd_bytes r) = length (rd_bytes r') \<Longrightarrow>
   drop (rd_at r) (rd_bytes r) = drop (rd_at r) (rd_bytes r') \<Longrightarrow>
   reader_u16 r = Some (v, q) \<Longrightarrow> reader_u16 r' = Some (v, r'\<lparr>rd_at := rd_at r + 2\<rparr>)"
  by (simp add: reader_u16_Some)

lemma message_parse_id: "message_parse bs = Inr m \<Longrightarrow> ms_id m = from_be (take 2 bs)"
  by (auto simp: message_parse_def read_header_def reader_new_def reader_u16_Some bind_eq_Some_conv Let_def
      split: option.splits if_splits sum.splits)

lemma message_reidentified:
  assumes parsed: "message_parse bs = Inr m" and len: "length orig = 2"
  shows "message_parse (orig @ drop 2 bs) = Inr (m\<lparr>ms_bytes := orig @ drop 2 bs, ms_id := from_be orig\<rparr>)"
proof -
  let ?o = "orig @ drop 2 bs"
  define nm where "nm = q_name (ms_question m)"
  define n where "n = wire_len nm"
  note q = message_parse_question [OF parsed, folded nm_def, folded n_def]
  have drop: "drop at ?o = drop at bs" if "2 \<le> at" for at
    using that len by (metis add_diff_inverse_nat append_eq_conv_conj drop_drop drop_append drop_all le_add1 append_Nil not_less le_add_diff_inverse2)
  have length: "length ?o = length bs" using q(2) len by simp
  obtain ident flags questions count authority additional where
    header: "read_header (reader_new bs) = Some (ident, flags, questions, count, authority, additional, \<lparr>rd_bytes = bs, rd_at = 12\<rparr>)"
    using parsed
    by (auto simp: message_parse_def read_header_def reader_new_def reader_u16_Some bind_eq_Some_conv split: option.splits)
  have "read_header (reader_new ?o) = Some (from_be orig, flags, questions, count, authority, additional, \<lparr>rd_bytes = ?o, rd_at = 12\<rparr>)"
    using header len length drop
    by (simp add: read_header_def reader_new_def reader_u16_Some bind_eq_Some_conv reader_rest_def del: drop_append length_append)
  moreover have "name_read ?o 12 = Inr (nm, n)"
  proof (rule plain_name_moves [OF name_read_plain [OF q(1) n_def] name_read_ok [OF q(1)]])
    show "drop 12 ?o = take n (drop 12 bs) @ drop n (drop 12 bs)"
      by (simp only: drop [of 12] append_take_drop_id)
  qed
  moreover have "reader_skip n \<lparr>rd_bytes = ?o, rd_at = 12\<rparr> = Some \<lparr>rd_bytes = ?o, rd_at = 12 + n\<rparr>"
      "reader_skip n \<lparr>rd_bytes = bs, rd_at = 12\<rparr> = Some \<lparr>rd_bytes = bs, rd_at = 12 + n\<rparr>"
    using q(2) length by (simp_all add: reader_skip_Some reader_rest_def)
  moreover have "read_type_class \<lparr>rd_bytes = b, rd_at = 12 + n\<rparr> =
      Some (from_be (take 2 (drop (12 + n) bs)), from_be (take 2 (drop (12 + n + 2) bs)), \<lparr>rd_bytes = b, rd_at = 12 + n + 4\<rparr>)"
      if "b \<in> {bs, ?o}" for b
    using q(2) length drop [of "12 + n"] drop [of "12 + n + 2"] that
    by (auto simp: read_type_class_def bind_eq_Some_conv reader_u16_Some simp del: drop_append length_append)
  ultimately show ?thesis
    using parsed header q(1) n_def drop [of 12]
    by (auto simp: message_parse_def Let_def reader_position_def simp del: drop_append length_append split: if_splits)
qed

section \<open>Delivery\<close>

definition waiting :: "'r \<Rightarrow> 'r in_flight \<Rightarrow> nat" where
  "waiting r p = length (filter (\<lambda>(_, w). wt_reply w = r) (fl_by_id p))"

definition asked_as :: "('r \<times> bytes) list \<Rightarrow> 'r \<Rightarrow> bytes \<Rightarrow> question \<Rightarrow> bool" where
  "asked_as asked r original qn \<longleftrightarrow>
     (\<exists>message q. (r, message) \<in> set asked \<and> message_parse message = Inr q
        \<and> original = take ID_BYTES message \<and> qn = ms_question q)"

definition answered :: "('r \<times> bytes) list \<Rightarrow> 'r \<times> bytes \<Rightarrow> bool" where
  "answered asked d \<longleftrightarrow>
     (\<exists>message q m. (fst d, message) \<in> set asked \<and> message_parse message = Inr q
        \<and> message_parse (snd d) = Inr m \<and> is_response m
        \<and> ms_id m = ms_id q \<and> ms_question m = ms_question q)"

definition drive_ok :: "('r \<times> bytes) list \<times> ('r \<times> bytes) list \<times> 'r in_flight \<Rightarrow> bool" where
  "drive_ok s \<longleftrightarrow> (case s of (asked, delivered, p) \<Rightarrow>
     (\<forall>(k, w) \<in> set (fl_by_id p). asked_as asked (wt_reply w) (wt_original w) (wt_question w))
     \<and> list_all (answered asked) delivered
     \<and> (\<forall>r. count_list (map fst delivered) r + waiting r p \<le> count_list (map fst asked) r))"

lemma asked_as_mono: "asked_as asked r orig qn \<Longrightarrow> asked_as (a # asked) r orig qn"
  unfolding asked_as_def by auto

lemma answered_mono: "answered asked d \<Longrightarrow> answered (a # asked) d"
  unfolding answered_def by auto

lemma set_hm_insert: "set (hm_insert k v m) \<subseteq> insert (k, v) (set m)"
  by (induction m) auto

lemma length_filter_hm_insert:
  "length (filter P (hm_insert k v m)) \<le> length (filter P m) + of_bool (P (k, v))"
  by (induction m) auto

lemma length_filter_twice: "length (filter P (filter Q m)) \<le> length (filter P m)"
  by (induction m) auto

lemma length_filter_hm_remove:
  "hm_get m k = Some v \<Longrightarrow> length (filter P (hm_remove k m)) + of_bool (P (k, v)) \<le> length (filter P m)"
proof (induction m)
  case (Cons kv m)
  have "length (filter P (hm_remove k m)) \<le> length (filter P m)"
    by (simp only: AList.delete_eq length_filter_twice)
  with Cons show ?case by (cases kv) (auto split: if_splits)
qed simp

lemma flight_sweep_sub:
  "set (fl_by_id (flight_sweep closed p)) \<subseteq> set (fl_by_id p)"
  "waiting r (flight_sweep closed p) \<le> waiting r p"
  unfolding waiting_def flight_sweep_def hm_retain_def by (auto intro: length_filter_twice simp del: filter_filter)

lemma flight_admit_sub:
  assumes "flight_admit closed w p = Some (res, p')"
  shows "snd ` set (fl_by_id p') \<subseteq> insert w (snd ` set (fl_by_id p))
     \<and> waiting r p' \<le> waiting r p + of_bool (wt_reply w = r)"
proof -
  define q where "q = (if MAX_PENDING \<le> length (fl_by_id p) then flight_sweep closed p else p)"
  have q: "set (fl_by_id q) \<subseteq> set (fl_by_id p)" "waiting r q \<le> waiting r p"
    using flight_sweep_sub(1) [of closed p] flight_sweep_sub(2) [of r closed p] by (auto simp: q_def)
  have ins: "waiting r (q\<lparr>fl_next := n, fl_by_id := hm_insert k w (fl_by_id q)\<rparr>)
      \<le> waiting r q + of_bool (wt_reply w = r)" for k n
    using length_filter_hm_insert [of "\<lambda>(_, w). wt_reply w = r" k w "fl_by_id q"] by (simp add: waiting_def)
  consider "p' = q" | k n where "p' = q\<lparr>fl_next := n, fl_by_id := hm_insert k w (fl_by_id q)\<rparr>"
    using assms unfolding flight_admit_def Let_def q_def [symmetric]
    by (auto split: if_splits option.splits)
  then show ?thesis
  proof cases
    case 1
    then show ?thesis using q by auto
  next
    case (2 k n)
    then have "snd ` set (fl_by_id p') \<subseteq> insert w (snd ` set (fl_by_id p))"
      using set_hm_insert [of k w "fl_by_id q"] q(1) by fastforce
    moreover have "waiting r p' \<le> waiting r p + of_bool (wt_reply w = r)"
      unfolding 2 using ins [of k n] q(2) by linarith
    ultimately show ?thesis by blast
  qed
qed

lemma drive_ok_sub:
  assumes "drive_ok (asked, delivered, p)" and "set (fl_by_id p') \<subseteq> set (fl_by_id p)"
    and "\<And>r. waiting r p' \<le> waiting r p"
  shows "drive_ok (asked, delivered, p')"
proof -
  have "count_list (map fst delivered) r + waiting r p' \<le> count_list (map fst asked) r" for r
    using assms(1) assms(3) [of r] by (auto simp: drive_ok_def intro: order_trans [rotated])
  then show ?thesis using assms(1,2) by (auto simp: drive_ok_def)
qed

lemma drive_ok_delivered:
  assumes "drive_ok (asked, delivered, p)" and "set (fl_by_id p') \<subseteq> set (fl_by_id p)"
    and "answered asked d" and "\<And>r. waiting r p' + of_bool (fst d = r) \<le> waiting r p"
  shows "drive_ok (asked, d # delivered, p')"
proof -
  have "count_list (map fst (d # delivered)) r + waiting r p' \<le> count_list (map fst asked) r" for r
  proof -
    have "count_list (map fst delivered) r + waiting r p \<le> count_list (map fst asked) r"
      using assms(1) by (simp add: drive_ok_def)
    then show ?thesis using assms(4) [of r] by (auto simp: of_bool_def split: if_splits)
  qed
  then show ?thesis using assms(1,2,3) by (auto simp: drive_ok_def)
qed

lemma drive_ok_request:
  assumes "drive_ok (asked, delivered, p)"
    and "make_request message r = Some rq" and "drive_request closed rq p = Some (sent, p')"
  shows "drive_ok ((r, message) # asked, delivered, p')"
proof -
  obtain q where q: "message_parse message = Inr q"
      "rq = \<lparr>rq_message = message, rq_question = ms_question q, rq_reply = r\<rparr>"
    using assms(2) by (auto simp: make_request_def split: sum.splits)
  define w where "w = \<lparr>wt_original = take ID_BYTES message, wt_question = ms_question q, wt_reply = r\<rparr>"
  obtain res where "flight_admit closed w p = Some (res, p')"
    using assms(3) by (auto simp: drive_request_def q(2) w_def split: option.splits prod.splits)
  note admit = flight_admit_sub [OF this]
  have "asked_as ((r, message) # asked) (wt_reply v) (wt_original v) (wt_question v)"
    if entry: "(k, v) \<in> set (fl_by_id p')" for k v
  proof (cases "v = w")
    case True
    then show ?thesis using q(1) by (auto simp: asked_as_def w_def)
  next
    case False
    then obtain k' where "(k', v) \<in> set (fl_by_id p)" using admit entry by force
    then show ?thesis using assms(1) by (auto simp: drive_ok_def intro: asked_as_mono)
  qed
  moreover have "count_list (map fst delivered) r' + waiting r' p' \<le> count_list (map fst ((r, message) # asked)) r'" for r'
  proof -
    have "count_list (map fst delivered) r' + waiting r' p \<le> count_list (map fst asked) r'"
      using assms(1) by (simp add: drive_ok_def)
    moreover have "waiting r' p' \<le> waiting r' p + of_bool (r = r')" using admit [of r'] by (simp add: w_def)
    ultimately show ?thesis by (auto simp: of_bool_def split: if_splits)
  qed
  ultimately show ?thesis
    using assms(1) by (auto simp: drive_ok_def list_all_iff intro: answered_mono)
qed

lemma drive_ok_received:
  assumes "drive_ok (asked, delivered, p)" and "drive_reply reply p = (Some d, p')"
  shows "drive_ok (asked, d # delivered, p')"
proof -
  obtain w where claim: "flight_claim reply p = (Some w, p')"
      and d: "d = (wt_reply w, overwrite reply 0 (wt_original w))"
    using assms(2) by (auto simp: drive_reply_def split: prod.splits option.splits)
  obtain m where m: "message_parse reply = Inr m" "is_response m"
      "hm_get (fl_by_id p) (ms_id m) = Some w" "wt_question w = ms_question m"
      "p' = p\<lparr>fl_by_id := hm_remove (ms_id m) (fl_by_id p)\<rparr>"
    using claim by (auto simp: flight_claim_def split: sum.splits if_splits option.splits)
  have "(ms_id m, w) \<in> set (fl_by_id p)" using m(3) by (rule map_of_SomeD)
  then obtain message q where asked: "(wt_reply w, message) \<in> set asked" "message_parse message = Inr q"
      "wt_original w = take ID_BYTES message" "wt_question w = ms_question q"
    using assms(1) by (fastforce simp: drive_ok_def asked_as_def)
  have orig: "length (wt_original w) = 2"
    using message_parse_question(2) [OF asked(2)] by (simp add: asked(3) ID_BYTES_def)
  have "message_parse (snd d) = Inr (m\<lparr>ms_bytes := snd d, ms_id := from_be (wt_original w)\<rparr>)"
    using message_reidentified [OF m(1) orig] by (simp add: d overwrite_def orig numeral_2_eq_2)
  moreover have "from_be (wt_original w) = ms_id q" using message_parse_id [OF asked(2)] by (simp add: asked(3) ID_BYTES_def)
  ultimately have "answered asked d"
    using asked m(2,4) unfolding answered_def by (force simp: d is_response_def)
  moreover have "waiting r p' + of_bool (fst d = r) \<le> waiting r p" for r
    using length_filter_hm_remove [OF m(3), of "\<lambda>(_, w). wt_reply w = r"] by (simp add: waiting_def m(5) d)
  moreover have "set (fl_by_id p') \<subseteq> set (fl_by_id p)" by (auto simp: m(5) AList.delete_eq)
  ultimately show ?thesis
    using assms(1) by (simp add: drive_ok_delivered)
qed

lemma drive_ok_step: "drive_step s s' \<Longrightarrow> drive_ok s \<Longrightarrow> drive_ok s'"
proof (induction rule: drive_step.induct)
  case (unclaimed reply p p' asked delivered)
  then have "p' = p"
    by (auto simp: drive_reply_def flight_claim_def split: prod.splits sum.splits option.splits if_splits)
  then show ?case using unclaimed by simp
qed (simp_all add: drive_ok_request drive_ok_received drive_ok_sub flight_sweep_sub)

text \<open>
  C4. A caller gets at most one reply per query, and only a reply to a query of its own: in every run
  of the driver each delivered message parses as a response with the identifier of a query this caller
  asked and with the same question, whatever arrived from the network.
\<close>

theorem delivery_sound:
  assumes "drive_step\<^sup>*\<^sup>* ([], [], flight_new random) (asked, delivered, p)"
  shows "count_list (map fst delivered) r \<le> count_list (map fst asked) r
     \<and> (\<forall>reply. (r, reply) \<in> set delivered \<longrightarrow>
         (\<exists>message q m. (r, message) \<in> set asked \<and> message_parse message = Inr q
           \<and> message_parse reply = Inr m \<and> is_response m
           \<and> ms_id m = ms_id q \<and> ms_question m = ms_question q))"
proof -
  have "drive_ok (asked, delivered, p)"
    using assms
  proof (induction rule: rtranclp_induct)
    case base
    then show ?case by (simp add: drive_ok_def flight_new_def waiting_def)
  next
    case (step s s')
    then show ?case by (blast intro: drive_ok_step)
  qed
  then have "list_all (answered asked) delivered" "count_list (map fst delivered) r \<le> count_list (map fst asked) r"
    by (auto simp: drive_ok_def intro: add_leD1)
  moreover have "answered asked (r, reply)" if "(r, reply) \<in> set delivered" for reply
    using calculation(1) that by (auto simp: list_all_iff)
  ultimately show ?thesis by (simp add: answered_def)
qed

lemma sample_drive:
  "\<exists>d p. drive_step\<^sup>*\<^sup>* ([], [], flight_new 9) ([(5 :: nat, sample_query)], [(5, d)], p)"
proof -
  let ?rq = "\<lparr>rq_message = sample_query, rq_question = ms_question sample_q, rq_reply = 5 :: nat\<rparr>"
  let ?w = "\<lparr>wt_original = take 2 sample_query, wt_question = ms_question sample_q, wt_reply = 5 :: nat\<rparr>"
  have "find_id (\<lambda>_ :: nat. False) [] 9 = Some (9, 10)" by (subst find_id.simps) simp
  then have "\<exists>sent. drive_request (\<lambda>_. False) ?rq (flight_new 9) = Some (sent, \<lparr>fl_by_id = [(9, ?w)], fl_next = 10\<rparr>)"
    by (simp add: drive_request_def flight_admit_def flight_new_def MAX_PENDING_def ID_BYTES_def Let_def)
  moreover have "make_request sample_query 5 = Some ?rq" by (simp add: make_request_def sample_q)
  ultimately have ask: "drive_step ([], [], flight_new 9) ([(5, sample_query)], [], \<lparr>fl_by_id = [(9, ?w)], fl_next = 10\<rparr>)"
    by (auto intro: drive_step.request)
  have "message_parse sample_reply = Inr \<lparr>ms_bytes = sample_reply, ms_id = 9, ms_flags = 0x8180, ms_answer_count = 1,
      ms_authority_count = 0, ms_additional_count = 0, ms_question = ms_question sample_q,
      ms_question_bytes = ms_question_bytes sample_q, ms_answers_at = 12 + length (ms_question_bytes sample_q)\<rparr>"
    by (rule message_parse_wire [OF sample_q]) (simp_all add: OPCODE_MASK_def sample_reply_def)
  then have "\<exists>d p. drive_reply sample_reply \<lparr>fl_by_id = [(9, ?w)], fl_next = 10\<rparr> = (Some (5, d), p)"
    by (simp add: drive_reply_def flight_claim_def is_response_def FLAG_RESPONSE_def)
  then obtain d p where "drive_reply sample_reply \<lparr>fl_by_id = [(9, ?w)], fl_next = 10\<rparr> = (Some (5, d), p)" by blast
  then have "drive_step ([(5, sample_query)], [], \<lparr>fl_by_id = [(9, ?w)], fl_next = 10\<rparr>) ([(5, sample_query)], [(5, d)], p)"
    by (rule drive_step.received)
  with ask show ?thesis by (blast intro: converse_rtranclp_into_rtranclp)
qed

theorem delivery_sound_witness:
  "\<exists>d p m. drive_step\<^sup>*\<^sup>* ([], [], flight_new 9) ([(5 :: nat, sample_query)], [(5, d)], p)
     \<and> message_parse d = Inr m \<and> is_response m \<and> ms_id m = 7"
proof -
  obtain d p where "drive_step\<^sup>*\<^sup>* ([], [], flight_new 9) ([(5 :: nat, sample_query)], [(5, d)], p)"
    using sample_drive by blast
  then show ?thesis
    using delivery_sound [of 9 "[(5, sample_query)]" "[(5, d)]" p 5] sample_query_parse by auto
qed

end
