(* ===== verification/Proxy_Target.thy ===== *)
theory Proxy_Target
  imports Dns_Name Net
begin

text \<open>
  What the proxy protocols share: domain names and targets (\<^verbatim>\<open>src/egress/mod.rs\<close>), the errors of a
  proxy peer and the address form of RFC 1928 (\<^verbatim>\<open>src/egress/socks5.rs\<close>), which Shadowsocks uses
  as well, and the values of the sans-I/O interfaces (\<^verbatim>\<open>src/sansio.rs\<close>).

  A Rust string is the list of its UTF-8 bytes. A socket address keeps the flow information and the
  scope of its IPv6 form, which no wire form carries.
\<close>

section \<open>Strings\<close>

definition utf8_tail :: "u8 \<Rightarrow> bool" where
  "utf8_tail b \<longleftrightarrow> 0x80 \<le> b \<and> b \<le> 0xBF"

text \<open>\<open>std::str::from_utf8\<close>: the well-formed byte sequences of the Unicode standard.\<close>

fun utf8_valid :: "bytes \<Rightarrow> bool" where
  "utf8_valid [] \<longleftrightarrow> True"
| "utf8_valid (b # bs) \<longleftrightarrow>
     (if b < 0x80 then utf8_valid bs
      else case bs of
        [] \<Rightarrow> False
      | c1 # bs \<Rightarrow>
          (if 0xC2 \<le> b \<and> b \<le> 0xDF then utf8_tail c1 \<and> utf8_valid bs
           else case bs of
             [] \<Rightarrow> False
           | c2 # bs \<Rightarrow>
               (if 0xE0 \<le> b \<and> b \<le> 0xEF
                then utf8_tail c1 \<and> (b = 0xE0 \<longrightarrow> 0xA0 \<le> c1) \<and> (b = 0xED \<longrightarrow> c1 \<le> 0x9F)
                     \<and> utf8_tail c2 \<and> utf8_valid bs
                else case bs of
                  [] \<Rightarrow> False
                | c3 # bs \<Rightarrow>
                    0xF0 \<le> b \<and> b \<le> 0xF4 \<and> utf8_tail c1 \<and> (b = 0xF0 \<longrightarrow> 0x90 \<le> c1)
                    \<and> (b = 0xF4 \<longrightarrow> c1 \<le> 0x8F) \<and> utf8_tail c2 \<and> utf8_tail c3 \<and> utf8_valid bs)))"

section \<open>Addresses and targets\<close>

datatype socket_addr = SocketV4 u32 u16 | SocketV6 u128 u16 u32 u32

text \<open>\<open>SocketAddr::new\<close>, \<open>ip\<close> and \<open>port\<close>.\<close>

fun socket_new :: "ip_addr \<Rightarrow> u16 \<Rightarrow> socket_addr" where
  "socket_new (V4 a) p = SocketV4 a p"
| "socket_new (V6 a) p = SocketV6 a p 0 0"

fun socket_ip :: "socket_addr \<Rightarrow> ip_addr" where
  "socket_ip (SocketV4 a _) = V4 a"
| "socket_ip (SocketV6 a _ _ _) = V6 a"

fun socket_port :: "socket_addr \<Rightarrow> u16" where
  "socket_port (SocketV4 _ p) = p"
| "socket_port (SocketV6 _ p _ _) = p"

datatype domain_name = DomainName (as_str: bytes)

datatype domain_name_error = EmptyDomain | DomainTooLong nat | Interior

definition domain_new :: "bytes \<Rightarrow> domain_name_error + domain_name" where
  "domain_new name =
     (if length name = 0 then Inl EmptyDomain
      else if 255 < length name then Inl (DomainTooLong (length name))
      else if 0 \<in> set name then Inl Interior
      else Inr (DomainName (map ascii_lower name)))"

definition domain_wire_len :: "domain_name \<Rightarrow> u8" where
  "domain_wire_len d = of_nat (length (as_str d))"

datatype target = Ip socket_addr | Domain domain_name u16

fun target_port :: "target \<Rightarrow> u16" where
  "target_port (Ip a) = socket_port a"
| "target_port (Domain _ p) = p"

section \<open>Errors\<close>

datatype reply =
  Succeeded | GeneralFailure | NotAllowed | NetworkUnreachable | HostUnreachable | ConnectionRefused
| TtlExpired | CommandNotSupported | AddressTypeNotSupported | OtherReply u8

definition reply_from_byte :: "u8 \<Rightarrow> reply" where
  "reply_from_byte b =
     (if b = 0 then Succeeded else if b = 1 then GeneralFailure else if b = 2 then NotAllowed
      else if b = 3 then NetworkUnreachable else if b = 4 then HostUnreachable
      else if b = 5 then ConnectionRefused else if b = 6 then TtlExpired
      else if b = 7 then CommandNotSupported else if b = 8 then AddressTypeNotSupported
      else OtherReply b)"

datatype proxy_error =
  WrongVersion u8 | Denied bytes | NoAcceptableMethod | UnexpectedMethod u8 | AuthFailed | Refused reply
| BadAddress | FragmentedDatagram | Crypto | BadHeader | Stale u64 | SaltMismatch | Unframed

section \<open>Decoding\<close>

datatype 'a decoded = Incomplete | Complete 'a nat

section \<open>The address form of RFC 1928\<close>

definition ATYP_IPV4 :: u8 where "ATYP_IPV4 = 1"
definition ATYP_DOMAIN :: u8 where "ATYP_DOMAIN = 3"
definition ATYP_IPV6 :: u8 where "ATYP_IPV6 = 4"

definition encode_address :: "target \<Rightarrow> bytes \<Rightarrow> bytes" where
  "encode_address target out =
     writer_u16 (target_port target)
       (case target of
          Ip (SocketV4 a _) \<Rightarrow> writer_bytes (octets4 a) (writer_u8 ATYP_IPV4 out)
        | Ip (SocketV6 a _ _ _) \<Rightarrow> writer_bytes (octets6 a) (writer_u8 ATYP_IPV6 out)
        | Domain host _ \<Rightarrow> writer_vector_u8 (as_str host) (writer_u8 ATYP_DOMAIN out))"

text \<open>The target named by an address body, once its family and port are known.\<close>

definition domain_target :: "bytes \<Rightarrow> u16 \<Rightarrow> proxy_error + target" where
  "domain_target body p =
     (if utf8_valid body
      then case domain_new body of Inl _ \<Rightarrow> Inl BadAddress | Inr host \<Rightarrow> Inr (Domain host p)
      else Inl BadAddress)"

definition address_target :: "u8 \<Rightarrow> u8 \<Rightarrow> u8 \<Rightarrow> bytes \<Rightarrow> u16 \<Rightarrow> proxy_error + target" where
  "address_target ipv4 ipv6 atyp body p =
     (if atyp = ipv4
      then case reader_ipv4 (reader_new body) of
             None \<Rightarrow> Inl BadAddress | Some (a, _) \<Rightarrow> Inr (Ip (socket_new (V4 a) p))
      else if atyp = ipv6
      then case reader_ipv6 (reader_new body) of
             None \<Rightarrow> Inl BadAddress | Some (a, _) \<Rightarrow> Inr (Ip (socket_new (V6 a) p))
      else domain_target (reader_rest (reader_new body)) p)"

text \<open>The body of an address, whose width its type decides.\<close>

definition address_body :: "u8 \<Rightarrow> u8 \<Rightarrow> u8 \<Rightarrow> reader \<Rightarrow> (bytes \<times> reader) option" where
  "address_body ipv4 ipv6 atyp r =
     (if atyp = ipv4 then reader_take 4 r else if atyp = ipv6 then reader_take 16 r else reader_vector_u8 r)"

definition decode_address :: "bytes \<Rightarrow> proxy_error + target decoded" where
  "decode_address bs =
     (case reader_u8 (reader_new bs) of
        None \<Rightarrow> Inr Incomplete
      | Some (atyp, reader) \<Rightarrow>
          if atyp \<noteq> ATYP_IPV4 \<and> atyp \<noteq> ATYP_IPV6 \<and> atyp \<noteq> ATYP_DOMAIN then Inl BadAddress
          else
            (case address_body ATYP_IPV4 ATYP_IPV6 atyp reader of
               None \<Rightarrow> Inr Incomplete
             | Some (body, reader) \<Rightarrow>
                 (case reader_u16 reader of
                    None \<Rightarrow> Inr Incomplete
                  | Some (p, reader) \<Rightarrow>
                      (case address_target ATYP_IPV4 ATYP_IPV6 atyp body p of
                         Inl e \<Rightarrow> Inl e
                       | Inr t \<Rightarrow> Inr (Complete t (reader_position reader))))))"

section \<open>Readers over more input\<close>

definition with_tail :: "bytes \<Rightarrow> reader \<Rightarrow> reader" where
  "with_tail post r = r\<lparr>rd_bytes := rd_bytes r @ post\<rparr>"

lemma extend_new: "reader_new (bs @ post) = with_tail post (reader_new bs)"
  by (simp add: with_tail_def reader_new_def)

lemma extend_position [simp]: "reader_position (with_tail post r) = reader_position r"
  by (simp add: with_tail_def reader_position_def)

lemma extend_rest: "rd_at r \<le> length (rd_bytes r) \<Longrightarrow> reader_rest (with_tail post r) = reader_rest r @ post"
  by (simp add: with_tail_def reader_rest_def)

lemma reader_take_extend:
  "reader_take n r = Some (x, r') \<Longrightarrow> rd_at r \<le> length (rd_bytes r) \<Longrightarrow>
   reader_take n (with_tail post r) = Some (x, with_tail post r')"
  by (auto simp: reader_take_Some reader_rest_def with_tail_def)

lemma reader_u8_extend: "reader_u8 r = Some (x, r') \<Longrightarrow> reader_u8 (with_tail post r) = Some (x, with_tail post r')"
  by (auto simp: reader_u8_Some with_tail_def nth_append)

lemma reader_u16_extend: "reader_u16 r = Some (x, r') \<Longrightarrow> reader_u16 (with_tail post r) = Some (x, with_tail post r')"
  by (auto simp: reader_u16_Some with_tail_def)

lemma reader_bounds_u8:
  "reader_u8 r = Some (x, r') \<Longrightarrow> rd_at r' \<le> length (rd_bytes r') \<and> rd_bytes r' = rd_bytes r"
  by (auto simp: reader_u8_Some)

lemma reader_vector_u8_extend:
  "reader_vector_u8 r = Some (x, r') \<Longrightarrow> reader_vector_u8 (with_tail post r) = Some (x, with_tail post r')"
  by (auto simp: reader_vector_u8_def reader_u8_extend split: option.splits
      intro!: reader_take_extend dest: reader_bounds_u8)

lemmas reader_extend = reader_take_extend reader_u8_extend reader_u16_extend reader_vector_u8_extend

lemma reader_bounds:
  "reader_u16 r = Some (y, r') \<Longrightarrow> rd_at r' \<le> length (rd_bytes r') \<and> rd_bytes r' = rd_bytes r"
  "reader_vector_u8 r = Some (z, r') \<Longrightarrow> rd_at r' \<le> length (rd_bytes r') \<and> rd_bytes r' = rd_bytes r"
  "reader_take n r = Some (z, r') \<Longrightarrow> rd_at r \<le> length (rd_bytes r) \<Longrightarrow>
     rd_at r' \<le> length (rd_bytes r') \<and> rd_bytes r' = rd_bytes r"
  by (auto simp: reader_u8_Some reader_u16_Some reader_vector_u8_def reader_take_Some reader_rest_def split: option.splits)

section \<open>Decoders of a prefix\<close>

text \<open>
  The contract of the sans-I/O decoders: an answer, once given, does not depend on the bytes that
  follow, and a decoder never claims post than it was given.
\<close>

locale prefix_decoder =
  fixes decode :: "bytes \<Rightarrow> 'e + 'a decoded"
  assumes complete_stable: "decode bs = Inr (Complete v n) \<Longrightarrow> decode (bs @ post) = Inr (Complete v n)"
    and complete_bound: "decode bs = Inr (Complete v n) \<Longrightarrow> n \<le> length bs"
    and error_stable: "decode bs = Inl e \<Longrightarrow> decode (bs @ post) = Inl e"
begin

lemma prefix_answer:
  "decode (bs @ post) = Inr (Complete v n) \<Longrightarrow> decode bs = Inr Incomplete \<or> decode bs = Inr (Complete v n)"
  using complete_stable [of bs _ _ post] error_stable [of bs _ post]
  by (cases "decode bs") (auto split: decoded.splits, metis decoded.exhaust)

lemma incomplete_prefix: "decode (bs @ post) = Inr Incomplete \<Longrightarrow> decode bs = Inr Incomplete"
  using complete_stable [of bs _ _ post] error_stable [of bs _ post]
  by (cases "decode bs") (auto, metis decoded.distinct(1) decoded.exhaust sum.inject(2))

end

lemma address_body_extend:
  "address_body ipv4 ipv6 atyp r = Some (x, r') \<Longrightarrow> rd_at r \<le> length (rd_bytes r) \<Longrightarrow>
   address_body ipv4 ipv6 atyp (with_tail post r) = Some (x, with_tail post r')"
  by (auto simp: address_body_def reader_extend split: if_splits)

lemma address_body_bounds:
  "address_body ipv4 ipv6 atyp r = Some (x, r') \<Longrightarrow> rd_at r \<le> length (rd_bytes r) \<Longrightarrow>
   rd_at r' \<le> length (rd_bytes r') \<and> rd_bytes r' = rd_bytes r"
  by (auto simp: address_body_def split: if_splits dest: reader_bounds)

interpretation addr: prefix_decoder decode_address
proof
  have step: "decode_address (bs @ post) = decode_address bs \<and> (\<forall>t n. decode_address bs = Inr (Complete t n) \<longrightarrow> n \<le> length bs)"
    if decided: "decode_address bs \<noteq> Inr Incomplete" for bs post
  proof -
    obtain atyp r1 where r1: "reader_u8 (reader_new bs) = Some (atyp, r1)"
      using decided by (auto simp: decode_address_def split: option.splits)
    note r1' = reader_u8_extend [OF r1, of post, folded extend_new] reader_bounds_u8 [OF r1]
    show ?thesis
    proof (cases "atyp = ATYP_IPV4 \<or> atyp = ATYP_IPV6 \<or> atyp = ATYP_DOMAIN")
      case False
      then show ?thesis using r1 r1' by (simp add: decode_address_def)
    next
      case True
      then obtain body r2 p r3 where r: "address_body ATYP_IPV4 ATYP_IPV6 atyp r1 = Some (body, r2)" "reader_u16 r2 = Some (p, r3)"
        using decided r1 by (auto simp: decode_address_def split: option.splits)
      have r2: "rd_at r2 \<le> length (rd_bytes r2)" "rd_bytes r2 = bs"
        using address_body_bounds [OF r(1)] r1'(2) by (auto simp: reader_new_def)
      have "rd_at r3 \<le> length bs" using reader_bounds(1) [OF r(2)] r2 by auto
      moreover have "rd_at (with_tail post r3) = rd_at r3" by (simp add: with_tail_def)
      ultimately show ?thesis
        using True r1 r1' r address_body_extend [OF r(1), of post] reader_u16_extend [OF r(2), of post]
        by (auto simp: decode_address_def reader_position_def split: sum.splits)
    qed
  qed
  fix bs post :: bytes and t n e
  show "decode_address bs = Inr (Complete t n) \<Longrightarrow> decode_address (bs @ post) = Inr (Complete t n)"
    "decode_address bs = Inr (Complete t n) \<Longrightarrow> n \<le> length bs"
    "decode_address bs = Inl e \<Longrightarrow> decode_address (bs @ post) = Inl e"
    using step [of bs post] by auto
qed

section \<open>Well-formed targets\<close>

definition domain_ok :: "domain_name \<Rightarrow> bool" where
  "domain_ok d \<longleftrightarrow> as_str d \<noteq> [] \<and> length (as_str d) \<le> 255 \<and> 0 \<notin> set (as_str d)
     \<and> map ascii_lower (as_str d) = as_str d \<and> utf8_valid (as_str d)"

fun target_ok :: "target \<Rightarrow> bool" where
  "target_ok (Ip (SocketV4 _ _)) = True"
| "target_ok (Ip (SocketV6 _ _ flow scope)) = (flow = 0 \<and> scope = 0)"
| "target_ok (Domain d _) = domain_ok d"

lemma ascii_lower_range [simp]:
  "ascii_lower b < 0x80 \<longleftrightarrow> b < 0x80"
proof -
  have "unat (b + 32) = unat b + 32" if "b \<le> 90" "65 \<le> b"
    using that by (simp add: unat_word_ariths word_le_nat_alt)
  then show ?thesis by (auto simp: ascii_lower_def word_le_nat_alt word_less_nat_alt)
qed

lemma ascii_lower_high: "\<not> b < 0x80 \<Longrightarrow> ascii_lower b = b"
  by (auto simp: ascii_lower_def word_le_nat_alt word_less_nat_alt)

lemma utf8_tail_lower: "utf8_tail (ascii_lower b) \<longleftrightarrow> utf8_tail b"
  using ascii_lower_high [of b] ascii_lower_range [of b] by (cases "b < 0x80") (auto simp: utf8_tail_def simp flip: not_less)

lemma utf8_tail_lower_id: "utf8_tail b \<Longrightarrow> ascii_lower b = b"
  by (rule ascii_lower_high) (auto simp: utf8_tail_def)

lemma utf8_valid_lower: "utf8_valid bs \<Longrightarrow> utf8_valid (map ascii_lower bs)"
proof (induction bs rule: utf8_valid.induct)
  case (2 b bs)
  show ?case
  proof (cases "b < 0x80")
    case True
    then show ?thesis using 2 by simp
  next
    case False
    then obtain c1 cs where bs: "bs = c1 # cs" using 2 by (cases bs) auto
    have b: "ascii_lower b = b" by (rule ascii_lower_high [OF False])
    show ?thesis
    proof (cases "0xC2 \<le> b \<and> b \<le> 0xDF")
      case True
      then show ?thesis using 2 False by (simp add: bs b utf8_tail_lower)
    next
      case two: False
      then obtain c2 ds where cs: "cs = c2 # ds" using 2 False bs by (cases cs) auto
      show ?thesis
      proof (cases "0xE0 \<le> b \<and> b \<le> 0xEF")
        case True
        then show ?thesis using 2 False two by (auto simp: bs cs b utf8_tail_lower utf8_tail_lower_id)
      next
        case three: False
        then obtain c3 es where "ds = c3 # es" using 2 False two bs cs by (cases ds) auto
        then show ?thesis
          using 2 False two three by (auto simp: bs cs b utf8_tail_lower utf8_tail_lower_id)
      qed
    qed
  qed
qed simp

lemma ascii_lower_zero [simp]: "ascii_lower b = 0 \<longleftrightarrow> b = 0"
proof -
  have "unat (b + 32) = unat b + 32" if "b \<le> 90" "65 \<le> b"
    using that by (simp add: unat_word_ariths word_le_nat_alt)
  then have "b + 32 \<noteq> 0" if "b \<le> 90" "65 \<le> b" using that by (metis add_is_0 unat_0 zero_neq_numeral)
  then show ?thesis by (auto simp: ascii_lower_def)
qed

lemma domain_new_ok: "domain_new name = Inr d \<Longrightarrow> utf8_valid name \<Longrightarrow> domain_ok d"
  by (auto simp: domain_new_def domain_ok_def utf8_valid_lower o_def image_iff split: if_splits)

lemma domain_new_as_str: "domain_ok d \<Longrightarrow> domain_new (as_str d) = Inr d"
  by (cases d) (simp add: domain_new_def domain_ok_def)

lemma address_target_ok: "address_target ipv4 ipv6 atyp body p = Inr t \<Longrightarrow> target_ok t"
  by (auto simp: address_target_def domain_target_def domain_new_ok split: if_splits option.splits sum.splits)

lemma decode_address_ok: "decode_address bs = Inr (Complete t n) \<Longrightarrow> target_ok t"
  by (auto simp: decode_address_def address_target_ok split: option.splits if_splits sum.splits)

section \<open>Round trip\<close>

fun address_wire :: "target \<Rightarrow> bytes" where
  "address_wire (Ip (SocketV4 a p)) = ATYP_IPV4 # octets4 a @ to_be_16 p"
| "address_wire (Ip (SocketV6 a p _ _)) = ATYP_IPV6 # octets6 a @ to_be_16 p"
| "address_wire (Domain d p) = ATYP_DOMAIN # of_nat (length (as_str d)) # as_str d @ to_be_16 p"

lemma encode_address_wire: "encode_address t out = out @ address_wire t"
  by (cases t rule: address_wire.cases)
    (simp_all add: encode_address_def writer_u16_def writer_bytes_def writer_u8_def writer_vector_u8_def)

lemma reader_take_at:
  "reader_rest r = x @ post \<Longrightarrow> length x = n \<Longrightarrow> reader_take n r = Some (x, r\<lparr>rd_at := rd_at r + n\<rparr>)"
  by (simp add: reader_take_Some)

lemma reader_rest_at:
  "reader_rest r = x @ post \<Longrightarrow> reader_rest (r\<lparr>rd_at := rd_at r + length x\<rparr>) = post"
  by (simp add: reader_rest_def add.commute flip: drop_drop)

lemma reader_u8_at: "reader_rest r = b # post \<Longrightarrow> reader_u8 r = Some (b, r\<lparr>rd_at := rd_at r + 1\<rparr>)"
  by (simp add: reader_u8_def reader_array_eq_take reader_take_at [where x = "[b]"])

lemma reader_u16_at: "reader_rest r = to_be_16 w @ post \<Longrightarrow> reader_u16 r = Some (w, r\<lparr>rd_at := rd_at r + 2\<rparr>)"
  by (simp add: reader_u16_def reader_array_eq_take reader_take_at)

lemma reader_vector_u8_at:
  assumes "reader_rest r = of_nat (length x) # x @ post" and "length x < 256"
  shows "reader_vector_u8 r = Some (x, r\<lparr>rd_at := rd_at r + 1 + length x\<rparr>)"
proof -
  have "unat (of_nat (length x) :: u8) = length x" using assms(2) by (simp add: unat_of_nat)
  moreover have "reader_rest (r\<lparr>rd_at := rd_at r + 1\<rparr>) = x @ post"
    using reader_rest_at [of r "[of_nat (length x)]" "x @ post"] assms(1) by simp
  ultimately show ?thesis
    using reader_u8_at [OF assms(1)] reader_take_at [of "r\<lparr>rd_at := rd_at r + 1\<rparr>" x post]
    by (simp add: reader_vector_u8_def)
qed

lemma unat_u128_lt: "unat (w :: u128) < 340282366920938463463374607431768211456"
  using unsigned_less [of w] by simp

lemma from_be_octets: "from_be (octets4 a) = a" "from_be (octets6 b) = b"
  using unat_u128_lt [of b] by (simp_all add: from_be_def octets4_def octets6_def of_be_be_bytes)

lemma length_octets [simp]: "length (octets4 a) = 4" "length (octets6 b) = 16"
  by (simp_all add: octets4_def octets6_def)

lemma address_target_ip:
  "address_target ipv4 ipv6 ipv4 (octets4 a) p = Inr (Ip (SocketV4 a p))"
  "ipv6 \<noteq> ipv4 \<Longrightarrow> address_target ipv4 ipv6 ipv6 (octets6 b) p = Inr (Ip (SocketV6 b p 0 0))"
  by (simp_all add: address_target_def reader_ipv4_def reader_ipv6_def reader_array_def reader_new_def reader_rest_def from_be_octets)

lemma address_target_domain:
  "atyp \<noteq> ipv4 \<Longrightarrow> atyp \<noteq> ipv6 \<Longrightarrow> domain_ok d \<Longrightarrow> address_target ipv4 ipv6 atyp (as_str d) p = Inr (Domain d p)"
  by (simp add: address_target_def domain_target_def domain_new_as_str reader_new_def reader_rest_def)
    (simp add: domain_ok_def)

lemma decode_address_at:
  assumes "bs = atyp # pre @ to_be_16 p @ rest" and atyp: "atyp = ATYP_IPV4 \<or> atyp = ATYP_IPV6 \<or> atyp = ATYP_DOMAIN"
    and body: "\<And>r. reader_rest r = pre @ to_be_16 p @ rest \<Longrightarrow>
      address_body ATYP_IPV4 ATYP_IPV6 atyp r = Some (body, r\<lparr>rd_at := rd_at r + length pre\<rparr>)"
    and tgt: "address_target ATYP_IPV4 ATYP_IPV6 atyp body p = Inr t"
  shows "decode_address bs = Inr (Complete t (length pre + 3))"
proof -
  let ?r = "reader_new bs"
  have r: "reader_rest ?r = atyp # pre @ to_be_16 p @ rest" by (simp add: reader_rest_def reader_new_def assms(1))
  have r1: "reader_rest (?r\<lparr>rd_at := 1\<rparr>) = pre @ to_be_16 p @ rest"
    using reader_rest_at [of ?r "[atyp]" "pre @ to_be_16 p @ rest"] r by (simp add: reader_new_def)
  have r2: "reader_rest (?r\<lparr>rd_at := 1 + length pre\<rparr>) = to_be_16 p @ rest" using reader_rest_at [OF r1] by simp
  have "reader_u8 ?r = Some (atyp, ?r\<lparr>rd_at := 1\<rparr>)" using reader_u8_at [OF r] by (simp add: reader_new_def)
  moreover have "address_body ATYP_IPV4 ATYP_IPV6 atyp (?r\<lparr>rd_at := 1\<rparr>) = Some (body, ?r\<lparr>rd_at := 1 + length pre\<rparr>)"
    using body [OF r1] by simp
  moreover have "reader_u16 (?r\<lparr>rd_at := 1 + length pre\<rparr>) = Some (p, ?r\<lparr>rd_at := 1 + length pre + 2\<rparr>)"
    using reader_u16_at [OF r2] by simp
  ultimately show ?thesis using atyp tgt by (auto simp: decode_address_def reader_position_def)
qed

lemma address_kinds [simp]: "ATYP_IPV4 \<noteq> ATYP_IPV6" "ATYP_IPV4 \<noteq> ATYP_DOMAIN" "ATYP_IPV6 \<noteq> ATYP_DOMAIN"
    "ATYP_IPV6 \<noteq> ATYP_IPV4" "ATYP_DOMAIN \<noteq> ATYP_IPV4" "ATYP_DOMAIN \<noteq> ATYP_IPV6"
  by (simp_all add: ATYP_IPV4_def ATYP_IPV6_def ATYP_DOMAIN_def)

lemma decode_encode_address:
  assumes "target_ok t"
  shows "decode_address (address_wire t @ rest) = Inr (Complete t (length (address_wire t)))"
proof (cases t rule: address_wire.cases)
  case (1 a p)
  then show ?thesis
    using decode_address_at [of _ ATYP_IPV4 "octets4 a" p rest "octets4 a" t]
    by (simp add: address_body_def reader_take_at address_target_ip)
next
  case (2 a p flow scope)
  then show ?thesis
    using decode_address_at [of _ ATYP_IPV6 "octets6 a" p rest "octets6 a" t] assms
    by (simp add: address_body_def reader_take_at address_target_ip)
next
  case (3 d p)
  then show ?thesis
    using decode_address_at [of _ ATYP_DOMAIN "of_nat (length (as_str d)) # as_str d" p rest "as_str d" t] assms
    by (simp add: address_body_def reader_vector_u8_at address_target_domain domain_ok_def)
qed

end
