(* ===== verification/Sansio.thy ===== *)
theory Sansio
  imports Proxy_Target
begin

text \<open>
  The sans-I/O interfaces and their adapters, \<^verbatim>\<open>src/sansio.rs\<close>: the negotiation driver, and the
  stream that reads and writes through a codec. \<open>Prefixed\<close> (\<^verbatim>\<open>src/egress/mod.rs\<close>) replays what a
  negotiation read too far.

  The stream underneath is code of the I/O library: polling it for reading and for writing are
  arguments of the definitions, on a state of a type of its own. A codec and a negotiation are
  traits: their methods are arguments as well, and the contracts their users rely on are locales.
  What a poll puts into the caller's buffer is a list of bytes; the buffer's capacity is a number.
\<close>

section \<open>Results\<close>

text \<open>
  The kinds of I/O errors the code itself makes, and the others by number; an error of the WireGuard
  library is a number too.
\<close>

datatype io_error = UnexpectedEof | WriteZero | InvalidData | OtherIo nat

datatype egress_error =
  MalformedNetworkPacket | EgressPoolExhausted | WireGuard nat | Masque | Quic | DatagramsUnsupported
| DatagramTooLarge nat | Proxy proxy_error | Io io_error

datatype 'a poll = Ready 'a | Pending

datatype decode_result = Framed bytes | Transparent bytes

definition decode_consumed :: "decode_result \<Rightarrow> bytes \<Rightarrow> nat" where
  "decode_consumed d input = (case d of Framed rest \<Rightarrow> length input - length rest | Transparent rest \<Rightarrow> length input - length rest)"

datatype writes = WritesFramed | WritesVerbatim

type_synonym 'c decoder = "'c \<Rightarrow> bytes \<Rightarrow> bytes \<Rightarrow> (proxy_error + decode_result) \<times> bytes \<times> 'c"

type_synonym 'c encoder = "'c \<Rightarrow> bytes \<Rightarrow> bytes \<Rightarrow> (proxy_error + unit) \<times> bytes \<times> 'c"

text \<open>\<open>Codec::encode\<close> unless a codec overrides it.\<close>

definition encode_default :: "'c encoder" where
  "encode_default c payload out = (Inl Unframed, out, c)"

definition fatal :: "proxy_error \<Rightarrow> io_error" where
  "fatal e = InvalidData"

section \<open>Negotiation\<close>

definition NEGOTIATION_CHUNK :: nat where "NEGOTIATION_CHUNK = 512"

definition MAX_NEGOTIATION :: nat where "MAX_NEGOTIATION = 16 * 1024"

type_synonym ('m, 'o) advancer = "'m \<Rightarrow> bytes \<Rightarrow> bytes \<Rightarrow> (proxy_error + 'o decoded) \<times> bytes \<times> 'm"

function negotiate_loop ::
    "('m, 'o) advancer \<Rightarrow> (nat \<Rightarrow> 's \<Rightarrow> (io_error + bytes) \<times> 's) \<Rightarrow> (bytes \<Rightarrow> 's \<Rightarrow> (io_error + unit) \<times> 's) \<Rightarrow>
     'm \<Rightarrow> bytes \<Rightarrow> 's \<Rightarrow> (egress_error + ('o \<times> bytes)) \<times> 'm \<times> 's" where
  "negotiate_loop advance read_some write_all m received s =
     (case advance m received [] of
        (Inl e, _, m) \<Rightarrow> (Inl (Proxy e), m, s)
      | (Inr progress, sending, m) \<Rightarrow>
          (case (if sending = [] then (Inr (), s) else write_all sending s) of
             (Inl e, s) \<Rightarrow> (Inl (Io e), m, s)
           | (Inr _, s) \<Rightarrow>
               (case progress of
                  Complete v consumed \<Rightarrow>
                    (if length received < consumed then (Inl (Proxy BadHeader), m, s)
                     else (Inr (v, drop consumed received), m, s))
                | Incomplete \<Rightarrow>
                    (if MAX_NEGOTIATION \<le> length received then (Inl (Proxy BadHeader), m, s)
                     else case read_some NEGOTIATION_CHUNK s of
                            (Inl e, s) \<Rightarrow> (Inl (Io e), m, s)
                          | (Inr [], s) \<Rightarrow> (Inl (Io UnexpectedEof), m, s)
                          | (Inr (b # chunk), s) \<Rightarrow>
                              negotiate_loop advance read_some write_all m (received @ b # chunk) s))))"
  by pat_completeness auto

termination negotiate_loop
  by (relation "measure (\<lambda>(_, _, _, _, received, _). MAX_NEGOTIATION - length received)") auto

declare negotiate_loop.simps [simp del]

definition negotiate ::
    "('m, 'o) advancer \<Rightarrow> (nat \<Rightarrow> 's \<Rightarrow> (io_error + bytes) \<times> 's) \<Rightarrow> (bytes \<Rightarrow> 's \<Rightarrow> (io_error + unit) \<times> 's) \<Rightarrow>
     'm \<Rightarrow> 's \<Rightarrow> (egress_error + ('o \<times> bytes)) \<times> 'm \<times> 's" where
  "negotiate advance read_some write_all m s = negotiate_loop advance read_some write_all m [] s"

text \<open>
  The contract of \<open>Negotiation::advance\<close> once the first message is out: an answer is kept when more
  input arrives, it covers bytes that were offered, and being offered the input in parts changes
  neither the answer nor what is sent.
\<close>

locale negotiation =
  fixes advance :: "('m, 'o) advancer"
  assumes answer_kept: "inp \<noteq> [] \<Longrightarrow> advance m inp [] = (Inr (Complete v n), out, m') \<Longrightarrow>
      n \<le> length inp \<and> advance m (inp @ post) [] = (Inr (Complete v n), out, m')"
    and resumes: "inp \<noteq> [] \<Longrightarrow> advance m inp [] = (Inr Incomplete, out, m') \<Longrightarrow>
      advance m (inp @ post) [] = (case advance m' (inp @ post) [] of (r, out', m'') \<Rightarrow> (r, out @ out', m''))"
    and failure_kept: "inp \<noteq> [] \<Longrightarrow> advance m inp [] = (Inl e, out, m') \<Longrightarrow> fst (advance m (inp @ post) []) = Inl e"

text \<open>A peer whose bytes arrive in given pieces, with what has been sent to it.\<close>

fun script_read :: "nat \<Rightarrow> bytes list \<times> bytes \<Rightarrow> (io_error + bytes) \<times> bytes list \<times> bytes" where
  "script_read n ([], sent) = (Inr [], [], sent)"
| "script_read n (chunk # chunks, sent) = (Inr chunk, chunks, sent)"

fun script_write :: "bytes \<Rightarrow> bytes list \<times> bytes \<Rightarrow> (io_error + unit) \<times> bytes list \<times> bytes" where
  "script_write message (chunks, sent) = (Inr (), chunks, sent @ message)"

context negotiation
begin

lemma negotiate_chunks:
  assumes "advance m (received @ concat chunks) [] = (Inr (Complete v n), out, m')"
    and "list_all (\<lambda>c. c \<noteq> []) chunks" and "received \<noteq> []"
    and "length (received @ concat chunks) \<le> MAX_NEGOTIATION"
  shows "\<exists>used left. chunks = used @ left
     \<and> negotiate_loop advance script_read script_write m received (chunks @ later, sent) =
         (Inr (v, drop n (received @ concat used)), m', left @ later, sent @ out)"
  using assms
proof (induction chunks arbitrary: m received sent out)
  case Nil
  then show ?case
    using answer_kept [of received m v n out m' "[]"]
    by (auto simp: negotiate_loop.simps [of _ _ _ m received])
next
  case (Cons c cs)
  obtain r o1 m1 where step: "advance m received [] = (r, o1, m1)" by (metis prod.exhaust)
  consider e where "r = Inl e" | "r = Inr Incomplete" | w k where "r = Inr (Complete w k)"
    by (metis decoded.exhaust sum.exhaust)
  then show ?case
  proof cases
    case (1 e)
    then show ?thesis using failure_kept [of received m e o1 m1 "concat (c # cs)"] step Cons.prems by simp
  next
    case 2
    obtain r' o2 m2 where rest: "advance m1 ((received @ c) @ concat cs) [] = (r', o2, m2)" by (metis prod.exhaust)
    have all: "r' = Inr (Complete v n)" "out = o1 @ o2" "m2 = m'"
      using resumes [of received m o1 m1 "concat (c # cs)"] step 2 rest Cons.prems by auto
    obtain b bs where c: "c = b # bs" using Cons.prems(2) by (cases c) auto
    obtain used left where IH: "cs = used @ left"
        "negotiate_loop advance script_read script_write m1 (received @ c) (cs @ later, sent @ o1) =
           (Inr (v, drop n ((received @ c) @ concat used)), m', left @ later, (sent @ o1) @ o2)"
      using Cons.IH [of m1 "received @ c" o2 "sent @ o1"] rest all Cons.prems by auto
    have "length received < MAX_NEGOTIATION" using Cons.prems(4) c by simp
    then have "negotiate_loop advance script_read script_write m received ((c # cs) @ later, sent) =
        negotiate_loop advance script_read script_write m1 (received @ c) (cs @ later, sent @ o1)"
      using step 2 c by (subst negotiate_loop.simps) simp
    then show ?thesis using IH all(2) by (intro exI [of _ "c # used"] exI [of _ left]) simp
  next
    case (3 w k)
    then have "k \<le> length received" "w = v" "k = n" "o1 = out" "m1 = m'"
      using answer_kept [of received m w k o1 m1 "concat (c # cs)"] step Cons.prems by auto
    then show ?thesis
      using 3 step by (intro exI [of _ "[]"] exI [of _ "c # cs"]) (simp add: negotiate_loop.simps [of _ _ _ m received])
  qed
qed

end

section \<open>Replaying a prefix\<close>

type_synonym 's reads = "nat \<Rightarrow> 's \<Rightarrow> (io_error + bytes) poll \<times> 's"

type_synonym 's write_poll = "bytes \<Rightarrow> 's \<Rightarrow> (io_error + nat) poll \<times> 's"

record 's prefixed =
  px_prefix :: bytes
  px_inner :: 's

definition prefixed_new :: "bytes \<Rightarrow> 's \<Rightarrow> 's prefixed + 's" where
  "prefixed_new prefix inner =
     (if prefix = [] then Inr inner else Inl \<lparr>px_prefix = prefix, px_inner = inner\<rparr>)"

definition prefixed_read :: "'s reads \<Rightarrow> 's prefixed reads" where
  "prefixed_read poll_inner cap p =
     (if px_prefix p \<noteq> []
      then let moved = min cap (length (px_prefix p))
           in (Ready (Inr (take moved (px_prefix p))), p\<lparr>px_prefix := drop moved (px_prefix p)\<rparr>)
      else case poll_inner cap (px_inner p) of (r, s) \<Rightarrow> (r, p\<lparr>px_inner := s\<rparr>))"

definition either_read :: "'l reads \<Rightarrow> 'r reads \<Rightarrow> ('l + 'r) reads" where
  "either_read poll_left poll_right cap e =
     (case e of
        Inl l \<Rightarrow> (case poll_left cap l of (r, l) \<Rightarrow> (r, Inl l))
      | Inr s \<Rightarrow> (case poll_right cap s of (r, s) \<Rightarrow> (r, Inr s)))"

section \<open>The framed stream\<close>

definition FRAMED_CHUNK :: nat where "FRAMED_CHUNK = 16 * 1024"

record ('s, 'c) framed =
  fr_inner :: 's
  fr_codec :: 'c
  fr_coded :: bytes
  fr_coded_at :: nat
  fr_plain :: bytes
  fr_plain_at :: nat
  fr_transparent :: bool
  fr_pending :: bytes
  fr_pending_at :: nat
  fr_taken :: nat
  fr_writes :: writes

definition framed_new :: "writes \<Rightarrow> 's \<Rightarrow> 'c \<Rightarrow> ('s, 'c) framed" where
  "framed_new codec_writes inner codec =
     \<lparr>fr_inner = inner, fr_codec = codec, fr_coded = [], fr_coded_at = 0, fr_plain = [], fr_plain_at = 0,
      fr_transparent = False, fr_pending = [], fr_pending_at = 0, fr_taken = 0, fr_writes = codec_writes\<rparr>"

definition framed_with_prefix :: "writes \<Rightarrow> 's \<Rightarrow> 'c \<Rightarrow> bytes \<Rightarrow> ('s, 'c) framed" where
  "framed_with_prefix codec_writes inner codec prefix = (framed_new codec_writes inner codec)\<lparr>fr_coded := prefix\<rparr>"

definition framed_drain :: "nat \<Rightarrow> ('s, 'c) framed \<Rightarrow> (bytes \<times> ('s, 'c) framed) option" where
  "framed_drain cap f =
     (let held = drop (fr_plain_at f) (fr_plain f)
      in if held = [] then None
         else let moved = min (length held) cap;
                  f = f\<lparr>fr_plain_at := fr_plain_at f + moved\<rparr>
              in Some (take moved held,
                       if fr_plain_at f = length (fr_plain f) then f\<lparr>fr_plain := [], fr_plain_at := 0\<rparr> else f))"

text \<open>
  One pass of the loop of \<open>poll_read\<close>: it returns, goes round again, or first needs more coded bytes.
\<close>

datatype ('s, 'c) pass =
  Finish "(io_error + bytes) poll" "('s, 'c) framed" | Again "('s, 'c) framed"

definition framed_refill :: "'s reads \<Rightarrow> ('s, 'c) framed \<Rightarrow> ('s, 'c) pass" where
  "framed_refill poll_inner f =
     (case poll_inner FRAMED_CHUNK (fr_inner f) of
        (Pending, s) \<Rightarrow> Finish Pending (f\<lparr>fr_inner := s\<rparr>)
      | (Ready (Inl e), s) \<Rightarrow> Finish (Ready (Inl e)) (f\<lparr>fr_inner := s\<rparr>)
      | (Ready (Inr filled), s) \<Rightarrow>
          (if filled = [] then Finish (Ready (Inr [])) (f\<lparr>fr_inner := s\<rparr>)
           else Again (f\<lparr>fr_inner := s, fr_coded := fr_coded f @ filled\<rparr>)))"

text \<open>The coded bytes are compacted once half of them is consumed.\<close>

definition framed_skip :: "nat \<Rightarrow> ('s, 'c) framed \<Rightarrow> ('s, 'c) framed" where
  "framed_skip consumed f =
     (let at = fr_coded_at f + consumed
      in if length (fr_coded f) \<le> at * 2 then f\<lparr>fr_coded := drop at (fr_coded f), fr_coded_at := 0\<rparr>
         else f\<lparr>fr_coded_at := at\<rparr>)"

definition framed_decode :: "'c decoder \<Rightarrow> 's reads \<Rightarrow> ('s, 'c) framed \<Rightarrow> ('s, 'c) pass" where
  "framed_decode decode poll_inner f =
     (let held = drop (fr_coded_at f) (fr_coded f)
      in case decode (fr_codec f) held (fr_plain f) of
           (Inl e, plain, c) \<Rightarrow> Finish (Ready (Inl (fatal e))) (f\<lparr>fr_codec := c, fr_plain := plain\<rparr>)
         | (Inr (Transparent rest), plain, c) \<Rightarrow>
             Again (f\<lparr>fr_codec := c, fr_plain := plain @ rest, fr_coded := [], fr_coded_at := 0, fr_transparent := True\<rparr>)
         | (Inr (Framed rest), plain, c) \<Rightarrow>
             (let consumed = decode_consumed (Framed rest) held;
                  f = framed_skip consumed (f\<lparr>fr_codec := c, fr_plain := plain\<rparr>)
              in if 0 < consumed \<or> fr_plain f \<noteq> [] then Again f else framed_refill poll_inner f))"

definition framed_pass :: "'c decoder \<Rightarrow> 's reads \<Rightarrow> nat \<Rightarrow> ('s, 'c) framed \<Rightarrow> ('s, 'c) pass" where
  "framed_pass decode poll_inner cap f =
     (case framed_drain cap f of
        Some (moved, f) \<Rightarrow> Finish (Ready (Inr moved)) f
      | None \<Rightarrow>
          (if fr_transparent f \<and> fr_coded_at f = length (fr_coded f)
           then case poll_inner cap (fr_inner f) of (r, s) \<Rightarrow> Finish r (f\<lparr>fr_inner := s\<rparr>)
           else if fr_coded_at f < length (fr_coded f) then framed_decode decode poll_inner f
           else framed_refill poll_inner f))"

partial_function (option) poll_read ::
    "'c decoder \<Rightarrow> 's reads \<Rightarrow> nat \<Rightarrow> ('s, 'c) framed \<Rightarrow> ((io_error + bytes) poll \<times> ('s, 'c) framed) option" where
  "poll_read decode poll_inner cap f =
     (case framed_pass decode poll_inner cap f of
        Finish r f \<Rightarrow> Some (r, f)
      | Again f \<Rightarrow> poll_read decode poll_inner cap f)"

declare poll_read.simps [code]

text \<open>Writing: the frame in progress goes out before another is encoded.\<close>

function write_pending ::
    "'s write_poll \<Rightarrow> ('s, 'c) framed \<Rightarrow> (io_error + nat) poll \<times> ('s, 'c) framed" where
  "write_pending write_inner f =
     (if fr_pending_at f < length (fr_pending f)
      then case write_inner (drop (fr_pending_at f) (fr_pending f)) (fr_inner f) of
             (Ready (Inr 0), s) \<Rightarrow> (Ready (Inl WriteZero), f\<lparr>fr_inner := s\<rparr>)
           | (Ready (Inr (Suc n)), s) \<Rightarrow>
               write_pending write_inner (f\<lparr>fr_inner := s, fr_pending_at := fr_pending_at f + Suc n\<rparr>)
           | (Ready (Inl e), s) \<Rightarrow> (Ready (Inl e), f\<lparr>fr_inner := s\<rparr>)
           | (Pending, s) \<Rightarrow> (Pending, f\<lparr>fr_inner := s\<rparr>)
      else (Ready (Inr (fr_taken f)), f))"
  by pat_completeness auto

termination write_pending
  by (relation "measure (\<lambda>(_, f). length (fr_pending f) - fr_pending_at f)") auto

declare write_pending.simps [simp del]

definition poll_write ::
    "'c encoder \<Rightarrow> ('c \<Rightarrow> nat) \<Rightarrow> 's write_poll \<Rightarrow> bytes \<Rightarrow> ('s, 'c) framed \<Rightarrow>
     (io_error + nat) poll \<times> ('s, 'c) framed" where
  "poll_write encode max_payload write_inner buf f =
     (if fr_writes f = WritesVerbatim
      then case write_inner buf (fr_inner f) of (r, s) \<Rightarrow> (r, f\<lparr>fr_inner := s\<rparr>)
      else if fr_pending_at f = length (fr_pending f)
      then (let f = f\<lparr>fr_pending := [], fr_pending_at := 0\<rparr>;
                n = min (length buf) (max_payload (fr_codec f))
            in if n = 0 then (Ready (Inr 0), f)
               else case encode (fr_codec f) (take n buf) (fr_pending f) of
                      (Inl e, pending, c) \<Rightarrow> (Ready (Inl (fatal e)), f\<lparr>fr_codec := c, fr_pending := pending\<rparr>)
                    | (Inr _, pending, c) \<Rightarrow>
                        write_pending write_inner (f\<lparr>fr_codec := c, fr_pending := pending, fr_taken := n\<rparr>))
      else write_pending write_inner f)"

lemma framed_skip_plain [simp]: "fr_plain (framed_skip n f) = fr_plain f"
  by (simp add: framed_skip_def Let_def)

section \<open>What a codec decodes\<close>

text \<open>
  The decoding of a byte stream with no stream and no buffers around it: frames are decoded while
  the codec makes progress, and once it is transparent the bytes pass as they are.
\<close>

inductive yields ::
    "'c decoder \<Rightarrow> 'c \<times> bool \<times> bytes \<Rightarrow> bytes \<Rightarrow> 'c \<times> bool \<times> bytes \<Rightarrow> bool"
    for decode :: "'c decoder" where
  stop: "yields decode s [] s"
| frame: "decode c bs [] = (Inr (Framed rest), p, c1) \<Longrightarrow> rest \<noteq> bs \<Longrightarrow> yields decode (c1, False, rest) q s \<Longrightarrow>
    yields decode (c, False, bs) (p @ q) s"
| transparent: "decode c bs [] = (Inr (Transparent rest), p, c1) \<Longrightarrow> yields decode (c1, True, rest) q s \<Longrightarrow>
    yields decode (c, False, bs) (p @ q) s"
| pass: "yields decode (c, True, bs) q s \<Longrightarrow> yields decode (c, True, b # bs) (b # q) s"

inductive_cases yields_codecE: "yields decode (c, False, bs) q s"
inductive_cases yields_passE: "yields decode (c, True, bs) q s"

lemma yields_pass: "yields decode (c, True, bs) bs (c, True, [])"
  by (induction bs) (auto intro: yields.intros)

lemma yields_trans: "yields decode s p t \<Longrightarrow> yields decode t q u \<Longrightarrow> yields decode s (p @ q) u"
  by (induction rule: yields.induct) (auto intro: yields.intros)

text \<open>Decoding is deterministic: of two decodings of the same bytes, one continues the other.\<close>

lemma yields_linear:
  "yields decode s a t \<Longrightarrow> yields decode s b u \<Longrightarrow>
   (\<exists>d. yields decode t d u \<and> b = a @ d) \<or> (\<exists>d. yields decode u d t \<and> a = b @ d)"
proof (induction arbitrary: b u rule: yields.induct)
  case (stop s)
  then show ?case by simp
next
  case (frame c bs rest p c1 q s)
  from frame.prems show ?case
  proof (cases rule: yields_codecE [consumes 1])
    case 1
    then show ?thesis using yields.frame [OF frame(1-3)] by auto
  next
    case (2 rest' p' c1' q')
    then show ?thesis using frame(1) frame.IH [of q' u] by auto
  next
    case (3 rest' p' c1' q')
    then show ?thesis using frame(1) by simp
  qed
next
  case (transparent c bs rest p c1 q s)
  from transparent.prems show ?case
  proof (cases rule: yields_codecE [consumes 1])
    case 1
    then show ?thesis using yields.transparent [OF transparent(1,2)] by auto
  next
    case (2 rest' p' c1' q')
    then show ?thesis using transparent(1) by simp
  next
    case (3 rest' p' c1' q')
    then show ?thesis using transparent(1) transparent.IH [of q' u] by auto
  qed
next
  case (pass c bs q s x)
  from pass.prems show ?case
  proof (cases rule: yields_passE [consumes 1])
    case 1
    then show ?thesis using yields.pass [OF pass(1)] by auto
  next
    case (2 bs' q' x')
    then show ?thesis using pass.IH [of q' u] by auto
  qed
qed

text \<open>
  The contract of \<open>Codec::decode\<close>: it appends to its output whatever that holds, it consumes a prefix
  of its input, it changes nothing without progress, and more input never changes its answer.
\<close>

locale framing =
  fixes decode :: "'c decoder"
  assumes appends: "decode c input out = map_prod id (map_prod ((@) out) id) (decode c input [])"
    and consumes: "decode c input [] = (Inr (Framed rest), p, c') \<Longrightarrow> \<exists>used. input = used @ rest"
    and stalled: "decode c input [] = (Inr (Framed input), p, c') \<Longrightarrow> p = [] \<and> c' = c"
    and framed_more: "decode c input [] = (Inr (Framed rest), p, c') \<Longrightarrow> rest \<noteq> input \<Longrightarrow>
      decode c (input @ post) [] = (Inr (Framed (rest @ post)), p, c')"
    and transparent_more: "decode c input [] = (Inr (Transparent rest), p, c') \<Longrightarrow>
      decode c (input @ post) [] = (Inr (Transparent (rest @ post)), p, c')"
    and idle: "decode c [] [] = (Inr (Transparent rest), p, c') \<Longrightarrow> rest = [] \<and> p = []"
    and failed_more: "decode c input [] = (Inl e, p, c') \<Longrightarrow> fst (decode c (input @ post) []) = Inl e"
begin

lemma yields_more:
  "yields decode (c, t, bs) out (c', t', rest) \<Longrightarrow> yields decode (c, t, bs @ post) out (c', t', rest @ post)"
proof (induction "(c, t, bs)" out "(c', t', rest)" arbitrary: c t bs rule: yields.induct)
  case (frame c bs rest' p c1 q)
  then show ?case
    using framed_more [OF frame(1,2), of post] by (auto intro: yields.frame)
next
  case (transparent c bs rest' p c1 q)
  then show ?case
    using transparent_more [OF transparent(1), of post] by (auto intro: yields.transparent)
qed (auto intro: yields.intros)

end

section \<open>Reading through the framed stream\<close>

text \<open>An inner stream with a log of the bytes it has given.\<close>

definition poll_bytes :: "(io_error + bytes) poll \<Rightarrow> bytes" where
  "poll_bytes r = (case r of Ready (Inr bs) \<Rightarrow> bs | _ \<Rightarrow> [])"

definition logged :: "'s reads \<Rightarrow> ('s \<times> bytes) reads" where
  "logged poll_inner cap s =
     (case poll_inner cap (fst s) of (r, t) \<Rightarrow> (r, t, snd s @ poll_bytes r))"

definition framed_held :: "('s, 'c) framed \<Rightarrow> bytes" where
  "framed_held f = drop (fr_plain_at f) (fr_plain f)"

definition framed_ok :: "'c decoder \<Rightarrow> 'c \<Rightarrow> bytes \<Rightarrow> ('s \<times> bytes, 'c) framed \<Rightarrow> bool" where
  "framed_ok decode c0 delivered f \<longleftrightarrow>
     yields decode (c0, False, snd (fr_inner f)) (delivered @ framed_held f)
       (fr_codec f, fr_transparent f, drop (fr_coded_at f) (fr_coded f))
     \<and> (fr_plain_at f < length (fr_plain f) \<or> fr_plain f = [] \<and> fr_plain_at f = 0)
     \<and> fr_coded_at f \<le> length (fr_coded f)
     \<and> (fr_transparent f \<longrightarrow> fr_coded f = [])"

text \<open>The state of a stream after a pass, and what the pass delivered.\<close>

fun pass_delivers :: "('s, 'c) pass \<Rightarrow> bytes" where
  "pass_delivers (Finish r _) = poll_bytes r"
| "pass_delivers (Again _) = []"

fun pass_state :: "('s, 'c) pass \<Rightarrow> ('s, 'c) framed" where
  "pass_state (Finish _ f) = f"
| "pass_state (Again f) = f"

fun pass_failed :: "('s, 'c) pass \<Rightarrow> bool" where
  "pass_failed (Finish (Ready (Inl _)) _) = True"
| "pass_failed _ = False"

definition framed_stalled :: "'c decoder \<Rightarrow> ('s, 'c) framed \<Rightarrow> bool" where
  "framed_stalled decode f \<longleftrightarrow>
     (let held = drop (fr_coded_at f) (fr_coded f)
      in held = [] \<or> decode (fr_codec f) held [] = (Inr (Framed held), [], fr_codec f))"

text \<open>What is left to decode, for termination.\<close>

definition framed_left :: "('s, 'c) framed \<Rightarrow> nat" where
  "framed_left f = (if fr_transparent f then 0 else Suc (length (fr_coded f) - fr_coded_at f))"

lemma framed_skip_left:
  "0 < n \<Longrightarrow> fr_coded_at f < length (fr_coded f) \<Longrightarrow> \<not> fr_transparent f \<Longrightarrow>
   framed_left (framed_skip n (f\<lparr>fr_codec := c, fr_plain := p\<rparr>)) < framed_left f"
  by (auto simp: framed_left_def framed_skip_def Let_def)

text \<open>
  An inner stream that follows a script: each entry is a piece of the bytes that arrive, or a poll at which nothing has
  arrived yet. A piece longer than the buffer takes several polls. After the last entry the stream has ended.
\<close>

fun script_poll :: "bytes option list reads" where
  "script_poll cap [] = (Ready (Inr []), [])"
| "script_poll cap (None # script) = (Pending, script)"
| "script_poll cap (Some c # script) =
     (Ready (Inr (take cap c)), if length c \<le> cap then script else Some (drop cap c) # script)"

definition arrivals :: "bytes option list \<Rightarrow> bytes" where
  "arrivals script = concat (map (case_option [] id) script)"

definition pauses :: "bytes option list \<Rightarrow> nat" where
  "pauses script = length (filter Option.is_none script)"

text \<open>
  The reader of a whole stream: it polls until the end of the stream is reported, the poll with number \<open>i\<close> into a buffer
  of capacity \<open>caps i\<close>, polls again when nothing is ready, and gives up at the first error. \<open>None\<close> is a reader that never
  comes to an end.
\<close>

partial_function (option) read_to_end ::
    "'c decoder \<Rightarrow> 's reads \<Rightarrow> (nat \<Rightarrow> nat) \<Rightarrow> nat \<Rightarrow> bytes \<Rightarrow> ('s, 'c) framed \<Rightarrow> (io_error + bytes) option" where
  "read_to_end decode poll_inner caps i got f =
     (case poll_read decode poll_inner (caps i) f of
        None \<Rightarrow> None
      | Some (r, f') \<Rightarrow>
          (case r of
             Pending \<Rightarrow> read_to_end decode poll_inner caps (Suc i) got f'
           | Ready (Inl e) \<Rightarrow> Some (Inl e)
           | Ready (Inr bs) \<Rightarrow>
               if bs = [] then Some (Inr got) else read_to_end decode poll_inner caps (Suc i) (got @ bs) f'))"

definition script_ok :: "bytes \<Rightarrow> bytes option list \<times> bytes \<Rightarrow> bool" where
  "script_ok wire s \<longleftrightarrow> Some [] \<notin> set (fst s) \<and> snd s @ arrivals (fst s) = wire"

text \<open>What a pass over a scripted stream does to the script.\<close>

definition script_moves :: "bytes \<Rightarrow> (bytes option list \<times> bytes, 'c) framed \<Rightarrow> (bytes option list \<times> bytes, 'c) pass \<Rightarrow> bool" where
  "script_moves wire f q \<longleftrightarrow>
     script_ok wire (fr_inner (pass_state q)) \<and> \<not> pass_failed q
     \<and> pauses (fst (fr_inner (pass_state q))) \<le> pauses (fst (fr_inner f))
     \<and> (\<forall>g. q = Finish Pending g \<longrightarrow> pauses (fst (fr_inner g)) < pauses (fst (fr_inner f)))
     \<and> (\<forall>g. q = Finish (Ready (Inr [])) g \<longrightarrow> fst (fr_inner g) = [])"

text \<open>What one read does to a scripted stream.\<close>

definition read_moves ::
    "'c decoder \<Rightarrow> 'c \<Rightarrow> bytes \<Rightarrow> bytes \<Rightarrow> bytes \<Rightarrow> (bytes option list \<times> bytes, 'c) framed \<Rightarrow> (io_error + bytes) poll \<Rightarrow>
     (bytes option list \<times> bytes, 'c) framed \<Rightarrow> bool" where
  "read_moves decode c0 wire out delivered f r f' \<longleftrightarrow>
     framed_ok decode c0 (delivered @ poll_bytes r) f' \<and> script_ok wire (fr_inner f') \<and> (\<forall>e. r \<noteq> Ready (Inl e))
     \<and> pauses (fst (fr_inner f')) \<le> pauses (fst (fr_inner f))
     \<and> (r = Pending \<longrightarrow> pauses (fst (fr_inner f')) < pauses (fst (fr_inner f)))
     \<and> (r = Ready (Inr []) \<longrightarrow> delivered = out)"

lemma script_step:
  assumes "logged script_poll n s = (r, s')" and "0 < n" and "script_ok wire s"
  shows "script_ok wire s' \<and> pauses (fst s') \<le> pauses (fst s) \<and> (r = Pending \<longrightarrow> pauses (fst s') < pauses (fst s))
     \<and> (r = Ready (Inr []) \<longrightarrow> fst s' = []) \<and> r \<noteq> Ready (Inl e)"
  using assms
  by (cases "(n, fst s)" rule: script_poll.cases)
    (auto simp: logged_def script_ok_def arrivals_def pauses_def poll_bytes_def split: if_splits)

lemma script_finite: "script_poll n s = (Ready (Inr (b # bs)), s') \<Longrightarrow> length (arrivals s') < length (arrivals s)"
  by (cases "(n, s)" rule: script_poll.cases) (auto simp: arrivals_def split: if_splits dest: arg_cong [of _ _ length])

lemma refill_script:
  assumes "script_ok wire (fr_inner f)"
  shows "script_moves wire f (framed_refill (logged script_poll) f)"
proof -
  obtain r t where poll: "logged script_poll FRAMED_CHUNK (fr_inner f) = (r, t)" by (rule prod.exhaust)
  have "0 < FRAMED_CHUNK" by (simp add: FRAMED_CHUNK_def)
  note step = script_step [OF poll this assms]
  show ?thesis using step
    by (auto simp: script_moves_def framed_refill_def poll split: poll.splits sum.splits)
qed

context framing
begin

lemma drain_ok:
  assumes "framed_ok decode c0 delivered f" and "framed_drain cap f = Some (moved, f')"
  shows "framed_ok decode c0 (delivered @ moved) f'"
proof -
  define n where "n = min (length (framed_held f)) cap"
  have held: "framed_held f \<noteq> []" and moved: "moved = take n (framed_held f)"
    using assms(2) by (auto simp: framed_drain_def framed_held_def n_def Let_def split: if_splits)
  have at: "fr_plain_at f + length (framed_held f) = length (fr_plain f)"
    using held by (simp add: framed_held_def)
  have f': "f' = (if n = length (framed_held f) then f\<lparr>fr_plain := [], fr_plain_at := 0\<rparr> else f\<lparr>fr_plain_at := fr_plain_at f + n\<rparr>)"
    using assms(2) at held by (auto simp: framed_drain_def framed_held_def [symmetric] n_def Let_def split: if_splits)
  have "moved @ framed_held f' = framed_held f"
    unfolding moved f' by (auto simp: framed_held_def add.commute simp flip: drop_drop)
  moreover have "fr_plain_at f' < length (fr_plain f') \<or> fr_plain f' = [] \<and> fr_plain_at f' = 0"
    using at by (auto simp: f' n_def)
  ultimately show ?thesis using assms(1) by (auto simp: framed_ok_def f')
qed

lemma refill_ok:
  assumes "framed_ok decode c0 delivered f" and "\<not> fr_transparent f"
    and q: "q = framed_refill (logged poll_inner) f"
  shows "framed_ok decode c0 (delivered @ pass_delivers q) (pass_state q)"
proof -
  obtain r t where poll: "poll_inner FRAMED_CHUNK (fst (fr_inner f)) = (r, t)" by fastforce
  show ?thesis
    using assms(1,2) yields_more [of c0 False "snd (fr_inner f)" "delivered @ framed_held f" "fr_codec f" False
        "drop (fr_coded_at f) (fr_coded f)" "poll_bytes r"]
    by (auto simp: q framed_refill_def logged_def poll poll_bytes_def framed_ok_def framed_held_def
        split: poll.splits sum.splits)
qed

lemma refill_end:
  "framed_refill (logged poll_inner) f = Finish (Ready (Inr [])) g \<Longrightarrow> \<exists>t. g = f\<lparr>fr_inner := t\<rparr>"
  by (auto simp: framed_refill_def split: prod.splits poll.splits sum.splits if_splits)

text \<open>The end of the stream is reported only once everything that decodes has been delivered.\<close>

lemma decode_ok:
  assumes ok: "framed_ok decode c0 delivered f" and "\<not> fr_transparent f" and held: "framed_held f = []"
    and q: "q = framed_decode decode (logged poll_inner) f"
  shows "pass_failed q \<or> framed_ok decode c0 (delivered @ pass_delivers q) (pass_state q)
     \<and> (\<forall>g. q = Finish (Ready (Inr [])) g \<longrightarrow> framed_held g = [] \<and> framed_stalled decode g)"
proof -
  let ?h = "drop (fr_coded_at f) (fr_coded f)"
  have plain: "fr_plain f = []" "fr_plain_at f = 0" using ok held by (auto simp: framed_ok_def framed_held_def)
  obtain res p c where d: "decode (fr_codec f) ?h [] = (res, p, c)" by (metis prod.exhaust)
  have base: "yields decode (c0, False, snd (fr_inner f)) delivered (fr_codec f, False, ?h)"
    using assms(1,2) held by (simp add: framed_ok_def)
  have dp: "decode (fr_codec f) ?h (fr_plain f) = (res, p, c)" by (simp add: plain d)
  consider e where "res = Inl e" | rest where "res = Inr (Transparent rest)" | rest where "res = Inr (Framed rest)"
    by (metis decode_result.exhaust sum.exhaust)
  then show ?thesis
  proof cases
    case (1 e)
    then show ?thesis by (simp add: q framed_decode_def dp)
  next
    case (2 rest)
    have "yields decode (c, True, rest) rest (c, True, [])"
      by (rule yields_pass)
    then have "yields decode (fr_codec f, False, ?h) (p @ rest) (c, True, [])"
      using 2 d by (auto intro: yields.transparent)
    moreover have "q = Again (f\<lparr>fr_codec := c, fr_plain := p @ rest, fr_coded := [], fr_coded_at := 0, fr_transparent := True\<rparr>)"
      using 2 by (simp add: q framed_decode_def dp)
    ultimately show ?thesis
      using yields_trans [OF base] plain by (auto simp: framed_ok_def framed_held_def)
  next
    case (3 rest)
    then obtain used where used: "?h = used @ rest" using consumes d by blast
    define g where "g = framed_skip (length used) (f\<lparr>fr_codec := c, fr_plain := p\<rparr>)"
    have rest: "drop (fr_coded_at f + length used) (fr_coded f) = rest"
      using arg_cong [OF used, of "drop (length used)"] by (simp add: add.commute)
    have "fr_coded_at f + length used \<le> length (fr_coded f)"
      using arg_cong [OF used, of length] ok by (auto simp: framed_ok_def)
    then have g: "drop (fr_coded_at g) (fr_coded g) = rest" "fr_coded_at g \<le> length (fr_coded g)" "fr_plain g = p"
        "fr_plain_at g = 0" "fr_codec g = c" "fr_inner g = fr_inner f" "\<not> fr_transparent g"
      using rest plain assms(2) by (auto simp: g_def framed_skip_def Let_def)
    have consumed: "decode_consumed (Framed rest) ?h = length used" by (simp add: used decode_consumed_def)
    have q': "q = (if used \<noteq> [] \<or> p \<noteq> [] then Again g else framed_refill (logged poll_inner) g)"
      using g(3) 3 consumed by (simp add: q framed_decode_def dp g_def [symmetric])
    have step: "yields decode (fr_codec f, False, ?h) p (c, False, rest)"
    proof (cases "used = []")
      case True
      then show ?thesis using stalled [of "fr_codec f" ?h p c] d 3 used by (auto intro: yields.stop)
    next
      case False
      then have "rest \<noteq> ?h" using used by simp
      then show ?thesis
        using yields.frame [OF _ _ yields.stop, of decode "fr_codec f" ?h rest p c] d 3 by simp
    qed
    have gok: "framed_ok decode c0 delivered g"
      using yields_trans [OF base step] g by (simp add: framed_ok_def framed_held_def)
    show ?thesis
    proof (cases "used \<noteq> [] \<or> p \<noteq> []")
      case True
      then show ?thesis using gok q' by simp
    next
      case False
      then have stall: "c = fr_codec f" "p = []" "rest = ?h" using stalled [of "fr_codec f" ?h p c] d 3 used by auto
      have "framed_stalled decode g" using d 3 stall g(1,5) by (simp add: framed_stalled_def Let_def)
      then have "framed_stalled decode (g\<lparr>fr_inner := t\<rparr>) \<and> framed_held (g\<lparr>fr_inner := t\<rparr>) = []" for t
        using g(3,4) stall(2) by (simp add: framed_stalled_def framed_held_def)
      then show ?thesis using refill_ok [OF gok g(7) refl, of poll_inner] False q' by (auto dest: refill_end)
    qed
  qed
qed

lemma pass_ok:
  assumes ok: "framed_ok decode c0 delivered f" and q: "q = framed_pass decode (logged poll_inner) cap f"
  shows "pass_failed q \<or> framed_ok decode c0 (delivered @ pass_delivers q) (pass_state q)
     \<and> (\<forall>g. q = Finish (Ready (Inr [])) g \<longrightarrow> 0 < cap \<longrightarrow>
          framed_held g = [] \<and> (fr_transparent g \<or> framed_stalled decode g))"
proof (cases "framed_drain cap f")
  case (Some mf)
  moreover from Some have "0 < cap \<longrightarrow> fst mf \<noteq> []"
    by (auto simp: framed_drain_def Let_def split: if_splits)
  ultimately show ?thesis
    using drain_ok [OF ok] by (cases mf) (auto simp: q framed_pass_def poll_bytes_def)
next
  case None
  then have held: "framed_held f = []" by (auto simp: framed_drain_def framed_held_def Let_def split: if_splits)
  show ?thesis
  proof (cases "fr_transparent f")
    case True
    obtain r t where poll: "poll_inner cap (fst (fr_inner f)) = (r, t)" by fastforce
    have t: "fr_coded f = []" "fr_coded_at f = 0" using ok True by (auto simp: framed_ok_def)
    have "yields decode (c0, False, snd (fr_inner f) @ poll_bytes r) delivered (fr_codec f, True, poll_bytes r)"
      using yields_more [of c0 False "snd (fr_inner f)" delivered "fr_codec f" True "[]" "poll_bytes r"] ok True held t
      by (simp add: framed_ok_def)
    then have "yields decode (c0, False, snd (fr_inner f) @ poll_bytes r) (delivered @ poll_bytes r) (fr_codec f, True, [])"
      using yields_pass by (rule yields_trans)
    then show ?thesis
      using None True t held ok by (auto simp: q framed_pass_def logged_def poll framed_ok_def framed_held_def)
  next
    case False
    show ?thesis
    proof (cases "fr_coded_at f < length (fr_coded f)")
      case True
      then show ?thesis using decode_ok [OF ok False held refl, of poll_inner] None False by (auto simp: q framed_pass_def)
    next
      case drained: False
      then have "framed_stalled decode (f\<lparr>fr_inner := t\<rparr>) \<and> framed_held (f\<lparr>fr_inner := t\<rparr>) = []" for t
        using held by (simp add: framed_stalled_def framed_held_def)
      then show ?thesis
        using refill_ok [OF ok False refl, of poll_inner] None False drained by (auto simp: q framed_pass_def dest: refill_end)
    qed
  qed
qed

lemma poll_read_ok:
  assumes "poll_read decode (logged poll_inner) cap f = Some (r, f')" and "framed_ok decode c0 delivered f"
  shows "(\<exists>e. r = Ready (Inl e)) \<or> framed_ok decode c0 (delivered @ poll_bytes r) f'
     \<and> (r = Ready (Inr []) \<longrightarrow> 0 < cap \<longrightarrow> framed_held f' = [] \<and> (fr_transparent f' \<or> framed_stalled decode f'))"
proof -
  let ?Q = "\<lambda>cap rf. (\<exists>e. fst rf = Ready (Inl e)) \<or> framed_ok decode c0 (delivered @ poll_bytes (fst rf)) (snd rf)
    \<and> (fst rf = Ready (Inr []) \<longrightarrow> 0 < cap \<longrightarrow> framed_held (snd rf) = [] \<and> (fr_transparent (snd rf) \<or> framed_stalled decode (snd rf)))"
  let ?P = "\<lambda>d l cap f rf. d = decode \<and> l = logged poll_inner \<longrightarrow> framed_ok decode c0 delivered f \<longrightarrow> ?Q cap rf"
  have "?P decode (logged poll_inner) cap f (r, f')"
  proof (rule poll_read.raw_induct [where P = ?P, OF _ assms(1)], goal_cases)
    case (1 again d l cap f rf)
    show ?case
    proof (intro impI, elim conjE)
      assume eq: "d = decode" "l = logged poll_inner" and ok: "framed_ok decode c0 delivered f"
      define q where "q = framed_pass decode (logged poll_inner) cap f"
      note step = pass_ok [OF ok q_def]
      show "?Q cap rf"
      proof (cases q)
        case (Finish r' g)
        then have "rf = (r', g)" using 1(2) by (simp add: eq flip: q_def)
        then show ?thesis using step Finish by (cases "(Finish r' g)" rule: pass_failed.cases) auto
      next
        case (Again g)
        then have "again d l cap g = Some rf" using 1(2) by (simp add: eq flip: q_def)
        then show ?thesis using 1(1) [of d l cap g rf] step Again eq by simp
      qed
    qed
  qed
  then show ?thesis using assms(2) by simp
qed

lemma framed_new_ok: "framed_ok decode c0 [] (framed_new w (s, []) c0)"
  by (simp add: framed_ok_def framed_new_def framed_held_def yields.stop)

lemma yields_nothing: "yields decode s d u \<Longrightarrow> snd (snd s) = [] \<Longrightarrow> d = []"
proof (induction rule: yields.induct)
  case (frame c bs rest p c1 q s)
  then show ?case using consumes [OF frame(1)] by auto
next
  case (transparent c bs rest p c1 q s)
  then show ?case using idle [of c rest p c1] by auto
qed auto

lemma yields_rest: "yields decode s d u \<Longrightarrow> snd (snd s) = [] \<Longrightarrow> snd (snd u) = []"
proof (induction rule: yields.induct)
  case (frame c bs rest p c1 q s)
  then show ?case using consumes [OF frame(1)] by auto
next
  case (transparent c bs rest p c1 q s)
  then show ?case using idle [of c rest p c1] by auto
qed auto

text \<open>What is read is a prefix of what the bytes decode to, however they arrive and whatever the buffers.\<close>

lemma delivered_prefix:
  assumes ok: "framed_ok decode c0 delivered f"
    and whole: "yields decode (c0, False, snd (fr_inner f) @ later) out (c', t', [])"
  shows "\<exists>d. out = delivered @ framed_held f @ d
     \<and> (d = [] \<or> yields decode (fr_codec f, fr_transparent f, drop (fr_coded_at f) (fr_coded f) @ later) d (c', t', []))"
proof -
  let ?u = "(fr_codec f, fr_transparent f, drop (fr_coded_at f) (fr_coded f) @ later)"
  have "yields decode (c0, False, snd (fr_inner f) @ later) (delivered @ framed_held f) ?u"
    using ok yields_more by (simp add: framed_ok_def)
  from yields_linear [OF this whole] show ?thesis
  proof
    assume "\<exists>d. yields decode (c', t', []) d ?u \<and> delivered @ framed_held f = out @ d"
    then obtain d where d: "yields decode (c', t', []) d ?u" "delivered @ framed_held f = out @ d" by blast
    then have "d = []" using yields_nothing by fastforce
    then show ?thesis using d(2) by auto
  qed auto
qed

text \<open>Once nothing more arrives and nothing more decodes, all of it has been delivered.\<close>

lemma delivered_all:
  assumes ok: "framed_ok decode c0 delivered f" "framed_held f = []" "fr_transparent f \<or> framed_stalled decode f"
    and whole: "yields decode (c0, False, snd (fr_inner f)) out (c', t', [])"
  shows "delivered = out"
proof -
  let ?h = "drop (fr_coded_at f) (fr_coded f)"
  obtain d where d: "out = delivered @ d" "d = [] \<or> yields decode (fr_codec f, fr_transparent f, ?h) d (c', t', [])"
    using delivered_prefix [OF ok(1), of "[]" out c' t'] whole ok(2) by auto
  have "d = []"
  proof (cases "?h = []")
    case True
    then show ?thesis using d(2) yields_nothing [of "(fr_codec f, fr_transparent f, ?h)" d "(c', t', [])"] by auto
  next
    case False
    then have "\<not> fr_transparent f" "decode (fr_codec f) ?h [] = (Inr (Framed ?h), [], fr_codec f)"
      using ok(1,3) by (auto simp: framed_ok_def framed_stalled_def Let_def)
    then show ?thesis using d(2) by (auto elim: yields_codecE)
  qed
  then show ?thesis using d(1) by simp
qed

text \<open>A read returns when the inner stream gives data only finitely often.\<close>

lemma refill_again:
  assumes "framed_refill (logged poll_inner) f = Again g"
    and finite: "\<And>n s s' b bs. poll_inner n s = (Ready (Inr (b # bs)), s') \<Longrightarrow> (gives s' :: nat) < gives s"
  shows "gives (fst (fr_inner g)) < gives (fst (fr_inner f))"
proof -
  obtain r t where poll: "poll_inner FRAMED_CHUNK (fst (fr_inner f)) = (r, t)" by fastforce
  obtain b bs where "r = Ready (Inr (b # bs))" "fst (fr_inner g) = t"
    using assms(1) by (auto simp: framed_refill_def logged_def poll neq_Nil_conv split: poll.splits sum.splits if_splits)
  then show ?thesis using finite [of FRAMED_CHUNK "fst (fr_inner f)" b bs t] poll by simp
qed

lemma decode_again:
  assumes "framed_ok decode c0 delivered f" and "\<not> fr_transparent f" and "framed_held f = []"
    and "fr_coded_at f < length (fr_coded f)" and again: "framed_decode decode (logged poll_inner) f = Again g"
    and finite: "\<And>n s s' b bs. poll_inner n s = (Ready (Inr (b # bs)), s') \<Longrightarrow> (gives s' :: nat) < gives s"
  shows "((gives (fst (fr_inner g)), framed_left g), (gives (fst (fr_inner f)), framed_left f)) \<in> less_than <*lex*> less_than"
proof -
  let ?h = "drop (fr_coded_at f) (fr_coded f)"
  have plain: "fr_plain f = []" using assms(1,3) by (auto simp: framed_ok_def framed_held_def)
  obtain res p c where d: "decode (fr_codec f) ?h [] = (res, p, c)" by (metis prod.exhaust)
  have dp: "decode (fr_codec f) ?h (fr_plain f) = (res, p, c)" by (simp add: plain d)
  consider rest where "res = Inr (Transparent rest)" | rest where "res = Inr (Framed rest)" | e where "res = Inl e"
    by (metis decode_result.exhaust sum.exhaust)
  then show ?thesis
  proof cases
    case 1
    then show ?thesis using again assms(2) by (auto simp: framed_decode_def dp framed_left_def)
  next
    case (2 rest)
    define n where "n = decode_consumed (Framed rest) ?h"
    define f' where "f' = framed_skip n (f\<lparr>fr_codec := c, fr_plain := p\<rparr>)"
    have inner: "fr_inner f' = fr_inner f" by (simp add: f'_def framed_skip_def Let_def)
    obtain used where used: "?h = used @ rest" using consumes [of "fr_codec f" ?h rest p c] d 2 by auto
    have "n = length used" unfolding n_def used by (simp add: decode_consumed_def)
    then have "0 < n \<or> rest = ?h" using used by auto
    then have p: "0 < n \<or> p = []" using stalled [of "fr_codec f" ?h p c] d 2 by auto
    show ?thesis
    proof (cases "0 < n")
      case True
      then have "g = f'" using again 2 by (simp add: framed_decode_def dp f'_def flip: n_def)
      then show ?thesis using framed_skip_left [OF True assms(4,2), where c = c and p = p] inner by (simp flip: f'_def)
    next
      case False
      then have "framed_refill (logged poll_inner) f' = Again g"
        using again 2 p by (simp add: framed_decode_def dp f'_def flip: n_def)
      then have "gives (fst (fr_inner g)) < gives (fst (fr_inner f'))"
        using refill_again [where gives = gives] finite by blast
      then show ?thesis using inner by simp
    qed
  qed (use again in \<open>simp add: framed_decode_def dp\<close>)
qed

lemma pass_again:
  assumes ok: "framed_ok decode c0 delivered f" and again: "framed_pass decode (logged poll_inner) cap f = Again g"
    and finite: "\<And>n s s' b bs. poll_inner n s = (Ready (Inr (b # bs)), s') \<Longrightarrow> (gives s' :: nat) < gives s"
  shows "((gives (fst (fr_inner g)), framed_left g), (gives (fst (fr_inner f)), framed_left f)) \<in> less_than <*lex*> less_than"
proof -
  have drained: "framed_drain cap f = None" using again by (auto simp: framed_pass_def split: option.splits)
  then have held: "framed_held f = []" by (auto simp: framed_drain_def framed_held_def Let_def split: if_splits)
  have opaque: "\<not> fr_transparent f"
    using again ok drained by (auto simp: framed_pass_def framed_ok_def split: prod.splits if_splits)
  show ?thesis
  proof (cases "fr_coded_at f < length (fr_coded f)")
    case False
    then have "framed_refill (logged poll_inner) f = Again g" using again drained opaque by (simp add: framed_pass_def)
    then have "gives (fst (fr_inner g)) < gives (fst (fr_inner f))" using refill_again [where gives = gives] finite by blast
    then show ?thesis by simp
  next
    case True
    then have "framed_decode decode (logged poll_inner) f = Again g"
      using again drained opaque by (simp add: framed_pass_def)
    then show ?thesis using decode_again [OF ok opaque held True] finite by blast
  qed
qed

lemma poll_read_returns:
  assumes finite: "\<And>n s s' b bs. poll_inner n s = (Ready (Inr (b # bs)), s') \<Longrightarrow> (gives s' :: nat) < gives s"
    and "framed_ok decode c0 delivered f"
  shows "\<exists>rf. poll_read decode (logged poll_inner) cap f = Some rf"
  using assms(2)
proof (induction "(gives (fst (fr_inner f)), framed_left f)" arbitrary: f
    rule: wf_induct_rule [OF wf_lex_prod [OF wf_less_than wf_less_than]])
  case (1 f)
  show ?case
  proof (cases "framed_pass decode (logged poll_inner) cap f")
    case (Finish r g)
    then show ?thesis by (subst poll_read.simps) simp
  next
    case (Again g)
    then have "framed_ok decode c0 delivered g" using pass_ok [OF 1(2) refl, of poll_inner cap] by simp
    then have "\<exists>rf. poll_read decode (logged poll_inner) cap g = Some rf"
      using 1(1) [OF pass_again [where gives = gives, OF 1(2) Again]] finite by blast
    then show ?thesis using Again by (subst poll_read.simps) simp
  qed
qed

text \<open>
  Reading a scripted stream whose bytes decode. No pass fails, a pass that is not ready has used up a pause, and a pass
  that ends the stream has used up the script.
\<close>

lemma script_decodes:
  assumes ok: "framed_ok decode c0 delivered f" and s: "script_ok wire (fr_inner f)" and "\<not> fr_transparent f"
    and more: "fr_coded_at f < length (fr_coded f)" and whole: "yields decode (c0, False, wire) out (c', t', [])"
  shows "fst (decode (fr_codec f) (drop (fr_coded_at f) (fr_coded f)) []) \<noteq> Inl e"
proof
  let ?h = "drop (fr_coded_at f) (fr_coded f)" and ?later = "arrivals (fst (fr_inner f))"
  assume "fst (decode (fr_codec f) ?h []) = Inl e"
  then obtain p c where "decode (fr_codec f) ?h [] = (Inl e, p, c)" by (metis prod.collapse)
  then have bad: "fst (decode (fr_codec f) (?h @ ?later) []) = Inl e" by (rule failed_more)
  have "yields decode (c0, False, wire) (delivered @ framed_held f) (fr_codec f, False, ?h @ ?later)"
    using yields_more [of c0 False "snd (fr_inner f)" "delivered @ framed_held f" "fr_codec f" False ?h ?later] ok s assms(3)
    by (simp add: framed_ok_def script_ok_def)
  from yields_linear [OF this whole] show False
  proof
    assume "\<exists>d. yields decode (fr_codec f, False, ?h @ ?later) d (c', t', []) \<and> out = (delivered @ framed_held f) @ d"
    then obtain d where "yields decode (fr_codec f, False, ?h @ ?later) d (c', t', [])" by blast
    then show False using bad more by (cases rule: yields_codecE [consumes 1]) auto
  next
    assume "\<exists>d. yields decode (c', t', []) d (fr_codec f, False, ?h @ ?later) \<and> delivered @ framed_held f = out @ d"
    then obtain d where "yields decode (c', t', []) d (fr_codec f, False, ?h @ ?later)" by blast
    from yields_rest [OF this] more show False by auto
  qed
qed

lemma decode_script:
  assumes ok: "framed_ok decode c0 delivered f" and s: "script_ok wire (fr_inner f)" and opaque: "\<not> fr_transparent f"
    and held: "framed_held f = []"
    and more: "fr_coded_at f < length (fr_coded f)" and whole: "yields decode (c0, False, wire) out (c', t', [])"
  shows "script_moves wire f (framed_decode decode (logged script_poll) f)"
proof -
  let ?h = "drop (fr_coded_at f) (fr_coded f)"
  have plain: "fr_plain f = []" using ok held by (auto simp: framed_ok_def framed_held_def)
  obtain res p c where d: "decode (fr_codec f) ?h [] = (res, p, c)" by (metis prod.exhaust)
  consider rest where "res = Inr (Transparent rest)" | rest where "res = Inr (Framed rest)"
    using script_decodes [OF ok s opaque more whole] d by (metis decode_result.exhaust fst_conv sum.exhaust)
  then show ?thesis
  proof cases
    case 1
    then show ?thesis using s by (simp add: framed_decode_def plain d script_moves_def)
  next
    case (2 rest)
    define g where "g = framed_skip (decode_consumed (Framed rest) ?h) (f\<lparr>fr_codec := c, fr_plain := p\<rparr>)"
    have inner: "fr_inner g = fr_inner f" by (simp add: g_def framed_skip_def Let_def)
    have "script_moves wire f (framed_refill (logged script_poll) g)"
      using refill_script [of wire g] s inner by (simp add: script_moves_def)
    moreover have "script_moves wire f (Again g)" using s inner by (simp add: script_moves_def)
    ultimately show ?thesis using 2 by (simp add: framed_decode_def plain d flip: g_def)
  qed
qed

lemma pass_script:
  assumes ok: "framed_ok decode c0 delivered f" and s: "script_ok wire (fr_inner f)" and cap: "0 < cap"
    and whole: "yields decode (c0, False, wire) out (c', t', [])"
  shows "script_moves wire f (framed_pass decode (logged script_poll) cap f)"
proof (cases "framed_drain cap f")
  case (Some mf)
  then have "fst mf \<noteq> []" "fr_inner (snd mf) = fr_inner f"
    using cap by (auto simp: framed_drain_def Let_def split: if_splits)
  then show ?thesis using Some s by (cases mf) (auto simp: framed_pass_def script_moves_def)
next
  case None
  then have held: "framed_held f = []" by (auto simp: framed_drain_def framed_held_def Let_def split: if_splits)
  obtain r t where poll: "logged script_poll cap (fr_inner f) = (r, t)" by (rule prod.exhaust)
  show ?thesis
  proof (cases "fr_transparent f")
    case True
    then have "fr_coded_at f = length (fr_coded f)" using ok by (auto simp: framed_ok_def)
    moreover have "\<not> pass_failed (Finish r (f\<lparr>fr_inner := t\<rparr>))"
      using script_step [OF poll cap s] by (cases "Finish r (f\<lparr>fr_inner := t\<rparr>)" rule: pass_failed.cases) auto
    ultimately show ?thesis
      using True None script_step [OF poll cap s] by (auto simp: framed_pass_def poll script_moves_def)
  next
    case False
    then show ?thesis
      using None decode_script [OF ok s False held _ whole] refill_script [OF s] by (simp add: framed_pass_def)
  qed
qed

lemma pass_read:
  assumes ok: "framed_ok decode c0 delivered f" and s: "script_ok wire (fr_inner f)" and cap: "0 < cap"
    and whole: "yields decode (c0, False, wire) out (c', t', [])"
    and q: "framed_pass decode (logged script_poll) cap f = Finish r g"
  shows "read_moves decode c0 wire out delivered f r g"
proof -
  have moves: "script_moves wire f (Finish r g)" using pass_script [OF ok s cap whole] q by simp
  then have good: "\<not> pass_failed (Finish r g)" by (simp add: script_moves_def)
  then have r: "\<forall>e. r \<noteq> Ready (Inl e)" by auto
  have gok: "framed_ok decode c0 (delivered @ poll_bytes r) g" "r = Ready (Inr []) \<Longrightarrow> framed_held g = []"
      "r = Ready (Inr []) \<Longrightarrow> fr_transparent g \<or> framed_stalled decode g"
    using pass_ok [OF ok q [symmetric]] good cap by auto
  have "delivered = out" if e: "r = Ready (Inr [])"
  proof -
    have "snd (fr_inner g) = wire" using moves e by (auto simp: script_moves_def script_ok_def arrivals_def)
    then show ?thesis
      using delivered_all [OF _ gok(2) [OF e] gok(3) [OF e]] gok(1) whole e by (simp add: poll_bytes_def)
  qed
  then show ?thesis using moves r gok(1) by (auto simp: read_moves_def script_moves_def)
qed

lemma poll_read_script:
  assumes "framed_ok decode c0 delivered f" and "script_ok wire (fr_inner f)" and cap: "0 < cap"
    and whole: "yields decode (c0, False, wire) out (c', t', [])"
  shows "\<exists>r f'. poll_read decode (logged script_poll) cap f = Some (r, f') \<and> read_moves decode c0 wire out delivered f r f'"
  using assms(1,2)
proof (induction "(length (arrivals (fst (fr_inner f))), framed_left f)" arbitrary: f
    rule: wf_induct_rule [OF wf_lex_prod [OF wf_less_than wf_less_than]])
  case (1 f)
  show ?case
  proof (cases "framed_pass decode (logged script_poll) cap f")
    case (Finish r g)
    then show ?thesis using pass_read [OF 1(2,3) cap whole] by (subst poll_read.simps) auto
  next
    case (Again g)
    have g: "framed_ok decode c0 delivered g" using pass_ok [OF 1(2) refl, of script_poll cap] Again by simp
    have moves: "script_ok wire (fr_inner g)" "pauses (fst (fr_inner g)) \<le> pauses (fst (fr_inner f))"
      using pass_script [OF 1(2,3) cap whole] Again by (auto simp: script_moves_def)
    have "\<exists>r f'. poll_read decode (logged script_poll) cap g = Some (r, f') \<and> read_moves decode c0 wire out delivered g r f'"
      using 1(1) [OF pass_again [where gives = "\<lambda>s. length (arrivals s)", OF 1(2) Again script_finite] g moves(1)] .
    then show ?thesis using Again moves(2) by (subst poll_read.simps) (auto simp: read_moves_def)
  qed
qed

text \<open>The whole stream is read, and exactly once, whatever the pieces, the pauses and the buffers.\<close>

lemma read_to_end_script:
  assumes caps: "\<And>i. 0 < caps i" and whole: "yields decode (c0, False, wire) out (c', t', [])"
  shows "framed_ok decode c0 delivered f \<Longrightarrow> script_ok wire (fr_inner f) \<Longrightarrow>
    read_to_end decode (logged script_poll) caps i delivered f = Some (Inr out)"
proof (induction "pauses (fst (fr_inner f)) + (length out - length delivered)" arbitrary: i delivered f rule: less_induct)
  case less
  obtain r f' where r: "poll_read decode (logged script_poll) (caps i) f = Some (r, f')"
      "read_moves decode c0 wire out delivered f r f'"
    using poll_read_script [OF less.prems caps whole] by blast
  note next_ok = r(2) [unfolded read_moves_def]
  consider "r = Pending" | "r = Ready (Inr [])" | b bs where "r = Ready (Inr (b # bs))"
    using next_ok by (metis list.exhaust poll.exhaust sum.exhaust)
  then show ?case
  proof cases
    case 1
    then have "read_to_end decode (logged script_poll) caps (Suc i) delivered f' = Some (Inr out)"
      using less.hyps [of f' delivered "Suc i"] next_ok by (simp add: poll_bytes_def)
    then show ?thesis using r(1) 1 by (subst read_to_end.simps) simp
  next
    case 2
    then show ?thesis using r(1) next_ok by (subst read_to_end.simps) simp
  next
    case (3 b bs)
    have ok: "framed_ok decode c0 (delivered @ b # bs) f'" "script_ok wire (fr_inner f')"
      using next_ok 3 by (auto simp: poll_bytes_def)
    have "yields decode (c0, False, snd (fr_inner f') @ arrivals (fst (fr_inner f'))) out (c', t', [])"
      using whole ok(2) by (simp add: script_ok_def)
    then obtain d where "out = (delivered @ b # bs) @ d" using delivered_prefix [OF ok(1)] by (metis append.assoc)
    then have "pauses (fst (fr_inner f')) + (length out - length (delivered @ b # bs)) <
        pauses (fst (fr_inner f)) + (length out - length delivered)"
      using next_ok by simp
    from less.hyps [OF this ok, of "Suc i"] show ?thesis using r(1) 3 by (subst read_to_end.simps) simp
  qed
qed

lemma reads_exactly:
  assumes "\<And>i. 0 < caps i" and "Some [] \<notin> set script" and "yields decode (c0, False, arrivals script) out (c', t', [])"
  shows "read_to_end decode (logged script_poll) caps 0 [] (framed_new w (script, []) c0) = Some (Inr out)"
proof (rule read_to_end_script [OF assms(1,3) framed_new_ok])
  show "script_ok (arrivals script) (fr_inner (framed_new w (script, []) c0))"
    using assms(2) by (simp add: script_ok_def framed_new_def)
qed

end

end
