(* ===== verification/Vless.thy ===== *)
theory Vless
  imports Sansio Planning
begin

text \<open>
  VLESS, \<^verbatim>\<open>src/egress/vless.rs\<close>: user identifiers, the request and response headers, the framing of
  datagrams on a stream and its reader, and the codec that strips the response header from a
  proxied stream. Transports, tasks and the inbound channel are not modelled: the reader returns
  the frames it offers to the channel.

  The text of a user identifier is the list of its bytes; a byte outside ASCII is no hexadecimal
  digit, and neither is the character it belongs to.
\<close>

section \<open>User identifiers\<close>

datatype user_id = UserId (user_bytes: bytes)

datatype user_id_error = UserIdLength nat | UserIdDigit

definition HYPHEN :: u8 where "HYPHEN = 45"

text \<open>\<open>char::to_digit(16)\<close> and the lower-case digit \<open>format\<close> writes.\<close>

definition hex_value :: "u8 \<Rightarrow> u8 option" where
  "hex_value c =
     (if 48 \<le> c \<and> c \<le> 57 then Some (c - 48)
      else if 97 \<le> c \<and> c \<le> 102 then Some (c - 87)
      else if 65 \<le> c \<and> c \<le> 70 then Some (c - 55)
      else None)"

definition hex_digit :: "u8 \<Rightarrow> u8" where
  "hex_digit v = (if v < 10 then v + 48 else v + 87)"

fun parse_digits :: "bytes \<Rightarrow> nat \<Rightarrow> bytes \<Rightarrow> user_id_error + (nat \<times> bytes)" where
  "parse_digits [] digits bs = Inr (digits, bs)"
| "parse_digits (c # cs) digits bs =
     (if c = HYPHEN then parse_digits cs digits bs
      else case hex_value c of
             None \<Rightarrow> Inl UserIdDigit
           | Some v \<Rightarrow>
               (if 32 \<le> digits then Inl (UserIdLength (digits + 1))
                else parse_digits cs (digits + 1)
                       (bs[digits div 2 := bs ! (digits div 2) OR push_bit (if even digits then 4 else 0) v])))"

definition user_parse :: "bytes \<Rightarrow> user_id_error + user_id" where
  "user_parse txt =
     (case parse_digits txt 0 (replicate 16 0) of
        Inl e \<Rightarrow> Inl e
      | Inr (digits, bs) \<Rightarrow> if digits \<noteq> 32 then Inl (UserIdLength digits) else Inr (UserId bs))"

fun show_digits :: "nat \<Rightarrow> bytes \<Rightarrow> bytes" where
  "show_digits i [] = []"
| "show_digits i (b # bs) =
     (if i = 4 \<or> i = 6 \<or> i = 8 \<or> i = 10 then [HYPHEN] else [])
     @ [hex_digit (drop_bit 4 b), hex_digit (b AND 15)] @ show_digits (Suc i) bs"

definition user_show :: "user_id \<Rightarrow> bytes" where
  "user_show u = show_digits 0 (user_bytes u)"

section \<open>Headers\<close>

definition VLESS_VERSION :: u8 where "VLESS_VERSION = 0"
definition COMMAND_TCP :: u8 where "COMMAND_TCP = 1"
definition COMMAND_UDP :: u8 where "COMMAND_UDP = 2"
definition VLESS_IPV4 :: u8 where "VLESS_IPV4 = 0x01"
definition VLESS_DOMAIN :: u8 where "VLESS_DOMAIN = 0x02"
definition VLESS_IPV6 :: u8 where "VLESS_IPV6 = 0x03"

definition encode_addr_port :: "target \<Rightarrow> bytes \<Rightarrow> bytes" where
  "encode_addr_port target out =
     (let out = writer_u16 (target_port target) out
      in case target of
           Ip (SocketV4 a _) \<Rightarrow> writer_bytes (octets4 a) (writer_u8 VLESS_IPV4 out)
         | Ip (SocketV6 a _ _ _) \<Rightarrow> writer_bytes (octets6 a) (writer_u8 VLESS_IPV6 out)
         | Domain host _ \<Rightarrow> writer_vector_u8 (as_str host) (writer_u8 VLESS_DOMAIN out))"

definition decode_addr_port :: "bytes \<Rightarrow> proxy_error + target decoded" where
  "decode_addr_port bs =
     (case reader_u16 (reader_new bs) of
        None \<Rightarrow> Inr Incomplete
      | Some (p, reader) \<Rightarrow>
          (case reader_u8 reader of
             None \<Rightarrow> Inr Incomplete
           | Some (atyp, reader) \<Rightarrow>
               if atyp \<noteq> VLESS_IPV4 \<and> atyp \<noteq> VLESS_IPV6 \<and> atyp \<noteq> VLESS_DOMAIN then Inl BadAddress
               else
                 (case address_body VLESS_IPV4 VLESS_IPV6 atyp reader of
                    None \<Rightarrow> Inr Incomplete
                  | Some (body, reader) \<Rightarrow>
                      (case address_target VLESS_IPV4 VLESS_IPV6 atyp body p of
                         Inl e \<Rightarrow> Inl e
                       | Inr t \<Rightarrow> Inr (Complete t (reader_position reader))))))"

definition vless_request :: "user_id \<Rightarrow> target \<Rightarrow> u8 \<Rightarrow> bytes \<Rightarrow> bytes" where
  "vless_request user target command out =
     encode_addr_port target
       (writer_u8 command (writer_u8 0 (writer_bytes (user_bytes user) (writer_u8 VLESS_VERSION out))))"

definition vless_encode_request :: "user_id \<Rightarrow> target \<Rightarrow> bytes \<Rightarrow> bytes" where
  "vless_encode_request user target out = vless_request user target COMMAND_TCP out"

definition encode_datagram_request :: "user_id \<Rightarrow> target \<Rightarrow> bytes \<Rightarrow> bytes" where
  "encode_datagram_request user target out = vless_request user target COMMAND_UDP out"

definition decode_response :: "bytes \<Rightarrow> proxy_error + unit decoded" where
  "decode_response bs =
     (case reader_u8 (reader_new bs) of
        None \<Rightarrow> Inr Incomplete
      | Some (version, reader) \<Rightarrow>
          (if version \<noteq> VLESS_VERSION then Inl (WrongVersion version)
           else case reader_vector_u8 reader of
                  None \<Rightarrow> Inr Incomplete
                | Some (_, reader) \<Rightarrow> Inr (Complete () (reader_position reader))))"

section \<open>Datagrams on a stream\<close>

definition LENGTH_PREFIX :: nat where "LENGTH_PREFIX = 2"

definition MAX_FRAME :: nat where "MAX_FRAME = 8192 - LENGTH_PREFIX"

definition vless_properties :: "nat_behavior \<Rightarrow> path_properties" where
  "vless_properties behavior =
     \<lparr>datagram_fidelity = Emulated, overhead_bytes = 0, max_datagram_size = Some (of_nat MAX_FRAME), preserves_ecn = False,
      nat_behavior = behavior\<rparr>"

text \<open>The bytes \<open>send_to\<close> writes for one payload.\<close>

definition vless_send :: "bytes \<Rightarrow> egress_error + bytes" where
  "vless_send payload =
     (if MAX_FRAME < length payload then Inl (DatagramTooLarge (length payload))
      else Inr (to_be_16 (of_nat (length payload)) @ payload))"

function take_frames :: "bytes \<Rightarrow> bytes list \<times> bytes" where
  "take_frames held =
     (case reader_u16 (reader_new held) of
        None \<Rightarrow> ([], held)
      | Some (w, _) \<Rightarrow>
          (let n = unat w
           in if length held < LENGTH_PREFIX + n then ([], held)
              else let payload = take n (drop LENGTH_PREFIX held);
                       (frames, rest) = take_frames (drop (LENGTH_PREFIX + n) held)
                   in (if 0 < n then payload # frames else frames, rest)))"
  by pat_completeness auto

termination take_frames
  by (relation "measure length") (auto simp: reader_u16_Some reader_new_def LENGTH_PREFIX_def)

declare take_frames.simps [simp del]

record vless_reader =
  vr_held :: bytes
  vr_header :: bool

definition vless_reader_new :: vless_reader where
  "vless_reader_new = \<lparr>vr_held = [], vr_header = False\<rparr>"

text \<open>One read of \<open>read_datagrams\<close>: the frames it offers to the channel, or nothing when the reader ends.\<close>

definition read_chunk :: "bytes \<Rightarrow> vless_reader \<Rightarrow> (bytes list \<times> vless_reader) option" where
  "read_chunk chunk r =
     (let held = vr_held r @ chunk
      in case (if vr_header r then Inr (Some held)
               else case decode_response held of
                      Inr (Complete _ consumed) \<Rightarrow> Inr (Some (drop consumed held))
                    | Inr Incomplete \<Rightarrow> Inr None
                    | Inl e \<Rightarrow> Inl e) of
           Inl _ \<Rightarrow> None
         | Inr None \<Rightarrow> Some ([], r\<lparr>vr_held := held\<rparr>)
         | Inr (Some held) \<Rightarrow>
             (let (frames, rest) = take_frames held in Some (frames, \<lparr>vr_held = rest, vr_header = True\<rparr>)))"

fun read_datagrams :: "bytes list \<Rightarrow> vless_reader \<Rightarrow> bytes list" where
  "read_datagrams [] r = []"
| "read_datagrams (chunk # chunks) r =
     (if chunk = [] then []
      else case read_chunk chunk r of
             None \<Rightarrow> []
           | Some (frames, r) \<Rightarrow> frames @ read_datagrams chunks r)"

text \<open>What \<open>recv_from\<close> makes of a payload taken from the channel, for a buffer of the given size.\<close>

definition vless_received :: "bytes \<Rightarrow> nat \<Rightarrow> egress_error + bytes" where
  "vless_received payload cap = (if cap < length payload then Inl (DatagramTooLarge (length payload)) else Inr payload)"

section \<open>The response header of a stream\<close>

record response_header =
  rh_stripped :: bool

definition response_header_new :: response_header where
  "response_header_new = \<lparr>rh_stripped = False\<rparr>"

definition response_decode :: "response_header decoder" where
  "response_decode c input out =
     (if rh_stripped c then (Inr (Transparent input), out, c)
      else case decode_response input of
             Inl e \<Rightarrow> (Inl e, out, c)
           | Inr (Complete _ consumed) \<Rightarrow>
               (let c = c\<lparr>rh_stripped := True\<rparr>
                in if consumed \<le> length input then (Inr (Transparent (drop consumed input)), out, c)
                   else (Inl BadHeader, out, c))
           | Inr Incomplete \<Rightarrow> (Inr (Framed input), out, c))"

definition response_writes :: writes where "response_writes = WritesVerbatim"

section \<open>The headers as decoders of a prefix\<close>

interpretation resp: prefix_decoder decode_response
proof
  have step: "decode_response (bs @ post) = decode_response bs \<and> (\<forall>v n. decode_response bs = Inr (Complete v n) \<longrightarrow> n \<le> length bs)"
    if decided: "decode_response bs \<noteq> Inr Incomplete" for bs post
  proof -
    obtain version r1 where r1: "reader_u8 (reader_new bs) = Some (version, r1)"
      using decided by (auto simp: decode_response_def split: option.splits)
    note r1' = reader_u8_extend [OF r1, of post, folded extend_new] reader_bounds_u8 [OF r1]
    show ?thesis
    proof (cases "version = VLESS_VERSION")
      case False
      then show ?thesis using r1 r1' by (simp add: decode_response_def)
    next
      case True
      then obtain x r2 where r2: "reader_vector_u8 r1 = Some (x, r2)"
        using decided r1 by (auto simp: decode_response_def split: option.splits)
      have "rd_at r2 \<le> length bs" using reader_bounds(2) [OF r2] r1'(2) by (auto simp: reader_new_def)
      then show ?thesis
        using True r1 r1'(1) r2 reader_vector_u8_extend [OF r2, of post]
        by (auto simp: decode_response_def reader_position_def with_tail_def)
    qed
  qed
  fix bs post :: bytes and v n e
  show "decode_response bs = Inr (Complete v n) \<Longrightarrow> decode_response (bs @ post) = Inr (Complete v n)"
    "decode_response bs = Inr (Complete v n) \<Longrightarrow> n \<le> length bs"
    "decode_response bs = Inl e \<Longrightarrow> decode_response (bs @ post) = Inl e"
    using step [of bs post] by auto
qed

interpretation vaddr: prefix_decoder decode_addr_port
proof
  have step: "decode_addr_port (bs @ post) = decode_addr_port bs \<and> (\<forall>t n. decode_addr_port bs = Inr (Complete t n) \<longrightarrow> n \<le> length bs)"
    if decided: "decode_addr_port bs \<noteq> Inr Incomplete" for bs post
  proof -
    obtain p r0 atyp r1 where r0: "reader_u16 (reader_new bs) = Some (p, r0)" and r1: "reader_u8 r0 = Some (atyp, r1)"
      using decided by (auto simp: decode_addr_port_def split: option.splits)
    note r0' = reader_u16_extend [OF r0, of post, folded extend_new] reader_bounds(1) [OF r0]
    note r1' = reader_u8_extend [OF r1, of post] reader_bounds_u8 [OF r1]
    show ?thesis
    proof (cases "atyp = VLESS_IPV4 \<or> atyp = VLESS_IPV6 \<or> atyp = VLESS_DOMAIN")
      case False
      then show ?thesis using r0 r0' r1 r1' by (simp add: decode_addr_port_def)
    next
      case True
      then obtain body r2 where r2: "address_body VLESS_IPV4 VLESS_IPV6 atyp r1 = Some (body, r2)"
        using decided r0 r1 by (auto simp: decode_addr_port_def split: option.splits)
      have at: "rd_at r1 \<le> length (rd_bytes r1)" "rd_bytes r1 = bs" using r0'(2) r1'(2) by (auto simp: reader_new_def)
      have "rd_at r2 \<le> length bs" using address_body_bounds [OF r2 at(1)] at(2) by auto
      then show ?thesis
        using True r0 r0'(1) r1 r1'(1) r2 address_body_extend [OF r2 at(1), of post]
        by (auto simp: decode_addr_port_def reader_position_def with_tail_def split: sum.splits)
    qed
  qed
  fix bs post :: bytes and t n e
  show "decode_addr_port bs = Inr (Complete t n) \<Longrightarrow> decode_addr_port (bs @ post) = Inr (Complete t n)"
    "decode_addr_port bs = Inr (Complete t n) \<Longrightarrow> n \<le> length bs"
    "decode_addr_port bs = Inl e \<Longrightarrow> decode_addr_port (bs @ post) = Inl e"
    using step [of bs post] by auto
qed

interpretation vless: framing response_decode
proof
  fix c :: response_header and input out post rest p :: bytes and c' :: response_header
  show "response_decode c input out = map_prod id (map_prod ((@) out) id) (response_decode c input [])"
    by (auto simp: response_decode_def Let_def split: sum.splits decoded.splits)
  show "\<exists>used. input = used @ rest" if "response_decode c input [] = (Inr (Framed rest), p, c')"
    using that by (auto simp: response_decode_def Let_def split: if_splits sum.splits decoded.splits)
  show "p = [] \<and> c' = c" if "response_decode c input [] = (Inr (Framed input), p, c')"
    using that by (auto simp: response_decode_def Let_def split: if_splits sum.splits decoded.splits)
  show "response_decode c (input @ post) [] = (Inr (Framed (rest @ post)), p, c')"
    if "response_decode c input [] = (Inr (Framed rest), p, c')" "rest \<noteq> input"
    using that by (auto simp: response_decode_def Let_def split: if_splits sum.splits decoded.splits)
  show "response_decode c (input @ post) [] = (Inr (Transparent (rest @ post)), p, c')"
    if "response_decode c input [] = (Inr (Transparent rest), p, c')"
    using that resp.complete_stable [of input _ _ post]
    by (auto simp: response_decode_def Let_def split: if_splits sum.splits decoded.splits)
  show "rest = [] \<and> p = []" if "response_decode c [] [] = (Inr (Transparent rest), p, c')"
    using that by (auto simp: response_decode_def Let_def split: if_splits sum.splits decoded.splits)
  show "fst (response_decode c (input @ post) []) = Inl e" if "response_decode c input [] = (Inl e, p, c')" for e
    using that resp.error_stable [of input _ post] resp.complete_bound [of input]
    by (auto simp: response_decode_def Let_def split: if_splits sum.splits decoded.splits)
qed

section \<open>User identifiers in text\<close>

lemma hex_round:
  assumes "v < 16"
  shows "hex_value (hex_digit v) = Some v" and "hex_digit v \<noteq> HYPHEN"
proof -
  obtain n where n: "v = of_nat n" "n < 16"
    using assms by (intro that [of "unat v"]) (simp_all add: word_less_nat_alt)
  have "\<forall>k \<in> set [0..<16]. hex_value (hex_digit (of_nat k)) = Some (of_nat k) \<and> hex_digit (of_nat k) \<noteq> HYPHEN"
    by code_simp
  then show "hex_value (hex_digit v) = Some v" "hex_digit v \<noteq> HYPHEN" using n by simp_all
qed

lemma nibbles: "push_bit 4 (drop_bit 4 b) OR (b AND 15) = (b :: u8)"
proof (rule bit_word_eqI)
  fix n
  assume n: "n < LENGTH(8)"
  have mask: "(15 :: u8) = mask 4" by (simp add: mask_eq_exp_minus_1)
  show "bit (push_bit 4 (drop_bit 4 b) OR (b AND 15)) n \<longleftrightarrow> bit b n"
    unfolding mask bit_or_iff bit_push_bit_iff bit_drop_bit_eq bit_and_iff bit_mask_iff
    using n by (cases "n < 4") auto
qed

lemma nibble_lt: "drop_bit 4 (b :: u8) < 16" "(b AND 15) < (16 :: u8)"
proof -
  have "unat (drop_bit 4 b) = unat b div 16" by (simp only: unat_drop_bit_eq drop_bit_nat_def) simp
  then show "drop_bit 4 b < 16" by (simp add: word_less_nat_alt less_mult_imp_div_less)
  have "unat (b AND 15) = unat b mod 16" using unat_and_mask [of b 4] by (simp add: mask_eq_exp_minus_1)
  then show "(b AND 15) < 16" by (simp add: word_less_nat_alt)
qed

lemma parse_hyphen: "parse_digits (HYPHEN # cs) k bs = parse_digits cs k bs" by simp

lemma parse_digit:
  assumes "v < 16" and "k < 32"
  shows "parse_digits (hex_digit v # cs) k bs =
     parse_digits cs (Suc k) (bs[k div 2 := bs ! (k div 2) OR push_bit (if even k then 4 else 0) v])"
  using hex_round [OF assms(1)] assms(2) by simp

lemma parse_byte:
  assumes "length pre = i" and "i < 16"
  shows "parse_digits (hex_digit (drop_bit 4 b) # hex_digit (b AND 15) # cs) (2 * i) (pre @ 0 # post) =
     parse_digits cs (2 * Suc i) ((pre @ [b]) @ post)"
  using assms parse_digit [OF nibble_lt(1) [of b], of "2 * i"] parse_digit [OF nibble_lt(2) [of b], of "Suc (2 * i)"]
  by (simp add: list_update_append nth_append nibbles del: parse_digits.simps)

lemma parse_show_digits:
  "length pre = i \<Longrightarrow> i + length bs \<le> 16 \<Longrightarrow>
   parse_digits (show_digits i bs) (2 * i) (pre @ replicate (length bs) 0) = Inr (2 * (i + length bs), pre @ bs)"
proof (induction bs arbitrary: i pre)
  case (Cons b bs)
  have "parse_digits (show_digits i (b # bs)) (2 * i) (pre @ replicate (length (b # bs)) 0) =
      parse_digits (show_digits (Suc i) bs) (2 * Suc i) ((pre @ [b]) @ replicate (length bs) 0)"
    using parse_byte [of pre i b "show_digits (Suc i) bs" "replicate (length bs) 0"] Cons.prems
    by (simp only: show_digits.simps append_Cons append_Nil parse_hyphen if_distrib if_cancel length_Cons replicate_Suc split: if_split) simp
  then show ?case using Cons.IH [of "pre @ [b]" "Suc i"] Cons.prems by (simp only:) simp
qed simp

text \<open>The canonical text of a user identifier reads back as the identifier.\<close>

theorem user_text_round_trip:
  assumes "length (user_bytes u) = 16"
  shows "user_parse (user_show u) = Inr u"
  using parse_show_digits [of "[]" 0 "user_bytes u"] assms by (simp add: user_parse_def user_show_def)

section \<open>Frames under any chunking\<close>

definition frame_wire :: "bytes \<Rightarrow> bytes" where
  "frame_wire payload = to_be_16 (of_nat (length payload)) @ payload"

lemma take_frames_short: "length held < 2 \<Longrightarrow> take_frames held = ([], held)"
  by (subst take_frames.simps) (auto simp: reader_u16_Some reader_new_def split: option.splits)

lemma take_frames_wait:
  "2 \<le> length held \<Longrightarrow> length held < 2 + unat (from_be (take 2 held) :: u16) \<Longrightarrow> take_frames held = ([], held)"
  by (subst take_frames.simps)
    (simp add: reader_u16_def reader_array_def reader_new_def reader_rest_def LENGTH_PREFIX_def Let_def)

lemma take_frames_frame:
  assumes "2 \<le> length held" and "n = unat (from_be (take 2 held) :: u16)" and "2 + n \<le> length held"
  shows "take_frames held = (let (frames, rest) = take_frames (drop (2 + n) held)
     in (if 0 < n then take n (drop 2 held) # frames else frames, rest))"
  using assms(1,3) unfolding assms(2)
  by (subst take_frames.simps)
    (simp add: reader_u16_def reader_array_def reader_new_def reader_rest_def LENGTH_PREFIX_def Let_def)

lemma take_frames_cases:
  obtains (wait) "take_frames held = ([], held)"
  | (frame) n where "2 \<le> length held" "n = unat (from_be (take 2 held) :: u16)" "2 + n \<le> length held"
  using take_frames_short take_frames_wait by (metis not_le)

lemma take_frames_more:
  "take_frames held = (fs, rest) \<Longrightarrow>
   take_frames (held @ post) = (let (gs, r) = take_frames (rest @ post) in (fs @ gs, r)) \<and> take_frames rest = ([], rest)"
proof (induction "length held" arbitrary: held fs rule: less_induct)
  case less
  show ?case
  proof (cases held rule: take_frames_cases)
    case wait
    then show ?thesis using less.prems by (auto split: prod.splits)
  next
    case (frame n)
    obtain gs where tl: "take_frames (drop (2 + n) held) = (gs, rest)"
        and fs: "fs = (if 0 < n then take n (drop 2 held) # gs else gs)"
      using take_frames_frame [OF frame] less.prems by (auto split: prod.splits if_splits)
    have IH: "take_frames (drop (2 + n) held @ post) = (let (hs, r) = take_frames (rest @ post) in (gs @ hs, r))"
        "take_frames rest = ([], rest)"
      using less.hyps [OF _ tl] frame(1) by auto
    have "take_frames (held @ post) = (let (frames, r) = take_frames (drop (2 + n) (held @ post))
        in (if 0 < n then take n (drop 2 (held @ post)) # frames else frames, r))"
      using frame by (intro take_frames_frame) auto
    moreover have "drop (2 + n) (held @ post) = drop (2 + n) held @ post" "take n (drop 2 (held @ post)) = take n (drop 2 held)"
      using frame by simp_all
    ultimately have "take_frames (held @ post) = (let (frames, r) = take_frames (drop (2 + n) held @ post)
        in (if 0 < n then take n (drop 2 held) # frames else frames, r))" by (simp only:)
    then show ?thesis using IH(2) unfolding IH(1) fs by (simp add: case_prod_unfold Let_def)
  qed
qed

lemma take_frames_wire:
  "list_all (\<lambda>p. length p \<le> MAX_FRAME) ps \<Longrightarrow> take_frames (concat (map frame_wire ps)) = (filter (\<lambda>p. p \<noteq> []) ps, [])"
proof (induction ps)
  case (Cons p ps)
  have n: "unat (of_nat (length p) :: u16) = length p"
    using Cons.prems by (simp add: unat_of_nat MAX_FRAME_def LENGTH_PREFIX_def)
  let ?held = "concat (map frame_wire (p # ps))"
  have "take_frames ?held = (let (frames, rest) = take_frames (drop (2 + length p) ?held)
     in (if 0 < length p then take (length p) (drop 2 ?held) # frames else frames, rest))"
    by (rule take_frames_frame) (simp_all add: frame_wire_def n)
  moreover have "drop (2 + length p) ?held = concat (map frame_wire ps)" "take (length p) (drop 2 ?held) = p"
    by (simp_all add: frame_wire_def)
  ultimately show ?case using Cons by (simp only:) simp
qed (simp add: take_frames_short)

text \<open>What a whole stream carries, in one piece.\<close>

definition vless_stream :: "bytes \<Rightarrow> bytes list" where
  "vless_stream bs = (case decode_response bs of Inr (Complete _ n) \<Rightarrow> fst (take_frames (drop n bs)) | _ \<Rightarrow> [])"

lemma read_frames:
  "list_all (\<lambda>c. c \<noteq> []) chunks \<Longrightarrow> vr_header r \<Longrightarrow> take_frames (vr_held r) = ([], vr_held r) \<Longrightarrow>
   read_datagrams chunks r = fst (take_frames (vr_held r @ concat chunks))"
proof (induction chunks arbitrary: r)
  case (Cons c cs)
  obtain fs rest where t: "take_frames (vr_held r @ c) = (fs, rest)" by fastforce
  note more = take_frames_more [OF t, of "concat cs"]
  have "read_datagrams (c # cs) r = fs @ read_datagrams cs \<lparr>vr_held = rest, vr_header = True\<rparr>"
    using Cons.prems t by (simp add: read_chunk_def Let_def)
  also have "\<dots> = fst (take_frames (vr_held r @ concat (c # cs)))"
    using Cons.IH [of "\<lparr>vr_held = rest, vr_header = True\<rparr>"] Cons.prems(1) more by (simp add: case_prod_unfold Let_def)
  finally show ?case .
qed simp

lemma read_stream:
  "list_all (\<lambda>c. c \<noteq> []) chunks \<Longrightarrow> decode_response held = Inr Incomplete \<Longrightarrow>
   read_datagrams chunks \<lparr>vr_held = held, vr_header = False\<rparr> = vless_stream (held @ concat chunks)"
proof (induction chunks arbitrary: held)
  case (Cons c cs)
  show ?case
  proof (cases "decode_response (held @ c)")
    case (Inl e)
    then show ?thesis
      using Cons.prems resp.error_stable [OF Inl, of "concat cs"] by (simp add: read_chunk_def vless_stream_def Let_def)
  next
    case (Inr d)
    show ?thesis
    proof (cases d)
      case Incomplete
      then show ?thesis using Cons Inr by (simp add: read_chunk_def Let_def)
    next
      case (Complete u n)
      obtain fs rest where t: "take_frames (drop n (held @ c)) = (fs, rest)" by fastforce
      note more = take_frames_more [OF t, of "concat cs"]
      have n: "n \<le> length (held @ c)" and stable: "decode_response ((held @ c) @ concat cs) = Inr (Complete u n)"
        using resp.complete_bound resp.complete_stable Inr Complete by blast+
      have "read_datagrams (c # cs) \<lparr>vr_held = held, vr_header = False\<rparr> = fs @ read_datagrams cs \<lparr>vr_held = rest, vr_header = True\<rparr>"
        using Cons.prems t Inr Complete by (simp add: read_chunk_def Let_def del: drop_append)
      also have "\<dots> = vless_stream (held @ concat (c # cs))"
        using read_frames [of cs "\<lparr>vr_held = rest, vr_header = True\<rparr>"] Cons.prems(1) more n stable
        by (simp add: vless_stream_def case_prod_unfold Let_def)
      finally show ?thesis .
    qed
  qed
qed (simp add: vless_stream_def)

lemma decode_response_wire:
  assumes "length addons < 256"
  shows "decode_response (VLESS_VERSION # of_nat (length addons) # addons @ rest) = Inr (Complete () (2 + length addons))"
proof -
  let ?bs = "VLESS_VERSION # of_nat (length addons) # addons @ rest"
  let ?r = "(reader_new ?bs)\<lparr>rd_at := 1\<rparr>"
  have "reader_u8 (reader_new ?bs) = Some (VLESS_VERSION, ?r)"
    by (subst reader_u8_at) (auto simp: reader_rest_def reader_new_def)
  moreover have "reader_vector_u8 ?r = Some (addons, ?r\<lparr>rd_at := 1 + 1 + length addons\<rparr>)"
    using assms by (subst reader_vector_u8_at [of _ addons rest]) (auto simp: reader_rest_def reader_new_def)
  ultimately show ?thesis by (simp add: decode_response_def reader_position_def)
qed

text \<open>
  C36. Datagrams sent over a VLESS stream arrive as they were sent: the frames of any payloads that
  \<open>send_to\<close> accepts, behind a response header with any addons and cut in any way into reads, are
  delivered in order, the empty ones left out.
\<close>

theorem datagrams_any_chunks:
  assumes "list_all (\<lambda>c. c \<noteq> []) chunks" and "length addons < 256"
    and "list_all2 (\<lambda>p frame. vless_send p = Inr frame) payloads frames"
    and "concat chunks = VLESS_VERSION # of_nat (length addons) # addons @ concat frames"
  shows "read_datagrams chunks vless_reader_new = filter (\<lambda>p. p \<noteq> []) payloads"
proof -
  have frames: "frames = map frame_wire payloads" "list_all (\<lambda>p. length p \<le> MAX_FRAME) payloads"
    using assms(3) by (induction rule: list_all2_induct) (auto simp: vless_send_def frame_wire_def split: if_splits)
  let ?bs = "VLESS_VERSION # of_nat (length addons) # addons @ concat frames"
  have "vless_stream ?bs = filter (\<lambda>p. p \<noteq> []) payloads"
    using decode_response_wire [OF assms(2)] take_frames_wire [OF frames(2)] frames(1) by (simp add: vless_stream_def)
  moreover have "decode_response [] = Inr Incomplete"
    by (simp add: decode_response_def reader_u8_def reader_array_def reader_rest_def reader_new_def)
  ultimately show ?thesis
    using read_stream [OF assms(1), of "[]"] assms(4) by (simp add: vless_reader_new_def)
qed

theorem datagrams_any_chunks_witness:
  "read_datagrams [[0], [1, 7, 0], [2, 8], [9, 0, 0]] vless_reader_new = [[8, 9]]"
proof -
  have "vless_send [8, 9] = Inr [0, 2, 8, 9]" "vless_send [] = Inr [0, 0]"
    by (simp_all add: vless_send_def MAX_FRAME_def LENGTH_PREFIX_def to_be_16_pair)
  then show ?thesis
    using datagrams_any_chunks [of "[[0], [1, 7, 0], [2, 8], [9, 0, 0]]" "[7]" "[[8, 9], []]" "[[0, 2, 8, 9], [0, 0]]"]
    by (simp add: VLESS_VERSION_def)
qed

section \<open>Streams\<close>

lemma response_yields:
  assumes "length addons < 256"
  shows "yields response_decode (response_header_new, False, VLESS_VERSION # of_nat (length addons) # addons @ payload)
     payload (\<lparr>rh_stripped = True\<rparr>, True, [])"
proof -
  have "response_decode response_header_new (VLESS_VERSION # of_nat (length addons) # addons @ payload) [] =
      (Inr (Transparent payload), [], \<lparr>rh_stripped = True\<rparr>)"
    using decode_response_wire [OF assms, of payload] by (simp add: response_decode_def response_header_new_def)
  then show ?thesis using yields.transparent [OF _ yields_pass] by fastforce
qed

text \<open>
  C37. A proxied VLESS stream reads as exactly the bytes after the response header. However the network cuts the bytes
  into pieces, whenever a poll finds nothing ready, and whatever non-empty buffers the caller offers, reading until
  the end of the stream is reported comes to an end without an error and gives those bytes, in order and complete.
\<close>

theorem vless_stream_reads:
  assumes "length addons < 256" and "arrivals script = VLESS_VERSION # of_nat (length addons) # addons @ payload"
    and "Some [] \<notin> set script" and "\<And>i. 0 < caps i"
  shows "read_to_end response_decode (logged script_poll) caps 0 []
     (framed_new response_writes (script, []) response_header_new) = Some (Inr payload)"
  using vless.reads_exactly [where caps = caps, OF assms(4,3)] response_yields [OF assms(1), of payload] unfolding assms(2) by blast

theorem vless_stream_reads_witness:
  "read_to_end response_decode (logged script_poll) (\<lambda>_. 1) 0 []
     (framed_new response_writes ([Some [0], None, Some [1, 9, 5], Some [6, 7]], []) response_header_new) = Some (Inr [5, 6, 7])"
  using vless_stream_reads [of "[9]" "[Some [0], None, Some [1, 9, 5], Some [6, 7]]" "[5, 6, 7]" "\<lambda>_. 1"]
  by (simp add: arrivals_def VLESS_VERSION_def)

end
