(* ===== verification/Socks5.thy ===== *)
theory Socks5
  imports Sansio Planning
begin

text \<open>
  SOCKS5, \<^verbatim>\<open>src/egress/socks5.rs\<close>: the messages of RFC 1928 and 1929, the negotiation state machine,
  the datagram form and the choice of the relay's address. The sockets are not modelled.
\<close>

section \<open>Messages\<close>

definition SOCKS_VERSION :: u8 where "SOCKS_VERSION = 5"
definition AUTH_VERSION :: u8 where "AUTH_VERSION = 1"
definition CMD_CONNECT :: u8 where "CMD_CONNECT = 1"
definition CMD_UDP_ASSOCIATE :: u8 where "CMD_UDP_ASSOCIATE = 3"
definition METHOD_NONE :: u8 where "METHOD_NONE = 0x00"
definition METHOD_USERPASS :: u8 where "METHOD_USERPASS = 0x02"
definition METHOD_UNACCEPTABLE :: u8 where "METHOD_UNACCEPTABLE = 0xff"

record credentials =
  cr_username :: bytes
  cr_password :: bytes

datatype credentials_error = UsernameLength nat | PasswordLength nat

definition credentials_new :: "bytes \<Rightarrow> bytes \<Rightarrow> credentials_error + credentials" where
  "credentials_new username password =
     (if \<not> (1 \<le> length username \<and> length username \<le> 255) then Inl (UsernameLength (length username))
      else if \<not> (1 \<le> length password \<and> length password \<le> 255) then Inl (PasswordLength (length password))
      else Inr \<lparr>cr_username = username, cr_password = password\<rparr>)"

definition encode_greeting :: "credentials option \<Rightarrow> bytes \<Rightarrow> bytes" where
  "encode_greeting creds out =
     (let out = writer_u8 SOCKS_VERSION out
      in case creds of
           Some _ \<Rightarrow> writer_bytes [2, METHOD_NONE, METHOD_USERPASS] out
         | None \<Rightarrow> writer_bytes [1, METHOD_NONE] out)"

definition decode_method_selection :: "bytes \<Rightarrow> proxy_error + u8 decoded" where
  "decode_method_selection bs =
     (case reader_array 2 (reader_new bs) of
        None \<Rightarrow> Inr Incomplete
      | Some (a, _) \<Rightarrow>
          (let version = a ! 0; chosen = a ! 1
           in if version \<noteq> SOCKS_VERSION then Inl (WrongVersion version)
              else if chosen = METHOD_UNACCEPTABLE then Inl NoAcceptableMethod
              else if chosen = METHOD_NONE \<or> chosen = METHOD_USERPASS then Inr (Complete chosen 2)
              else Inl (UnexpectedMethod chosen)))"

definition encode_request :: "u8 \<Rightarrow> target \<Rightarrow> bytes \<Rightarrow> bytes" where
  "encode_request command target out =
     encode_address target (writer_u8 0 (writer_u8 command (writer_u8 SOCKS_VERSION out)))"

definition decode_reply :: "bytes \<Rightarrow> proxy_error + target decoded" where
  "decode_reply bs =
     (case reader_array 3 (reader_new bs) of
        None \<Rightarrow> Inr Incomplete
      | Some (a, reader) \<Rightarrow>
          (let version = a ! 0; code = a ! 1
           in if version \<noteq> SOCKS_VERSION then Inl (WrongVersion version)
              else let reply = reply_from_byte code
                   in if reply \<noteq> Succeeded then Inl (Refused reply)
                      else case decode_address (reader_rest reader) of
                             Inl e \<Rightarrow> Inl e
                           | Inr Incomplete \<Rightarrow> Inr Incomplete
                           | Inr (Complete v consumed) \<Rightarrow> Inr (Complete v (3 + consumed))))"

text \<open>The buffer is cleared first.\<close>

definition encode_datagram :: "target \<Rightarrow> bytes \<Rightarrow> bytes \<Rightarrow> bytes" where
  "encode_datagram target payload out =
     writer_bytes payload (encode_address target (writer_bytes [0, 0, 0] []))"

definition decode_datagram :: "bytes \<Rightarrow> proxy_error + (target \<times> bytes)" where
  "decode_datagram bs =
     (case reader_array 3 (reader_new bs) of
        None \<Rightarrow> Inl BadAddress
      | Some (a, reader) \<Rightarrow>
          (if a ! 2 \<noteq> 0 then Inl FragmentedDatagram
           else let rest = reader_rest reader
                in case decode_address rest of
                     Inl e \<Rightarrow> Inl e
                   | Inr Incomplete \<Rightarrow> Inl BadAddress
                   | Inr (Complete v consumed) \<Rightarrow> Inr (v, drop consumed rest)))"

definition encode_credentials :: "credentials \<Rightarrow> bytes \<Rightarrow> bytes" where
  "encode_credentials c out =
     writer_vector_u8 (cr_password c) (writer_vector_u8 (cr_username c) (writer_u8 AUTH_VERSION out))"

section \<open>The negotiation\<close>

datatype phase = Selecting | Authenticating | Requesting

record socks_machine =
  ng_credentials :: "credentials option"
  ng_command :: u8
  ng_target :: target
  ng_phase :: phase
  ng_at :: nat

definition negotiate_new :: "credentials option \<Rightarrow> u8 \<Rightarrow> target \<Rightarrow> socks_machine" where
  "negotiate_new creds command target =
     \<lparr>ng_credentials = creds, ng_command = command, ng_target = target, ng_phase = Selecting, ng_at = 0\<rparr>"

fun phases_left :: "phase \<Rightarrow> nat" where
  "phases_left Selecting = 2"
| "phases_left Authenticating = 1"
| "phases_left Requesting = 0"

function socks_advance :: "(socks_machine, target) advancer" where
  "socks_advance m input out =
     (let rest = drop (ng_at m) input
      in case ng_phase m of
           Selecting \<Rightarrow>
             (if ng_at m = 0 \<and> input = [] \<and> out = []
              then (Inr Incomplete, encode_greeting (ng_credentials m) out, m)
              else case decode_method_selection rest of
                     Inl e \<Rightarrow> (Inl e, out, m)
                   | Inr Incomplete \<Rightarrow> (Inr Incomplete, out, m)
                   | Inr (Complete chosen consumed) \<Rightarrow>
                       (let m = m\<lparr>ng_at := ng_at m + consumed\<rparr>
                        in if chosen = METHOD_USERPASS
                           then case ng_credentials m of
                                  None \<Rightarrow> (Inl (UnexpectedMethod METHOD_USERPASS), out, m)
                                | Some c \<Rightarrow>
                                    socks_advance (m\<lparr>ng_phase := Authenticating\<rparr>) input (encode_credentials c out)
                           else socks_advance (m\<lparr>ng_phase := Requesting\<rparr>) input
                                  (encode_request (ng_command m) (ng_target m) out)))
         | Authenticating \<Rightarrow>
             (case reader_array 2 (reader_new rest) of
                None \<Rightarrow> (Inr Incomplete, out, m)
              | Some (a, _) \<Rightarrow>
                  (if a ! 0 \<noteq> AUTH_VERSION then (Inl (WrongVersion (a ! 0)), out, m)
                   else if a ! 1 \<noteq> 0 then (Inl AuthFailed, out, m)
                   else socks_advance (m\<lparr>ng_at := ng_at m + 2, ng_phase := Requesting\<rparr>) input
                          (encode_request (ng_command m) (ng_target m) out)))
         | Requesting \<Rightarrow>
             (case decode_reply rest of
                Inl e \<Rightarrow> (Inl e, out, m)
              | Inr Incomplete \<Rightarrow> (Inr Incomplete, out, m)
              | Inr (Complete v consumed) \<Rightarrow> (Inr (Complete v (ng_at m + consumed)), out, m)))"
  by pat_completeness auto

termination socks_advance
  by (relation "measure (\<lambda>(m, _, _). phases_left (ng_phase m))") auto

declare socks_advance.simps [simp del]

section \<open>The datagram relay\<close>

fun is_unspecified :: "ip_addr \<Rightarrow> bool" where
  "is_unspecified (V4 a) = (a = 0)"
| "is_unspecified (V6 a) = (a = 0)"

definition relay_address :: "socket_addr \<Rightarrow> socket_addr \<Rightarrow> socket_addr" where
  "relay_address bound proxy =
     (if is_unspecified (socket_ip bound) then socket_new (socket_ip proxy) (socket_port bound) else bound)"

definition socks_properties :: "nat_behavior \<Rightarrow> path_properties" where
  "socks_properties behavior =
     \<lparr>datagram_fidelity = Native, overhead_bytes = 0, max_datagram_size = None, preserves_ecn = False, nat_behavior = behavior\<rparr>"

definition MAX_DATAGRAM_HEADER :: nat where "MAX_DATAGRAM_HEADER = 4 + 1 + 255 + 2"

definition whole_datagram :: "nat \<Rightarrow> nat \<Rightarrow> egress_error + unit" where
  "whole_datagram written expected = (if written = expected then Inr () else Inl (Io WriteZero))"

text \<open>What \<open>recv_from\<close> makes of one received datagram, for a caller's buffer of the given size.\<close>

definition socks_received :: "bytes \<Rightarrow> nat \<Rightarrow> egress_error + (bytes \<times> target)" where
  "socks_received datagram cap =
     (case decode_datagram datagram of
        Inl e \<Rightarrow> Inl (Proxy e)
      | Inr (origin, payload) \<Rightarrow>
          (if cap < length payload then Inl (DatagramTooLarge (length payload)) else Inr (payload, origin)))"

section \<open>The messages as decoders of a prefix\<close>

lemma reader_array_new:
  "reader_array n (reader_new bs) = (if n \<le> length bs then Some (take n bs, \<lparr>rd_bytes = bs, rd_at = n\<rparr>) else None)"
  by (simp add: reader_array_def reader_new_def reader_rest_def)

lemma selection_short: "length bs < 2 \<Longrightarrow> decode_method_selection bs = Inr Incomplete"
  by (simp add: decode_method_selection_def reader_array_new)

lemma selection_pair: "decode_method_selection (v # m # rest) = decode_method_selection [v, m]"
  by (simp add: decode_method_selection_def reader_array_new)

lemma selection_complete: "decode_method_selection [v, m] = Inr (Complete x n) \<Longrightarrow> n = 2"
  by (simp add: decode_method_selection_def reader_array_new split: if_splits)

interpretation selection: prefix_decoder decode_method_selection
proof
  fix bs post :: bytes and v n e
  consider "length bs < 2" | a b rest where "bs = a # b # rest"
    by (metis One_nat_def Suc_1 length_Cons less_Suc_eq list.exhaust list.size(3) zero_less_Suc)
  then have "decode_method_selection bs = Inr Incomplete
      \<or> decode_method_selection (bs @ post) = decode_method_selection bs
        \<and> (decode_method_selection bs = Inr (Complete v n) \<longrightarrow> n \<le> length bs)"
  proof cases
    case (2 a b rest)
    have "decode_method_selection (bs @ post) = decode_method_selection [a, b]" "decode_method_selection bs = decode_method_selection [a, b]"
      unfolding 2 append_Cons by (rule selection_pair)+
    then show ?thesis using selection_complete [of a b v n] 2 by auto
  qed (simp add: selection_short)
  then show "decode_method_selection bs = Inr (Complete v n) \<Longrightarrow> decode_method_selection (bs @ post) = Inr (Complete v n)"
    "decode_method_selection bs = Inr (Complete v n) \<Longrightarrow> n \<le> length bs"
    "decode_method_selection bs = Inl e \<Longrightarrow> decode_method_selection (bs @ post) = Inl e"
    by auto
qed

definition shifted :: "nat \<Rightarrow> 'e + 'a decoded \<Rightarrow> 'e + 'a decoded" where
  "shifted k r = (case r of Inl e \<Rightarrow> Inl e | Inr Incomplete \<Rightarrow> Inr Incomplete | Inr (Complete v n) \<Rightarrow> Inr (Complete v (k + n)))"

lemma shifted_eq [simp]:
  "shifted k r = Inl e \<longleftrightarrow> r = Inl e"
  "shifted k r = Inr Incomplete \<longleftrightarrow> r = Inr Incomplete"
  "shifted k r = Inr (Complete v n) \<longleftrightarrow> (\<exists>n'. n = k + n' \<and> r = Inr (Complete v n'))"
  by (auto simp: shifted_def split: sum.splits decoded.splits)

lemma decode_reply_shifted:
  "decode_reply bs =
     (if length bs < 3 then Inr Incomplete
      else if bs ! 0 \<noteq> SOCKS_VERSION then Inl (WrongVersion (bs ! 0))
      else if reply_from_byte (bs ! 1) \<noteq> Succeeded then Inl (Refused (reply_from_byte (bs ! 1)))
      else shifted 3 (decode_address (drop 3 bs)))"
  by (simp add: decode_reply_def reader_array_new reader_rest_def shifted_def Let_def)

interpretation bound: prefix_decoder decode_reply
proof
  fix bs post :: bytes and v n e
  show "decode_reply (bs @ post) = Inr (Complete v n)" if "decode_reply bs = Inr (Complete v n)"
    using that addr.complete_stable [of "drop 3 bs" _ _ post]
    by (auto simp: decode_reply_shifted nth_append split: if_splits)
  show "n \<le> length bs" if "decode_reply bs = Inr (Complete v n)"
    using that addr.complete_bound [of "drop 3 bs"] by (fastforce simp: decode_reply_shifted split: if_splits)
  show "decode_reply (bs @ post) = Inl e" if "decode_reply bs = Inl e"
    using that addr.error_stable [of "drop 3 bs" _ post]
    by (auto simp: decode_reply_shifted nth_append split: if_splits)
qed

section \<open>The machine under more input\<close>

lemma encode_appends:
  "encode_credentials c out = out @ encode_credentials c []"
  "encode_request command t out = out @ encode_request command t []"
  by (simp_all add: encode_credentials_def encode_request_def encode_address_wire writer_vector_u8_def writer_bytes_def writer_u8_def)

definition resumable :: "socks_machine \<Rightarrow> bool" where
  "resumable m \<longleftrightarrow> (\<forall>input out. input \<noteq> [] \<longrightarrow>
     (\<forall>pre. socks_advance m input (pre @ out) = map_prod id (map_prod ((@) pre) id) (socks_advance m input out))
   \<and> (\<forall>post. case socks_advance m input out of
        (Inl e, _, _) \<Rightarrow> fst (socks_advance m (input @ post) out) = Inl e
      | (Inr (Complete v n), out', m') \<Rightarrow>
          n \<le> length input \<and> socks_advance m (input @ post) out = (Inr (Complete v n), out', m')
      | (Inr Incomplete, out', m') \<Rightarrow> socks_advance m (input @ post) out = socks_advance m' (input @ post) out'))"

lemma advance_requesting:
  "ng_phase m = Requesting \<Longrightarrow>
   socks_advance m input out = (shifted (ng_at m) (decode_reply (drop (ng_at m) input)), out, m)"
  by (subst socks_advance.simps) (simp add: Let_def shifted_def split: sum.splits decoded.splits)

lemma resumable_requesting:
  assumes "ng_phase m = Requesting"
  shows "resumable m"
proof -
  have "case socks_advance m input out of
        (Inl e, _, _) \<Rightarrow> fst (socks_advance m (input @ post) out) = Inl e
      | (Inr (Complete v n), out', m') \<Rightarrow>
          n \<le> length input \<and> socks_advance m (input @ post) out = (Inr (Complete v n), out', m')
      | (Inr Incomplete, out', m') \<Rightarrow> socks_advance m (input @ post) out = socks_advance m' (input @ post) out'"
    for input post out
  proof -
    define post' where "post' = drop (ng_at m - length input) post"
    have more: "drop (ng_at m) (input @ post) = drop (ng_at m) input @ post'" by (simp add: post'_def)
    have empty: "decode_reply [] = Inr Incomplete" by (simp add: decode_reply_shifted)
    show ?thesis
    proof (cases "decode_reply (drop (ng_at m) input)")
      case (Inl e)
      then show ?thesis
        using bound.error_stable [OF Inl, of post'] by (simp add: advance_requesting [OF assms] more shifted_def del: drop_append)
    next
      case (Inr d)
      show ?thesis
      proof (cases d)
        case (Complete v n)
        then have "n \<le> length (drop (ng_at m) input)" "ng_at m \<le> length input"
          using bound.complete_bound [of "drop (ng_at m) input" v n] Inr empty by (auto intro: leI)
        then show ?thesis
          using bound.complete_stable [of _ v n post'] Inr Complete
          by (simp add: advance_requesting [OF assms] more shifted_def del: drop_append)
      qed (simp add: advance_requesting [OF assms] Inr shifted_def)
    qed
  qed
  then show ?thesis
    unfolding resumable_def by (auto simp: advance_requesting [OF assms])
qed

text \<open>A step into the next phase keeps what that phase promises.\<close>

lemma resumable_step:
  assumes "resumable m1"
    and "\<And>pre. socks_advance m input (pre @ out) = socks_advance m1 input (pre @ out1)"
    and "\<And>post. socks_advance m (input @ post) out = socks_advance m1 (input @ post) out1" and "input \<noteq> []"
  shows "(\<forall>pre. socks_advance m input (pre @ out) = map_prod id (map_prod ((@) pre) id) (socks_advance m input out))
   \<and> (\<forall>post. case socks_advance m input out of
        (Inl e, _, _) \<Rightarrow> fst (socks_advance m (input @ post) out) = Inl e
      | (Inr (Complete v n), out', m') \<Rightarrow>
          n \<le> length input \<and> socks_advance m (input @ post) out = (Inr (Complete v n), out', m')
      | (Inr Incomplete, out', m') \<Rightarrow> socks_advance m (input @ post) out = socks_advance m' (input @ post) out')"
proof -
  have eq: "socks_advance m input out = socks_advance m1 input out1" using assms(2) [of "[]"] by simp
  show ?thesis
    unfolding eq assms(2,3)
    using assms(1) [unfolded resumable_def, rule_format, OF assms(4), of out1] by blast
qed

lemma resumable_phase:
  assumes decoder: "prefix_decoder d"
    and adv: "\<And>inp o'. inp \<noteq> [] \<Longrightarrow> socks_advance m inp o' =
      (case d (drop (ng_at m) inp) of
         Inl e \<Rightarrow> (Inl e, o', m)
       | Inr Incomplete \<Rightarrow> (Inr Incomplete, o', m)
       | Inr (Complete v n) \<Rightarrow>
           (case next_phase v n of Inl (e, m') \<Rightarrow> (Inl e, o', m') | Inr (m1, sends) \<Rightarrow> socks_advance m1 inp (o' @ sends)))"
    and later: "\<And>v n m1 sends. next_phase v n = Inr (m1, sends) \<Longrightarrow> resumable m1"
  shows "resumable m"
  unfolding resumable_def
proof (intro allI impI)
  fix input out :: bytes
  assume input: "input \<noteq> []"
  let ?rest = "drop (ng_at m) input"
  have more: "drop (ng_at m) (input @ post) = ?rest @ drop (ng_at m - length input) post" for post by simp
  consider e where "d ?rest = Inl e" | "d ?rest = Inr Incomplete" | v n e m' where "d ?rest = Inr (Complete v n)" "next_phase v n = Inl (e, m')"
    | v n m1 sends where "d ?rest = Inr (Complete v n)" "next_phase v n = Inr (m1, sends)"
    by (metis decoded.exhaust sum.exhaust prod.exhaust)
  then show "(\<forall>pre. socks_advance m input (pre @ out) = map_prod id (map_prod ((@) pre) id) (socks_advance m input out))
   \<and> (\<forall>post. case socks_advance m input out of
        (Inl e, _, _) \<Rightarrow> fst (socks_advance m (input @ post) out) = Inl e
      | (Inr (Complete v n), out', m') \<Rightarrow>
          n \<le> length input \<and> socks_advance m (input @ post) out = (Inr (Complete v n), out', m')
      | (Inr Incomplete, out', m') \<Rightarrow> socks_advance m (input @ post) out = socks_advance m' (input @ post) out')"
  proof cases
    case (1 e)
    then show ?thesis using input prefix_decoder.error_stable [OF decoder 1] by (simp add: adv)
  next
    case 2
    then show ?thesis using input by (simp add: adv)
  next
    case (3 v n e m')
    then show ?thesis using input prefix_decoder.complete_stable [OF decoder 3(1)] by (simp add: adv)
  next
    case (4 v n m1 sends)
    show ?thesis
    proof (rule resumable_step [OF later [OF 4(2)]])
      show "socks_advance m input (pre @ out) = socks_advance m1 input (pre @ out @ sends)" for pre
        using input 4 by (simp add: adv)
      show "socks_advance m (input @ post) out = socks_advance m1 (input @ post) (out @ sends)" for post
        using input 4(2) prefix_decoder.complete_stable [OF decoder 4(1)] by (simp add: adv)
    qed (rule input)
  qed
qed

definition decode_auth_status :: "bytes \<Rightarrow> proxy_error + unit decoded" where
  "decode_auth_status bs =
     (if length bs < 2 then Inr Incomplete
      else if bs ! 0 \<noteq> AUTH_VERSION then Inl (WrongVersion (bs ! 0))
      else if bs ! 1 \<noteq> 0 then Inl AuthFailed else Inr (Complete () 2))"

interpretation auth: prefix_decoder decode_auth_status
  by unfold_locales (auto simp: decode_auth_status_def nth_append split: if_splits)

lemma resumable_authenticating:
  assumes "ng_phase m = Authenticating"
  shows "resumable m"
proof (rule resumable_phase [OF auth.prefix_decoder_axioms, where next_phase =
      "\<lambda>_ n. Inr (m\<lparr>ng_at := ng_at m + 2, ng_phase := Requesting\<rparr>, encode_request (ng_command m) (ng_target m) [])"])
  show "socks_advance m inp o' =
      (case decode_auth_status (drop (ng_at m) inp) of
         Inl e \<Rightarrow> (Inl e, o', m)
       | Inr Incomplete \<Rightarrow> (Inr Incomplete, o', m)
       | Inr (Complete v n) \<Rightarrow>
           (case Inr (m\<lparr>ng_at := ng_at m + 2, ng_phase := Requesting\<rparr>, encode_request (ng_command m) (ng_target m) []) of
              Inl (e, m') \<Rightarrow> (Inl e, o', m') | Inr (m1, sends) \<Rightarrow> socks_advance m1 inp (o' @ sends)))" for inp o'
    using assms encode_appends(2) [of "ng_command m" "ng_target m" o']
    by (subst socks_advance.simps) (simp add: Let_def reader_array_new decode_auth_status_def)
qed (auto intro: resumable_requesting)

lemma resumable_selecting:
  assumes "ng_phase m = Selecting"
  shows "resumable m"
proof -
  define next_phase where "next_phase = (\<lambda>chosen n. let m = m\<lparr>ng_at := ng_at m + n\<rparr> in
    if chosen = METHOD_USERPASS
    then case ng_credentials m of
           None \<Rightarrow> Inl (UnexpectedMethod METHOD_USERPASS, m)
         | Some c \<Rightarrow> Inr (m\<lparr>ng_phase := Authenticating\<rparr>, encode_credentials c [])
    else Inr (m\<lparr>ng_phase := Requesting\<rparr>, encode_request (ng_command m) (ng_target m) []))"
  show ?thesis
  proof (rule resumable_phase [OF selection.prefix_decoder_axioms, where next_phase = next_phase])
    fix inp o' :: bytes
    assume "inp \<noteq> []"
    then show "socks_advance m inp o' =
      (case decode_method_selection (drop (ng_at m) inp) of
         Inl e \<Rightarrow> (Inl e, o', m)
       | Inr Incomplete \<Rightarrow> (Inr Incomplete, o', m)
       | Inr (Complete v n) \<Rightarrow>
           (case next_phase v n of Inl (e, m') \<Rightarrow> (Inl e, o', m') | Inr (m1, sends) \<Rightarrow> socks_advance m1 inp (o' @ sends)))"
      using assms encode_appends(1) [of _ o'] encode_appends(2) [of "ng_command m" "ng_target m" o']
      by (subst socks_advance.simps) (simp add: Let_def next_phase_def split: sum.splits decoded.splits option.splits)
  qed (auto simp: next_phase_def Let_def intro: resumable_requesting resumable_authenticating split: if_splits option.splits)
qed

lemma all_resumable: "resumable m"
  by (cases "ng_phase m") (auto intro: resumable_selecting resumable_authenticating resumable_requesting)

lemma advance_appends:
  "input \<noteq> [] \<Longrightarrow> socks_advance m input (pre @ out) = map_prod id (map_prod ((@) pre) id) (socks_advance m input out)"
  using all_resumable [of m] unfolding resumable_def by blast

interpretation socks: negotiation socks_advance
proof
  fix inp post :: bytes and m out m' v n e
  assume inp: "inp \<noteq> []"
  note r = all_resumable [of m, unfolded resumable_def, rule_format, OF inp, of "[]", THEN conjunct2, rule_format, of post]
  show "n \<le> length inp \<and> socks_advance m (inp @ post) [] = (Inr (Complete v n), out, m')"
    if "socks_advance m inp [] = (Inr (Complete v n), out, m')"
    using r that by simp
  show "socks_advance m (inp @ post) [] = (case socks_advance m' (inp @ post) [] of (r, out', m'') \<Rightarrow> (r, out @ out', m''))"
    if "socks_advance m inp [] = (Inr Incomplete, out, m')"
    using r that advance_appends [of "inp @ post" m' out "[]"] inp by (simp add: map_prod_def split: prod.splits)
  show "fst (socks_advance m (inp @ post) []) = Inl e" if "socks_advance m inp [] = (Inl e, out, m')"
    using r that by simp
qed

section \<open>A negotiation with a server that agrees\<close>

definition server_wire :: "bool \<Rightarrow> target \<Rightarrow> bytes" where
  "server_wire userpass b =
     [SOCKS_VERSION, if userpass then METHOD_USERPASS else METHOD_NONE] @ (if userpass then [AUTH_VERSION, 0] else [])
     @ [SOCKS_VERSION, 0, 0] @ address_wire b"

definition client_messages :: "bool \<Rightarrow> credentials option \<Rightarrow> u8 \<Rightarrow> target \<Rightarrow> bytes" where
  "client_messages userpass creds command t =
     (if userpass then encode_credentials (the creds) [] else []) @ encode_request command t []"

lemma decode_reply_wire:
  "target_ok b \<Longrightarrow> decode_reply ([SOCKS_VERSION, 0, 0] @ address_wire b @ rest) = Inr (Complete b (3 + length (address_wire b)))"
  by (simp add: decode_reply_shifted decode_encode_address reply_from_byte_def)

lemma advance_agreed:
  assumes "target_ok b" and "userpass \<longrightarrow> creds \<noteq> None"
  shows "\<exists>m'. socks_advance (negotiate_new creds command t) (server_wire userpass b @ rest) [] =
     (Inr (Complete b (length (server_wire userpass b))), client_messages userpass creds command t, m')"
proof -
  have sel: "decode_method_selection (SOCKS_VERSION # v # xs) = Inr (Complete v 2)" if "v = METHOD_NONE \<or> v = METHOD_USERPASS" for v xs
    using that by (auto simp: decode_method_selection_def reader_array_new METHOD_NONE_def METHOD_USERPASS_def METHOD_UNACCEPTABLE_def)
  have req: "\<exists>m'. socks_advance m inp out = (Inr (Complete b (ng_at m + 3 + length (address_wire b))), out, m')"
    if "ng_phase m = Requesting" "drop (ng_at m) inp = [SOCKS_VERSION, 0, 0] @ address_wire b @ rest" for m inp out
    using that decode_reply_wire [OF assms(1), of rest] by (simp add: advance_requesting shifted_def)
  show ?thesis
  proof (cases userpass)
    case False
    let ?inp = "server_wire userpass b @ rest"
    let ?m1 = "(negotiate_new creds command t)\<lparr>ng_at := 2, ng_phase := Requesting\<rparr>"
    have inp: "?inp = SOCKS_VERSION # METHOD_NONE # [SOCKS_VERSION, 0, 0] @ address_wire b @ rest"
      using False by (simp add: server_wire_def)
    have "socks_advance (negotiate_new creds command t) ?inp [] = socks_advance ?m1 ?inp (encode_request command t [])"
      unfolding inp using sel [of METHOD_NONE]
      by (subst socks_advance.simps) (simp add: negotiate_new_def METHOD_NONE_def METHOD_USERPASS_def)
    then show ?thesis
      using req [of ?m1 ?inp "encode_request command t []"] inp False
      by (simp add: client_messages_def server_wire_def eval_nat_numeral)
  next
    case True
    let ?inp = "server_wire userpass b @ rest"
    let ?m0 = "(negotiate_new creds command t)\<lparr>ng_at := 2, ng_phase := Authenticating\<rparr>"
    let ?m1 = "(negotiate_new creds command t)\<lparr>ng_at := 4, ng_phase := Requesting\<rparr>"
    obtain c where c: "creds = Some c" using True assms(2) by auto
    have inp: "?inp = SOCKS_VERSION # METHOD_USERPASS # AUTH_VERSION # 0 # [SOCKS_VERSION, 0, 0] @ address_wire b @ rest"
      using True by (simp add: server_wire_def)
    have "socks_advance (negotiate_new creds command t) ?inp [] = socks_advance ?m0 ?inp (encode_credentials c [])"
      unfolding inp using sel [of METHOD_USERPASS]
      by (subst socks_advance.simps) (simp add: negotiate_new_def c)
    also have "\<dots> = socks_advance ?m1 ?inp (encode_request command t (encode_credentials c []))"
      unfolding inp by (subst socks_advance.simps) (simp add: negotiate_new_def reader_array_new)
    finally show ?thesis
      using req [of ?m1 ?inp "encode_request command t (encode_credentials c [])"] inp True
        encode_appends(2) [of command t "encode_credentials c []"]
      by (simp add: client_messages_def server_wire_def c eval_nat_numeral)
  qed
qed

lemma negotiate_greets:
  assumes "c \<noteq> []"
  shows "negotiate socks_advance script_read script_write (negotiate_new creds command t) (c # cs, []) =
     negotiate_loop socks_advance script_read script_write (negotiate_new creds command t) c (cs, encode_greeting creds [])"
proof -
  obtain x xs where "c = x # xs" using assms by (cases c) auto
  moreover have "socks_advance (negotiate_new creds command t) [] [] =
      (Inr Incomplete, encode_greeting creds [], negotiate_new creds command t)"
    by (subst socks_advance.simps) (simp add: negotiate_new_def)
  moreover have "encode_greeting creds [] \<noteq> []" by (simp add: encode_greeting_def writer_u8_def writer_bytes_def Let_def split: option.splits)
  ultimately show ?thesis
    unfolding negotiate_def by (subst negotiate_loop.simps) (simp add: MAX_NEGOTIATION_def)
qed

text \<open>
  C9. The negotiation does not depend on how the network cuts the server's bytes: with a server that
  accepts, split in any way into non-empty reads, the driver returns the bound address and
  hands back exactly the bytes it read past the reply, and it has sent the greeting, the credentials if they
  were asked for, and the request, each once.
\<close>

theorem socks_negotiation:
  assumes "target_ok b" and "userpass \<longrightarrow> creds \<noteq> None" and "list_all (\<lambda>c. c \<noteq> []) chunks"
    and wire: "concat chunks = server_wire userpass b @ surplus" and "length (concat chunks) \<le> MAX_NEGOTIATION"
  shows "\<exists>used left m'. chunks = used @ left
     \<and> negotiate socks_advance script_read script_write (negotiate_new creds command t) (chunks, []) =
         (Inr (b, drop (length (server_wire userpass b)) (concat used)), m', left,
          encode_greeting creds [] @ client_messages userpass creds command t)"
proof -
  have "chunks \<noteq> []" using wire by (auto simp: server_wire_def)
  then obtain c cs where chunks: "chunks = c # cs" by (cases chunks) auto
  obtain m' where adv: "socks_advance (negotiate_new creds command t) (c @ concat cs) [] =
      (Inr (Complete b (length (server_wire userpass b))), client_messages userpass creds command t, m')"
    using advance_agreed [OF assms(1,2), of command t surplus] wire chunks by auto
  obtain used left where "cs = used @ left"
      "negotiate_loop socks_advance script_read script_write (negotiate_new creds command t) c (cs @ [], encode_greeting creds []) =
        (Inr (b, drop (length (server_wire userpass b)) (c @ concat used)), m', left @ [],
         encode_greeting creds [] @ client_messages userpass creds command t)"
    using socks.negotiate_chunks [OF adv, where later = "[]" and sent = "encode_greeting creds []"] assms(3,5) chunks by auto
  then show ?thesis
    using negotiate_greets [of c creds command t cs] assms(3) chunks
    by (intro exI [of _ "c # used"] exI [of _ left] exI [of _ m']) simp
qed

theorem socks_negotiation_witness:
  "\<exists>rest m' left. negotiate socks_advance script_read script_write (negotiate_new None CMD_CONNECT (Ip (SocketV4 7 80)))
     ([[5], [0, 5, 0], [0, 1, 0, 0, 0, 0, 0, 0, 9]], []) =
     (Inr (Ip (SocketV4 0 0), rest), m', left,
      encode_greeting None [] @ client_messages False None CMD_CONNECT (Ip (SocketV4 7 80)))"
proof -
  have "octets4 0 = [0, 0, 0, 0]" by code_simp
  then have wire: "concat [[5], [0, 5, 0], [0, 1, 0, 0, 0, 0, 0, 0, 9]] = server_wire False (Ip (SocketV4 0 0)) @ [9]"
    by (simp add: server_wire_def SOCKS_VERSION_def METHOD_NONE_def ATYP_IPV4_def to_be_16_pair)
  have "target_ok (Ip (SocketV4 0 0))" "False \<longrightarrow> None \<noteq> None"
      "list_all (\<lambda>c. c \<noteq> []) [[5 :: u8], [0, 5, 0], [0, 1, 0, 0, 0, 0, 0, 0, 9]]"
      "length (concat [[5 :: u8], [0, 5, 0], [0, 1, 0, 0, 0, 0, 0, 0, 9]]) \<le> MAX_NEGOTIATION"
    by (simp_all add: MAX_NEGOTIATION_def)
  from socks_negotiation [OF this(1-3) wire this(4), of CMD_CONNECT "Ip (SocketV4 7 80)"] show ?thesis
    by blast
qed

section \<open>Datagrams\<close>

text \<open>
  A relayed datagram is read back as written: the payload with its target, whatever the payload
  and the buffer's earlier contents, with a header of at most the reserved size; and the receiver rejects
  a payload that does not fit the caller's buffer instead of cutting it.
\<close>

theorem datagram_round_trip:
  assumes "target_ok t"
  shows "decode_datagram (encode_datagram t payload out) = Inr (t, payload)
     \<and> length (encode_datagram t payload out) \<le> length payload + MAX_DATAGRAM_HEADER
     \<and> socks_received (encode_datagram t payload out) cap =
         (if cap < length payload then Inl (DatagramTooLarge (length payload)) else Inr (payload, t))"
proof -
  have wire: "encode_datagram t payload out = [0, 0, 0] @ address_wire t @ payload"
    by (simp add: encode_datagram_def encode_address_wire writer_bytes_def)
  have "length (address_wire t) \<le> 259"
    using assms by (cases t rule: address_wire.cases) (auto simp: domain_ok_def)
  moreover have "decode_datagram (encode_datagram t payload out) = Inr (t, payload)"
    using decode_encode_address [OF assms, of payload]
    by (simp add: wire decode_datagram_def reader_array_new reader_rest_def Let_def)
  ultimately show ?thesis by (simp add: wire socks_received_def MAX_DATAGRAM_HEADER_def)
qed

theorem datagram_round_trip_witness:
  "decode_datagram (encode_datagram (Domain (DomainName [97]) 53) [1, 2] [9]) = Inr (Domain (DomainName [97]) 53, [1, 2])"
  using datagram_round_trip [of "Domain (DomainName [97]) 53" "[1, 2]" "[9]"]
  by (simp add: domain_ok_def ascii_lower_def)

end
