(* ===== verification/Shadowsocks.thy ===== *)
theory Shadowsocks
  imports Sansio
begin

text \<open>
  Shadowsocks 2022, \<^verbatim>\<open>src/egress/shadowsocks.rs\<close>: keys, the session of one direction with its nonce
  counter, the request a connection opens with, and the stream codec.

  The key derivation and the AEAD are the \<open>blake3\<close> and \<open>ring\<close> crates: a record of functions that the
  definitions take as an argument. What the code relies on is \<open>ring_ok\<close>: a derived key has 32 octets,
  a key of the length of its cipher is accepted, and opening undoes sealing, which adds a tag of 16 octets.
  The random generator is an argument as well, on a state of its own, and so is the clock: \<open>clock i\<close> is
  the reading a codec takes when it looks for the \<open>i\<close>-th time.
\<close>

section \<open>Keys\<close>

definition SUBKEY_CONTEXT :: string where "SUBKEY_CONTEXT = ''shadowsocks 2022 session subkey''"
definition TAG :: nat where "TAG = 16"
definition MAX_CHUNK :: nat where "MAX_CHUNK = 0xffff"
definition CLOCK_SKEW_SECONDS :: u64 where "CLOCK_SKEW_SECONDS = 30"
definition TYPE_REQUEST :: u8 where "TYPE_REQUEST = 0"
definition TYPE_RESPONSE :: u8 where "TYPE_RESPONSE = 1"

datatype cipher_method = Aes128Gcm | Aes256Gcm | ChaCha20Poly1305

fun key_len :: "cipher_method \<Rightarrow> nat" where
  "key_len Aes128Gcm = 16"
| "key_len Aes256Gcm = 32"
| "key_len ChaCha20Poly1305 = 32"

definition salt_len :: "cipher_method \<Rightarrow> nat" where
  "salt_len m = key_len m"

record pre_shared_key =
  psk_bytes :: bytes
  psk_method :: cipher_method

datatype key_error = KeyLength nat nat

definition psk_new :: "cipher_method \<Rightarrow> bytes \<Rightarrow> key_error + pre_shared_key" where
  "psk_new m bs =
     (if length bs \<noteq> key_len m then Inl (KeyLength (key_len m) (length bs))
      else Inr \<lparr>psk_bytes = bs, psk_method = m\<rparr>)"

record 'k ring =
  rg_derive_key :: "string \<Rightarrow> bytes \<Rightarrow> bytes"
  rg_key :: "cipher_method \<Rightarrow> bytes \<Rightarrow> 'k option"
  rg_seal :: "'k \<Rightarrow> bytes \<Rightarrow> bytes \<Rightarrow> bytes option"
  rg_open :: "'k \<Rightarrow> bytes \<Rightarrow> bytes \<Rightarrow> bytes option"

definition ring_ok :: "'k ring \<Rightarrow> bool" where
  "ring_ok r \<longleftrightarrow>
     (\<forall>ctx material. length (rg_derive_key r ctx material) = 32)
     \<and> (\<forall>m k. length k = key_len m \<longrightarrow> rg_key r m k \<noteq> None)
     \<and> (\<forall>k nonce p c. rg_seal r k nonce p = Some c \<longrightarrow> length c = length p + TAG \<and> rg_open r k nonce c = Some p)"

definition subkey :: "'k ring \<Rightarrow> pre_shared_key \<Rightarrow> bytes \<Rightarrow> bytes" where
  "subkey r psk salt = take (key_len (psk_method psk)) (rg_derive_key r SUBKEY_CONTEXT (psk_bytes psk @ salt))"

section \<open>Sessions\<close>

text \<open>The counter wraps around as it does in a release build.\<close>

record 'k session =
  ss_key :: 'k
  ss_counter :: u64

definition session_new :: "'k ring \<Rightarrow> cipher_method \<Rightarrow> bytes \<Rightarrow> proxy_error + 'k session" where
  "session_new r m key =
     (case rg_key r m key of None \<Rightarrow> Inl Crypto | Some k \<Rightarrow> Inr \<lparr>ss_key = k, ss_counter = 0\<rparr>)"

definition next_nonce :: "'k session \<Rightarrow> bytes \<times> 'k session" where
  "next_nonce s = (rev (be_bytes 8 (unat (ss_counter s))) @ replicate 4 0, s\<lparr>ss_counter := ss_counter s + 1\<rparr>)"

definition session_seal :: "'k ring \<Rightarrow> 'k session \<Rightarrow> bytes \<Rightarrow> (proxy_error + bytes) \<times> 'k session" where
  "session_seal r s buf =
     (case next_nonce s of
        (nonce, s) \<Rightarrow> (case rg_seal r (ss_key s) nonce buf of None \<Rightarrow> Inl Crypto | Some c \<Rightarrow> Inr c, s))"

definition session_open :: "'k ring \<Rightarrow> 'k session \<Rightarrow> bytes \<Rightarrow> (proxy_error + bytes) \<times> 'k session" where
  "session_open r s buf =
     (case next_nonce s of
        (nonce, s) \<Rightarrow> (case rg_open r (ss_key s) nonce buf of None \<Rightarrow> Inl Crypto | Some p \<Rightarrow> Inr p, s))"

section \<open>Headers\<close>

definition check_timestamp :: "u64 \<Rightarrow> u64 \<Rightarrow> proxy_error + unit" where
  "check_timestamp theirs ours =
     (let skew = if theirs \<le> ours then ours - theirs else theirs - ours
      in if CLOCK_SKEW_SECONDS < skew then Inl (Stale skew) else Inr ())"

definition MAX_PADDING :: nat where "MAX_PADDING = 900"

definition encode_request_body :: "target \<Rightarrow> bytes \<Rightarrow> bytes \<Rightarrow> bytes" where
  "encode_request_body t padding initial =
     writer_bytes initial (writer_vector_u16 padding (encode_address t []))"

definition encode_request_fixed :: "u64 \<Rightarrow> u16 \<Rightarrow> bytes" where
  "encode_request_fixed now body_len = writer_u16 body_len (writer_u64 now (writer_u8 TYPE_REQUEST []))"

definition decode_response_fixed :: "bytes \<Rightarrow> bytes \<Rightarrow> u64 \<Rightarrow> proxy_error + u16" where
  "decode_response_fixed plain request_salt now =
     (if length plain \<noteq> 1 + 8 + length request_salt + 2 then Inl BadHeader
      else case reader_u8 (reader_new plain) of
             None \<Rightarrow> Inl BadHeader
           | Some (kind, rd) \<Rightarrow>
               (case reader_u64 rd of
                  None \<Rightarrow> Inl BadHeader
                | Some (stamp, rd) \<Rightarrow>
                    (if kind \<noteq> TYPE_RESPONSE then Inl BadHeader
                     else case check_timestamp stamp now of
                            Inl e \<Rightarrow> Inl e
                          | Inr _ \<Rightarrow>
                              (case reader_take (length request_salt) rd of
                                 None \<Rightarrow> Inl SaltMismatch
                               | Some (salt, rd) \<Rightarrow>
                                   (if salt \<noteq> request_salt then Inl SaltMismatch
                                    else case reader_u16 rd of None \<Rightarrow> Inl BadHeader | Some (n, _) \<Rightarrow> Inr n)))))"

section \<open>The stream codec\<close>

datatype read_state = AtSalt | AtFixedHeader | AtLength | AtPayload nat

record 'k stream_codec =
  sc_writer :: "'k session"
  sc_reader :: "'k session option"
  sc_method :: cipher_method
  sc_key :: pre_shared_key
  sc_request_salt :: bytes
  sc_state :: read_state
  sc_readings :: nat

definition stream_needed :: "'k stream_codec \<Rightarrow> nat" where
  "stream_needed c =
     (case sc_state c of
        AtSalt \<Rightarrow> salt_len (sc_method c)
      | AtFixedHeader \<Rightarrow> 1 + 8 + salt_len (sc_method c) + 2 + TAG
      | AtLength \<Rightarrow> 2 + TAG
      | AtPayload n \<Rightarrow> n + TAG)"

text \<open>\<open>self.reader.as_mut().ok_or(..)?.open(&mut block)\<close>, which three of the stages share.\<close>

definition open_block :: "'k ring \<Rightarrow> 'k stream_codec \<Rightarrow> bytes \<Rightarrow> (proxy_error + bytes) \<times> 'k stream_codec" where
  "open_block r c block =
     (case sc_reader c of
        None \<Rightarrow> (Inl BadHeader, c)
      | Some s \<Rightarrow> (case session_open r s block of (plain, s) \<Rightarrow> (plain, c\<lparr>sc_reader := Some s\<rparr>)))"

definition stream_decode :: "'k ring \<Rightarrow> (nat \<Rightarrow> u64) \<Rightarrow> 'k stream_codec decoder" where
  "stream_decode r clock c input out =
     (if length input < stream_needed c then (Inr (Framed input), out, c)
      else let block = take (stream_needed c) input; rest = drop (stream_needed c) input
      in case sc_state c of
           AtSalt \<Rightarrow>
             (case session_new r (sc_method c) (subkey r (sc_key c) block) of
                Inl e \<Rightarrow> (Inl e, out, c)
              | Inr s \<Rightarrow> (Inr (Framed rest), out, c\<lparr>sc_reader := Some s, sc_state := AtFixedHeader\<rparr>))
         | AtFixedHeader \<Rightarrow>
             (case open_block r c block of
                (Inl e, c) \<Rightarrow> (Inl e, out, c)
              | (Inr plain, c) \<Rightarrow>
                  (let now = clock (sc_readings c); c = c\<lparr>sc_readings := sc_readings c + 1\<rparr>
                   in case decode_response_fixed plain (sc_request_salt c) now of
                        Inl e \<Rightarrow> (Inl e, out, c)
                      | Inr n \<Rightarrow> (Inr (Framed rest), out, c\<lparr>sc_state := AtPayload (unat n)\<rparr>)))
         | AtLength \<Rightarrow>
             (case open_block r c block of
                (Inl e, c) \<Rightarrow> (Inl e, out, c)
              | (Inr plain, c) \<Rightarrow>
                  (case reader_u16 (reader_new plain) of
                     None \<Rightarrow> (Inl BadHeader, out, c)
                   | Some (n, _) \<Rightarrow> (Inr (Framed rest), out, c\<lparr>sc_state := AtPayload (unat n)\<rparr>)))
         | AtPayload _ \<Rightarrow>
             (case open_block r c block of
                (Inl e, c) \<Rightarrow> (Inl e, out, c)
              | (Inr plain, c) \<Rightarrow> (Inr (Framed rest), out @ plain, c\<lparr>sc_state := AtLength\<rparr>)))"

definition stream_encode :: "'k ring \<Rightarrow> 'k stream_codec encoder" where
  "stream_encode r c payload out =
     (case session_seal r (sc_writer c) (writer_u16 (of_nat (length payload)) []) of
        (Inl e, w) \<Rightarrow> (Inl e, out, c\<lparr>sc_writer := w\<rparr>)
      | (Inr len, w) \<Rightarrow>
          (case session_seal r w payload of
             (Inl e, w) \<Rightarrow> (Inl e, out, c\<lparr>sc_writer := w\<rparr>)
           | (Inr sealed, w) \<Rightarrow> (Inr (), writer_bytes sealed (writer_bytes len out), c\<lparr>sc_writer := w\<rparr>)))"

definition stream_max_payload :: "'k stream_codec \<Rightarrow> nat" where
  "stream_max_payload c = MAX_CHUNK"

text \<open>
  The bytes a connection opens with and the codec it then reads and writes through, for a generator
  \<open>fill\<close> in the state \<open>g\<close> and the time \<open>now\<close>.
\<close>

definition connect_request ::
    "'k ring \<Rightarrow> (nat \<Rightarrow> 'g \<Rightarrow> bytes option \<times> 'g) \<Rightarrow> pre_shared_key \<Rightarrow> target \<Rightarrow> u64 \<Rightarrow> 'g \<Rightarrow>
     egress_error + (bytes \<times> 'k stream_codec)" where
  "connect_request r fill psk t now g =
     (let m = psk_method psk in
      case fill (salt_len m) g of
        (None, _) \<Rightarrow> Inl (Proxy Crypto)
      | (Some salt, g) \<Rightarrow>
     (case session_new r m (subkey r psk salt) of
        Inl e \<Rightarrow> Inl (Proxy e)
      | Inr w \<Rightarrow>
     (case fill 2 g of
        (None, _) \<Rightarrow> Inl (Proxy Crypto)
      | (Some pick, g) \<Rightarrow>
     (case fill (1 + of_be 0 pick mod MAX_PADDING) g of
        (None, _) \<Rightarrow> Inl (Proxy Crypto)
      | (Some padding, g) \<Rightarrow>
     (let body = encode_request_body t padding []
      in if 65535 < length body then Inl (Proxy BadHeader)
         else case session_seal r w (encode_request_fixed now (of_nat (length body))) of
                (Inl e, _) \<Rightarrow> Inl (Proxy e)
              | (Inr fixed, w) \<Rightarrow>
                  (case session_seal r w body of
                     (Inl e, _) \<Rightarrow> Inl (Proxy e)
                   | (Inr sealed, w) \<Rightarrow>
                       Inr (salt @ fixed @ sealed,
                            \<lparr>sc_writer = w, sc_reader = None, sc_method = m, sc_key = psk,
                             sc_request_salt = salt, sc_state = AtSalt, sc_readings = 0\<rparr>)))))))"

section \<open>Library\<close>

lemma key_len_pos [simp]: "0 < key_len m"
  by (cases m) simp_all

lemma stream_needed_pos [simp]: "0 < stream_needed c"
  by (simp add: stream_needed_def salt_len_def TAG_def split: read_state.split)

lemma stream_short [simp]: "length input < stream_needed c \<Longrightarrow> stream_decode r clock c input out = (Inr (Framed input), out, c)"
  by (simp add: stream_decode_def)

text \<open>A stage looks at its block only: what follows is left, and what is decoded is appended.\<close>

lemma stream_block:
  assumes "length block = stream_needed c" and "stream_decode r clock c block [] = (res, p, c')"
  shows "stream_decode r clock c (block @ post) out = (map_sum id (\<lambda>_. Framed post) res, out @ p, c')"
  using assms
  by (auto simp: stream_decode_def Let_def split: read_state.splits sum.splits prod.splits option.splits)

lemma stream_cases:
  obtains (short) "length input < stream_needed c"
  | (stage) block post res p c' where "input = block @ post" "length block = stream_needed c" "block \<noteq> []"
      "stream_decode r clock c block [] = (res, p, c')"
proof (cases "length input < stream_needed c")
  case False
  let ?b = "take (stream_needed c) input"
  obtain res p c' where "stream_decode r clock c ?b [] = (res, p, c')" by (metis prod.exhaust)
  moreover from False have "length ?b = stream_needed c" by simp
  moreover from this have "?b \<noteq> []" by (metis length_0_conv less_irrefl stream_needed_pos)
  ultimately show thesis using stage [of ?b "drop (stream_needed c) input"] by simp
qed (rule short)

interpretation ss: framing "stream_decode r clock" for r :: "'k ring" and clock :: "nat \<Rightarrow> u64"
proof
  fix c c' :: "'k stream_codec" and input rest out p post
  show "stream_decode r clock c input out = map_prod id (map_prod ((@) out) id) (stream_decode r clock c input [])"
    by (cases rule: stream_cases [where input = input and c = c and r = r and clock = clock]) (simp_all add: stream_block)
  show "\<exists>used. input = used @ rest" if "stream_decode r clock c input [] = (Inr (Framed rest), p, c')"
    using that by (cases rule: stream_cases [where input = input and c = c and r = r and clock = clock]) (auto simp: stream_block map_sum_def split: sum.splits)
  show "p = [] \<and> c' = c" if "stream_decode r clock c input [] = (Inr (Framed input), p, c')"
    using that by (cases rule: stream_cases [where input = input and c = c and r = r and clock = clock]) (auto simp: stream_block map_sum_def split: sum.splits)
  show "stream_decode r clock c (input @ post) [] = (Inr (Framed (rest @ post)), p, c')"
    if "stream_decode r clock c input [] = (Inr (Framed rest), p, c')" "rest \<noteq> input"
    using that by (cases rule: stream_cases [where input = input and c = c and r = r and clock = clock]) (auto simp: stream_block map_sum_def split: sum.splits)
  have never: "stream_decode r clock c input [] \<noteq> (Inr (Transparent rest), p, c')" for input rest
    by (cases rule: stream_cases [where input = input and c = c and r = r and clock = clock]) (auto simp: stream_block map_sum_def split: sum.splits)
  show "stream_decode r clock c (input @ post) [] = (Inr (Transparent (rest @ post)), p, c')"
    if "stream_decode r clock c input [] = (Inr (Transparent rest), p, c')"
    using never that by blast
  show "rest = [] \<and> p = []" if "stream_decode r clock c [] [] = (Inr (Transparent rest), p, c')"
    using never that by blast
  show "fst (stream_decode r clock c (input @ post) []) = Inl e" if "stream_decode r clock c input [] = (Inl e, p, c')" for e
    using that by (cases rule: stream_cases [where input = input and c = c and r = r and clock = clock]) (auto simp: stream_block map_sum_def split: sum.splits)
qed

section \<open>Sessions in step\<close>

lemma from_be_u64 [simp]: "from_be (be_bytes 8 (unat w)) = (w :: u64)"
proof -
  have "unat w < 2 ^ 64" using unsigned_less [of w] by simp
  then have "unat w mod 256 ^ 8 = unat w" by simp
  then show ?thesis by (simp only: from_be_def of_be_be_bytes) simp
qed

lemma reader_u64_at:
  "reader_rest rd = be_bytes 8 (unat w) @ post \<Longrightarrow> reader_u64 rd = Some (w, rd\<lparr>rd_at := rd_at rd + 8\<rparr>)"
  by (simp add: reader_u64_def reader_array_eq_take reader_take_at [OF _ length_be_bytes] del: be_bytes.simps)

lemma open_sealed:
  assumes "ring_ok r" and "session_seal r s p = (Inr c, s')"
  shows "session_open r s c = (Inr p, s')" and "length c = length p + TAG"
  using assms by (auto simp: ring_ok_def session_seal_def session_open_def next_nonce_def split: option.splits)

lemma subkey_length: "ring_ok r \<Longrightarrow> length (subkey r psk salt) = key_len (psk_method psk)"
  by (cases "psk_method psk") (simp_all add: subkey_def ring_ok_def)

text \<open>A session for a derived key always starts.\<close>

lemma session_starts: "ring_ok r \<Longrightarrow> \<exists>s. session_new r (psk_method psk) (subkey r psk salt) = Inr s"
  using subkey_length [of r psk salt] by (auto simp: ring_ok_def session_new_def split: option.split)

text \<open>No nonce repeats while the counter does not come round.\<close>

fun nonces :: "'k session \<Rightarrow> nat \<Rightarrow> bytes list" where
  "nonces s 0 = []"
| "nonces s (Suc n) = (case next_nonce s of (nonce, s) \<Rightarrow> nonce # nonces s n)"

lemma nonces_eq: "nonces s n = map (\<lambda>i. fst (next_nonce (s\<lparr>ss_counter := ss_counter s + of_nat i\<rparr>))) [0..<n]"
proof (induction n arbitrary: s)
  case (Suc n)
  show ?case
    by (simp only: nonces.simps upt_conv_Cons [OF zero_less_Suc] list.map map_Suc_upt [symmetric])
      (simp add: next_nonce_def Suc.IH comp_def algebra_simps)
qed simp

lemma nonce_counter: "fst (next_nonce s) = fst (next_nonce t) \<Longrightarrow> ss_counter s = ss_counter t"
  by (metis append_same_eq fst_conv from_be_u64 next_nonce_def rev_is_rev_conv)

section \<open>Reading a sealed stream\<close>

definition response_fixed :: "u64 \<Rightarrow> bytes \<Rightarrow> u16 \<Rightarrow> bytes" where
  "response_fixed stamp salt n = TYPE_RESPONSE # be_bytes 8 (unat stamp) @ salt @ to_be_16 n"

lemma decode_fixed_wire:
  assumes "check_timestamp stamp now = Inr ()"
  shows "decode_response_fixed (response_fixed stamp salt n) salt now = Inr n"
proof -
  let ?rd = "reader_new (response_fixed stamp salt n)"
  have r0: "reader_rest ?rd = TYPE_RESPONSE # be_bytes 8 (unat stamp) @ salt @ to_be_16 n"
    by (simp add: reader_rest_def reader_new_def response_fixed_def)
  have r1: "reader_rest (?rd\<lparr>rd_at := 1\<rparr>) = be_bytes 8 (unat stamp) @ salt @ to_be_16 n"
    using reader_rest_at [of ?rd "[TYPE_RESPONSE]"] r0 by (simp add: reader_new_def del: be_bytes.simps)
  have r2: "reader_rest (?rd\<lparr>rd_at := 9\<rparr>) = salt @ to_be_16 n @ []"
    using reader_rest_at [OF r1] by (simp del: be_bytes.simps)
  have r3: "reader_rest (?rd\<lparr>rd_at := 9 + length salt\<rparr>) = to_be_16 n @ []"
    using reader_rest_at [OF r2] by simp
  have "reader_u8 ?rd = Some (TYPE_RESPONSE, ?rd\<lparr>rd_at := 1\<rparr>)" using reader_u8_at [OF r0] by (simp add: reader_new_def)
  moreover have "reader_u64 (?rd\<lparr>rd_at := 1\<rparr>) = Some (stamp, ?rd\<lparr>rd_at := 9\<rparr>)" using reader_u64_at [OF r1] by simp
  moreover have "reader_take (length salt) (?rd\<lparr>rd_at := 9\<rparr>) = Some (salt, ?rd\<lparr>rd_at := 9 + length salt\<rparr>)"
    using reader_take_at [OF r2 refl] by simp
  moreover have "\<exists>rd. reader_u16 (?rd\<lparr>rd_at := 9 + length salt\<rparr>) = Some (n, rd)" using reader_u16_at [OF r3] by simp
  moreover have "length (response_fixed stamp salt n) = 1 + 8 + length salt + 2"
    by (simp add: response_fixed_def del: be_bytes.simps)
  ultimately show ?thesis using assms by (auto simp: decode_response_fixed_def)
qed

lemma stream_stage:
  assumes "length block = stream_needed c" and "stream_decode r clock c block [] = (Inr (Framed []), p, c')"
    and "yields (stream_decode r clock) (c', False, post) q s"
  shows "yields (stream_decode r clock) (c, False, block @ post) (p @ q) s"
proof -
  have "block \<noteq> []" using assms(1) by (metis length_0_conv less_irrefl stream_needed_pos)
  then show ?thesis using stream_block [OF assms(1,2), of post "[]"] assms(3) by (auto intro: yields.frame)
qed

lemma payload_stage:
  assumes "ring_ok r" and "sc_reader c = Some s" and "sc_state c = AtPayload (length p)"
    and "session_seal r s p = (Inr block, s')"
  shows "length block = stream_needed c"
    and "stream_decode r clock c block [] = (Inr (Framed []), p, c\<lparr>sc_reader := Some s', sc_state := AtLength\<rparr>)"
  using open_sealed [OF assms(1,4)] assms(2,3)
  by (simp_all add: stream_needed_def stream_decode_def open_block_def Let_def)

lemma length_stage:
  assumes "ring_ok r" and "sc_reader c = Some s" and "sc_state c = AtLength" and "n \<le> MAX_CHUNK"
    and "session_seal r s (to_be_16 (of_nat n)) = (Inr block, s')"
  shows "length block = stream_needed c"
    and "stream_decode r clock c block [] = (Inr (Framed []), [], c\<lparr>sc_reader := Some s', sc_state := AtPayload n\<rparr>)"
proof -
  have n: "unat (of_nat n :: u16) = n" using assms(4) by (simp add: MAX_CHUNK_def unat_of_nat)
  have "\<exists>rd. reader_u16 (reader_new (to_be_16 (of_nat n))) = Some (of_nat n, rd)"
    using reader_u16_at [of "reader_new (to_be_16 (of_nat n))" "of_nat n" "[]"] by (simp add: reader_rest_def reader_new_def)
  then show "length block = stream_needed c"
      "stream_decode r clock c block [] = (Inr (Framed []), [], c\<lparr>sc_reader := Some s', sc_state := AtPayload n\<rparr>)"
    using open_sealed [OF assms(1,5)] assms(2,3) n
    by (auto simp: stream_needed_def stream_decode_def open_block_def Let_def)
qed

lemma header_stage:
  assumes "ring_ok r" and "sc_reader c = Some s" and "sc_state c = AtFixedHeader" and "n \<le> MAX_CHUNK"
    and "length (sc_request_salt c) = salt_len (sc_method c)"
    and "check_timestamp stamp (clock (sc_readings c)) = Inr ()"
    and "session_seal r s (response_fixed stamp (sc_request_salt c) (of_nat n)) = (Inr block, s')"
  shows "length block = stream_needed c"
    and "stream_decode r clock c block [] =
      (Inr (Framed []), [], c\<lparr>sc_reader := Some s', sc_state := AtPayload n, sc_readings := sc_readings c + 1\<rparr>)"
proof -
  have n: "unat (of_nat n :: u16) = n" using assms(4) by (simp add: MAX_CHUNK_def unat_of_nat)
  have "length (response_fixed stamp (sc_request_salt c) (of_nat n)) = 1 + 8 + salt_len (sc_method c) + 2"
    using assms(5) by (simp add: response_fixed_def del: be_bytes.simps)
  then show "length block = stream_needed c"
    using open_sealed(2) [OF assms(1,7)] assms(3) by (simp add: stream_needed_def)
  then show "stream_decode r clock c block [] =
      (Inr (Framed []), [], c\<lparr>sc_reader := Some s', sc_state := AtPayload n, sc_readings := sc_readings c + 1\<rparr>)"
    using open_sealed [OF assms(1,7)] assms(2,3) n decode_fixed_wire [OF assms(6)]
    by (simp add: stream_decode_def open_block_def Let_def)
qed

text \<open>The writes of a peer, each payload one frame of its codec.\<close>

fun encode_all :: "'k ring \<Rightarrow> 'k stream_codec \<Rightarrow> bytes list \<Rightarrow> bytes option" where
  "encode_all r c [] = Some []"
| "encode_all r c (p # ps) =
     (case stream_encode r c p [] of
        (Inl _, _, _) \<Rightarrow> None
      | (Inr _, frame, c) \<Rightarrow> map_option ((@) frame) (encode_all r c ps))"

lemma chunks_yield:
  assumes "ring_ok r" and "encode_all r peer ps = Some wire" and "list_all (\<lambda>p. length p \<le> MAX_CHUNK) ps"
    and "sc_reader c = Some (sc_writer peer)" and "sc_state c = AtLength"
  shows "\<exists>c'. yields (stream_decode r clock) (c, False, wire) (concat ps) (c', False, [])"
  using assms(2-)
proof (induction ps arbitrary: peer c wire)
  case Nil
  then show ?case by (auto intro!: exI [of _ c] yields.stop)
next
  case (Cons p ps)
  obtain len w1 where s1: "session_seal r (sc_writer peer) (to_be_16 (of_nat (length p))) = (Inr len, w1)"
    and "\<exists>sealed w2. session_seal r w1 p = (Inr sealed, w2)"
    using Cons.prems(1) by (auto simp: stream_encode_def writer_u16_def writer_bytes_def split: prod.splits sum.splits)
  then obtain sealed w2 where s2: "session_seal r w1 p = (Inr sealed, w2)" by blast
  obtain more_wire where wire: "wire = (len @ sealed) @ more_wire" "encode_all r (peer\<lparr>sc_writer := w2\<rparr>) ps = Some more_wire"
    using Cons.prems(1) s1 s2 by (auto simp: stream_encode_def writer_u16_def writer_bytes_def)
  have fits: "length p \<le> MAX_CHUNK" using Cons.prems(2) by simp
  define c1 where "c1 = c\<lparr>sc_reader := Some w1, sc_state := AtPayload (length p)\<rparr>"
  define c2 where "c2 = c1\<lparr>sc_reader := Some w2, sc_state := AtLength\<rparr>"
  obtain c' where "yields (stream_decode r clock) (c2, False, more_wire) (concat ps) (c', False, [])"
    using Cons.IH [OF wire(2), of c2] Cons.prems(2) by (auto simp: c2_def)
  then have "yields (stream_decode r clock) (c1, False, sealed @ more_wire) (p @ concat ps) (c', False, [])"
    using stream_stage payload_stage(1) [OF assms(1) _ _ s2, of c1] payload_stage(2) [OF assms(1) _ _ s2, of c1 clock]
    by (simp add: c1_def c2_def)
  then have "yields (stream_decode r clock) (c, False, len @ sealed @ more_wire) ([] @ p @ concat ps) (c', False, [])"
    using stream_stage [OF length_stage [OF assms(1) Cons.prems(3,4) fits s1]] by (simp add: c1_def)
  then show ?case using wire(1) by auto
qed

text \<open>A generator fills what it is asked to fill.\<close>

definition fill_ok :: "(nat \<Rightarrow> 'g \<Rightarrow> bytes option \<times> 'g) \<Rightarrow> bool" where
  "fill_ok fill \<longleftrightarrow> (\<forall>n g bs g'. fill n g = (Some bs, g') \<longrightarrow> length bs = n)"

lemma fill_length: "fill_ok fill \<Longrightarrow> fill n g = (Some bs, g') \<Longrightarrow> length bs = n"
  unfolding fill_ok_def by blast

lemma connect_codec:
  assumes "fill_ok fill" and "connect_request r fill psk t now g = Inr (request, c)"
  shows "sc_state c = AtSalt" and "sc_method c = psk_method psk" and "sc_key c = psk" and "sc_readings c = 0"
    and "length (sc_request_salt c) = salt_len (psk_method psk)"
  using assms(2) fill_length [OF assms(1)]
  by (auto simp: connect_request_def Let_def split: prod.splits option.splits sum.splits if_splits)

text \<open>What the server sends: its salt, the sealed header and first payload, and the frames of its writes.\<close>

definition server_reply ::
    "'k ring \<Rightarrow> 'k stream_codec \<Rightarrow> 'k stream_codec \<Rightarrow> bytes \<Rightarrow> u64 \<Rightarrow> bytes \<Rightarrow> bytes list \<Rightarrow> bytes option" where
  "server_reply r c peer salt stamp p ps =
     (case session_new r (sc_method c) (subkey r (sc_key c) salt) of
        Inl _ \<Rightarrow> None
      | Inr w \<Rightarrow>
          (case session_seal r w (response_fixed stamp (sc_request_salt c) (of_nat (length p))) of
             (Inl _, _) \<Rightarrow> None
           | (Inr fixed, w) \<Rightarrow>
               (case session_seal r w p of
                  (Inl _, _) \<Rightarrow> None
                | (Inr first, w) \<Rightarrow>
                    map_option (\<lambda>chunks. salt @ fixed @ first @ chunks) (encode_all r (peer\<lparr>sc_writer := w\<rparr>) ps))))"

lemma reply_yields:
  assumes ok: "ring_ok r" and start: "sc_state c = AtSalt" "length (sc_request_salt c) = salt_len (sc_method c)"
    and reply: "server_reply r c peer salt stamp p ps = Some wire" and salt: "length salt = salt_len (sc_method c)"
    and stamp: "check_timestamp stamp (clock (sc_readings c)) = Inr ()"
    and fits: "list_all (\<lambda>p. length p \<le> MAX_CHUNK) (p # ps)"
  shows "\<exists>c'. yields (stream_decode r clock) (c, False, wire) (concat (p # ps)) (c', False, [])"
proof -
  obtain w fixed w1 first w2 chunks where
      w: "session_new r (sc_method c) (subkey r (sc_key c) salt) = Inr w"
    and s1: "session_seal r w (response_fixed stamp (sc_request_salt c) (of_nat (length p))) = (Inr fixed, w1)"
    and s2: "session_seal r w1 p = (Inr first, w2)"
    and s3: "encode_all r (peer\<lparr>sc_writer := w2\<rparr>) ps = Some chunks" and wire: "wire = salt @ fixed @ first @ chunks"
    using reply by (auto simp: server_reply_def split: sum.splits prod.splits)
  have bound: "length p \<le> MAX_CHUNK" using fits by simp
  define c1 where "c1 = c\<lparr>sc_reader := Some w, sc_state := AtFixedHeader\<rparr>"
  have c1: "sc_reader c1 = Some w" "sc_state c1 = AtFixedHeader" "sc_readings c1 = sc_readings c" "sc_method c1 = sc_method c"
      "sc_request_salt c1 = sc_request_salt c"
    by (simp_all add: c1_def)
  define c2 where "c2 = c1\<lparr>sc_reader := Some w1, sc_state := AtPayload (length p), sc_readings := sc_readings c1 + 1\<rparr>"
  define c3 where "c3 = c2\<lparr>sc_reader := Some w2, sc_state := AtLength\<rparr>"
  obtain c' where "yields (stream_decode r clock) (c3, False, chunks) (concat ps) (c', False, [])"
    using chunks_yield [OF ok s3, of c3] fits by (auto simp: c3_def)
  then have "yields (stream_decode r clock) (c2, False, first @ chunks) (p @ concat ps) (c', False, [])"
    using stream_stage payload_stage(1) [OF ok _ _ s2, of c2] payload_stage(2) [OF ok _ _ s2, of c2 clock]
    by (simp add: c2_def c3_def)
  then have "yields (stream_decode r clock) (c1, False, fixed @ first @ chunks) ([] @ p @ concat ps) (c', False, [])"
    using stream_stage [OF header_stage [OF ok c1(1,2) bound _ _ s1 [folded c1(5)]]] start stamp c1 by (simp add: c2_def)
  moreover have "length salt = stream_needed c" "stream_decode r clock c salt [] = (Inr (Framed []), [], c1)"
    using start(1) salt w by (simp_all add: stream_needed_def stream_decode_def Let_def c1_def)
  ultimately have "yields (stream_decode r clock) (c, False, salt @ fixed @ first @ chunks) ([] @ [] @ p @ concat ps) (c', False, [])"
    using stream_stage by blast
  then show ?thesis using wire by auto
qed

text \<open>
  C8. A connection reads exactly what the server wrote. The server answers a request with a fresh salt, a header
  that echoes the salt of the request under a timestamp within the allowed skew, a first payload, and frames of the same
  codec. However the network cuts these bytes into pieces, whenever a poll finds nothing ready, and whatever non-empty
  buffers the caller offers, reading until the end of the stream is reported comes to an end without an error and gives
  the payloads, in order and complete.
\<close>

theorem shadowsocks_stream_reads:
  assumes "ring_ok r" and "fill_ok fill" and conn: "connect_request r fill psk t now g = Inr (request, c)"
    and "server_reply r c peer salt stamp p ps = Some wire" and "length salt = salt_len (psk_method psk)"
    and "check_timestamp stamp (clock 0) = Inr ()" and "list_all (\<lambda>p. length p \<le> MAX_CHUNK) (p # ps)"
    and "arrivals script = wire" and "Some [] \<notin> set script" and "\<And>i. 0 < caps i"
  shows "read_to_end (stream_decode r clock) (logged script_poll) caps 0 [] (framed_new WritesFramed (script, []) c) =
    Some (Inr (concat (p # ps)))"
proof -
  have "\<exists>c'. yields (stream_decode r clock) (c, False, arrivals script) (concat (p # ps)) (c', False, [])"
    using reply_yields [OF assms(1) _ _ assms(4)] assms(5-8) connect_codec [OF assms(2) conn] by simp
  then show ?thesis using ss.reads_exactly [where caps = caps, OF assms(10,9)] by blast
qed

text \<open>An instance: a cipher that only adds a tag, a generator of zeros, and a server that answers at the epoch.\<close>

definition plain_ring :: "bytes ring" where
  "plain_ring = \<lparr>rg_derive_key = (\<lambda>_ _. replicate 32 0),
     rg_key = (\<lambda>m k. if length k = key_len m then Some k else None),
     rg_seal = (\<lambda>_ _ p. Some (p @ replicate 16 0)),
     rg_open = (\<lambda>_ _ c. if length c < 16 then None else Some (take (length c - 16) c))\<rparr>"

definition zero_fill :: "nat \<Rightarrow> unit \<Rightarrow> bytes option \<times> unit" where
  "zero_fill n g = (Some (replicate n 0), g)"

definition sample_psk :: pre_shared_key where
  "sample_psk = \<lparr>psk_bytes = replicate 16 7, psk_method = Aes128Gcm\<rparr>"

definition sample_codec :: "bytes stream_codec" where
  "sample_codec = \<lparr>sc_writer = \<lparr>ss_key = replicate 16 0, ss_counter = 2\<rparr>, sc_reader = None, sc_method = Aes128Gcm,
     sc_key = sample_psk, sc_request_salt = replicate 16 0, sc_state = AtSalt, sc_readings = 0\<rparr>"

definition sample_session :: "u64 \<Rightarrow> bytes session" where
  "sample_session n = \<lparr>ss_key = replicate 16 0, ss_counter = n\<rparr>"

definition sample_salt :: bytes where "sample_salt = replicate 16 1"
definition sample_fixed :: bytes where "sample_fixed = response_fixed 0 (replicate 16 0) 2 @ replicate 16 0"
definition sample_first :: bytes where "sample_first = [5, 6] @ replicate 16 0"
definition sample_later :: bytes where "sample_later = (to_be_16 1 @ replicate 16 0) @ [7] @ replicate 16 0"

lemma plain_ring_ok: "ring_ok plain_ring" and zero_fill_ok: "fill_ok zero_fill"
  by (simp_all add: ring_ok_def plain_ring_def TAG_def fill_ok_def zero_fill_def)

lemma sample_lengths [simp]: "length sample_salt = 16" "length sample_fixed = 43" "length sample_first = 18"
  by (simp_all add: sample_salt_def sample_fixed_def sample_first_def response_fixed_def del: be_bytes.simps)

lemma sample_seal: "session_seal plain_ring (sample_session n) p = (Inr (p @ replicate 16 0), sample_session (n + 1))"
  by (simp add: session_seal_def next_nonce_def sample_session_def plain_ring_def)

lemma sample_start: "session_new plain_ring Aes128Gcm (subkey plain_ring sample_psk salt) = Inr (sample_session 0)"
  by (simp add: session_new_def subkey_def plain_ring_def sample_psk_def sample_session_def)

lemma sample_connect:
  "\<exists>request. connect_request plain_ring zero_fill sample_psk (Ip (SocketV4 7 80)) 0 () = Inr (request, sample_codec)"
proof -
  have "length (encode_request_body (Ip (SocketV4 7 80)) [0] []) = 10"
    by (simp add: encode_request_body_def writer_bytes_def writer_vector_u16_def writer_u16_def encode_address_wire)
  then show ?thesis
    by (simp add: connect_request_def zero_fill_def sample_start sample_seal sample_psk_def [THEN arg_cong [where f = psk_method]]
        MAX_PADDING_def numeral_2_eq_2 sample_codec_def)
      (simp add: sample_session_def salt_len_def)
qed

lemma sample_reply:
  "server_reply plain_ring sample_codec sample_codec sample_salt 0 [5, 6] [[7]] =
   Some (sample_salt @ sample_fixed @ sample_first @ sample_later)"
  by (simp add: server_reply_def sample_codec_def sample_start sample_seal stream_encode_def writer_u16_def writer_bytes_def
      sample_fixed_def sample_first_def sample_later_def)

theorem shadowsocks_stream_reads_witness:
  "read_to_end (stream_decode plain_ring (\<lambda>_. 0)) (logged script_poll) (\<lambda>i. Suc i) 0 []
     (framed_new WritesFramed ([Some sample_salt, None, Some (sample_fixed @ sample_first), Some sample_later], []) sample_codec) =
   Some (Inr [5, 6, 7])"
proof -
  let ?script = "[Some sample_salt, None, Some (sample_fixed @ sample_first), Some sample_later]"
  obtain request where conn: "connect_request plain_ring zero_fill sample_psk (Ip (SocketV4 7 80)) 0 () = Inr (request, sample_codec)"
    using sample_connect by blast
  have hyps: "length sample_salt = salt_len (psk_method sample_psk)" "check_timestamp 0 0 = Inr ()"
      "list_all (\<lambda>p. length p \<le> MAX_CHUNK) [[5, 6 :: u8], [7]]"
    by (simp_all add: salt_len_def sample_psk_def check_timestamp_def CLOCK_SKEW_SECONDS_def MAX_CHUNK_def)
  have "Some [] \<notin> set ?script" by (simp add: sample_salt_def sample_first_def sample_later_def)
  moreover have "arrivals ?script = sample_salt @ sample_fixed @ sample_first @ sample_later" by (simp add: arrivals_def)
  ultimately show ?thesis
    using shadowsocks_stream_reads [OF plain_ring_ok zero_fill_ok conn sample_reply hyps, of ?script Suc] by simp
qed

text \<open>The nonces of a session are distinct until its counter comes round.\<close>

theorem nonces_distinct:
  assumes "n \<le> 2 ^ 64"
  shows "distinct (nonces s n)"
proof -
  have "inj_on (\<lambda>i. fst (next_nonce (s\<lparr>ss_counter := ss_counter s + of_nat i\<rparr>))) {0..<n}"
  proof (rule inj_onI)
    fix i j
    assume ij: "i \<in> {0..<n}" "j \<in> {0..<n}"
      and "fst (next_nonce (s\<lparr>ss_counter := ss_counter s + of_nat i\<rparr>)) = fst (next_nonce (s\<lparr>ss_counter := ss_counter s + of_nat j\<rparr>))"
    then have "(of_nat i :: u64) = of_nat j" by (auto dest!: nonce_counter)
    then have "unat (of_nat i :: u64) = unat (of_nat j :: u64)" by simp
    then show "i = j" using ij assms by (simp add: unat_of_nat)
  qed
  then show ?thesis by (simp add: nonces_eq distinct_map)
qed

end
