(* ===== verification/Shadowsocks_Udp.thy ===== *)
theory Shadowsocks_Udp
  imports Shadowsocks Planning
begin

text \<open>
  The datagrams of Shadowsocks 2022, \<^verbatim>\<open>src/egress/shadowsocks.rs\<close>: the two packet formats, the messages
  inside them, the window that recognises replays, and both ends of an association without its socket.

  Packets are sealed by the \<open>boring\<close> crate: a record of functions that the definitions take as an argument.
  What the code relies on is \<open>boring_ok\<close>: opening undoes sealing, which keeps the length and adds a tag of
  16 octets, and the block cipher without padding maps 16 octets to 16 octets and back. The slices
  the code takes of a decrypted block rest on that length.
\<close>

section \<open>Packets\<close>

datatype block_cipher = Aes128Ecb | Aes256Ecb

datatype block_mode = Encrypt | Decrypt

datatype aead_algorithm = AeadAes128Gcm | AeadAes256Gcm | AeadXChaCha20Poly1305

record 'x boring =
  bo_ctx :: "aead_algorithm \<Rightarrow> bytes \<Rightarrow> 'x option"
  bo_seal :: "'x \<Rightarrow> bytes \<Rightarrow> bytes \<Rightarrow> (bytes \<times> bytes) option"
  bo_open :: "'x \<Rightarrow> bytes \<Rightarrow> bytes \<Rightarrow> bytes \<Rightarrow> bytes option"
  bo_block :: "block_mode \<Rightarrow> block_cipher \<Rightarrow> bytes \<Rightarrow> bytes \<Rightarrow> bytes option"

definition boring_ok :: "'x boring \<Rightarrow> bool" where
  "boring_ok b \<longleftrightarrow>
     (\<forall>x nonce p c tag. bo_seal b x nonce p = Some (c, tag) \<longrightarrow>
        length tag = TAG \<and> length c = length p \<and> bo_open b x nonce c tag = Some p)
     \<and> (\<forall>cipher key p c. bo_block b Encrypt cipher key p = Some c \<and> length p = 16 \<longrightarrow>
        length c = 16 \<and> bo_block b Decrypt cipher key c = Some p)"

datatype 'x packet_cipher = Separate pre_shared_key block_cipher | Merged 'x

definition SEPARATE_HEADER :: nat where "SEPARATE_HEADER = 16"
definition MERGED_NONCE :: nat where "MERGED_NONCE = 24"
definition PACKET_TO_SERVER :: u8 where "PACKET_TO_SERVER = 0"
definition PACKET_TO_CLIENT :: u8 where "PACKET_TO_CLIENT = 1"

text \<open>\<open>identity[NONCE_WINDOW]\<close>.\<close>

definition nonce_window :: "bytes \<Rightarrow> bytes" where
  "nonce_window identity = drop 4 (take SEPARATE_HEADER identity)"

definition MAX_PROXIED_DATAGRAM :: u16 where
  "MAX_PROXIED_DATAGRAM =
     (let framing = MERGED_NONCE + TAG + 1 + 8 + 2; addr = 1 + 1 + 255 + 2
      in of_nat (unat MIN_IPV6_MTU - 48 - framing - addr))"

record opened =
  op_session :: bytes
  op_packet_id :: u64
  op_message :: bytes

definition packet_cipher_new :: "'x boring \<Rightarrow> pre_shared_key \<Rightarrow> egress_error + 'x packet_cipher" where
  "packet_cipher_new b psk =
     (case psk_method psk of
        Aes128Gcm \<Rightarrow> Inr (Separate psk Aes128Ecb)
      | Aes256Gcm \<Rightarrow> Inr (Separate psk Aes256Ecb)
      | ChaCha20Poly1305 \<Rightarrow>
          (case bo_ctx b AeadXChaCha20Poly1305 (psk_bytes psk) of
             None \<Rightarrow> Inl (Proxy Crypto)
           | Some x \<Rightarrow> Inr (Merged x)))"

text \<open>\<open>finish\<close> seals what follows position \<open>at\<close> in place and returns the tag.\<close>

definition cipher_finish :: "'x boring \<Rightarrow> 'x \<Rightarrow> bytes \<Rightarrow> bytes \<Rightarrow> nat \<Rightarrow> egress_error + (bytes \<times> bytes)" where
  "cipher_finish b x nonce out at =
     (case bo_seal b x nonce (drop at out) of
        None \<Rightarrow> Inl (Proxy Crypto)
      | Some (c, tag) \<Rightarrow> Inr (take at out @ c, tag))"

definition cipher_reveal :: "'x boring \<Rightarrow> 'x \<Rightarrow> bytes \<Rightarrow> bytes \<Rightarrow> egress_error + bytes" where
  "cipher_reveal b x nonce body =
     (if length body < TAG then Inl (Proxy BadHeader)
      else let at = length body - TAG
           in case bo_open b x nonce (take at body) (drop at body) of
                None \<Rightarrow> Inl (Proxy Crypto)
              | Some p \<Rightarrow> Inr p)"

definition cipher_aead :: "'x boring \<Rightarrow> 'k ring \<Rightarrow> 'x packet_cipher \<Rightarrow> bytes \<Rightarrow> egress_error + 'x" where
  "cipher_aead b r pc session =
     (case pc of
        Merged _ \<Rightarrow> Inl (Proxy Crypto)
      | Separate psk _ \<Rightarrow>
          (case bo_ctx b (if psk_method psk = Aes128Gcm then AeadAes128Gcm else AeadAes256Gcm) (subkey r psk session) of
             None \<Rightarrow> Inl (Proxy Crypto)
           | Some x \<Rightarrow> Inr x))"

definition cipher_block :: "'x boring \<Rightarrow> 'x packet_cipher \<Rightarrow> block_mode \<Rightarrow> bytes \<Rightarrow> egress_error + bytes" where
  "cipher_block b pc mode input =
     (case pc of
        Merged _ \<Rightarrow> Inl (Proxy Crypto)
      | Separate psk header \<Rightarrow>
          (case bo_block b mode header (psk_bytes psk) input of None \<Rightarrow> Inl (Proxy Crypto) | Some out \<Rightarrow> Inr out))"

definition identify :: "bytes \<Rightarrow> bytes \<Rightarrow> opened" where
  "identify identity message =
     \<lparr>op_session = take 8 identity, op_packet_id = from_be (take 8 (drop 8 identity)), op_message = message\<rparr>"

definition cipher_seal ::
    "'x boring \<Rightarrow> 'k ring \<Rightarrow> (nat \<Rightarrow> 'g \<Rightarrow> bytes option \<times> 'g) \<Rightarrow> 'x packet_cipher \<Rightarrow> bytes \<Rightarrow> u64 \<Rightarrow> bytes \<Rightarrow> 'g \<Rightarrow>
     (egress_error + bytes) \<times> 'g" where
  "cipher_seal b r fill pc session packet_id message g =
     (let identity = session @ be_bytes 8 (unat packet_id)
      in case pc of
           Separate _ _ \<Rightarrow>
             (case cipher_aead b r pc session of
                Inl e \<Rightarrow> Inl e
              | Inr x \<Rightarrow>
                  (case cipher_block b pc Encrypt identity of
                     Inl e \<Rightarrow> Inl e
                   | Inr block \<Rightarrow>
                       (case cipher_finish b x (nonce_window identity) (block @ message) SEPARATE_HEADER of
                          Inl e \<Rightarrow> Inl e
                        | Inr (out, tag) \<Rightarrow> Inr (out @ tag))), g)
         | Merged x \<Rightarrow>
             (case fill MERGED_NONCE g of
                (None, g) \<Rightarrow> (Inl (Proxy Crypto), g)
              | (Some nonce, g) \<Rightarrow>
                  (case cipher_finish b x nonce (nonce @ identity @ message) MERGED_NONCE of
                     Inl e \<Rightarrow> Inl e
                   | Inr (out, tag) \<Rightarrow> Inr (out @ tag), g)))"

definition cipher_open :: "'x boring \<Rightarrow> 'k ring \<Rightarrow> 'x packet_cipher \<Rightarrow> bytes \<Rightarrow> egress_error + opened" where
  "cipher_open b r pc datagram =
     (case pc of
        Separate _ _ \<Rightarrow>
          (if length datagram < SEPARATE_HEADER then Inl (Proxy BadHeader)
           else case cipher_block b pc Decrypt (take SEPARATE_HEADER datagram) of
                  Inl e \<Rightarrow> Inl e
                | Inr identity \<Rightarrow>
                    (case cipher_aead b r pc (take 8 identity) of
                       Inl e \<Rightarrow> Inl e
                     | Inr x \<Rightarrow>
                         (case cipher_reveal b x (nonce_window identity) (drop SEPARATE_HEADER datagram) of
                            Inl e \<Rightarrow> Inl e
                          | Inr message \<Rightarrow> Inr (identify identity message))))
      | Merged x \<Rightarrow>
          (if length datagram < MERGED_NONCE then Inl (Proxy BadHeader)
           else case cipher_reveal b x (take MERGED_NONCE datagram) (drop MERGED_NONCE datagram) of
                  Inl e \<Rightarrow> Inl e
                | Inr plain \<Rightarrow>
                    (if length plain < SEPARATE_HEADER then Inl (Proxy BadHeader)
                     else Inr (identify (take SEPARATE_HEADER plain) (drop SEPARATE_HEADER plain)))))"

section \<open>Messages\<close>

definition padding_for :: "(nat \<Rightarrow> 'g \<Rightarrow> bytes option \<times> 'g) \<Rightarrow> target \<Rightarrow> 'g \<Rightarrow> (egress_error + bytes) \<times> 'g" where
  "padding_for fill t g =
     (if target_port t \<noteq> DNS_PORT then (Inr [], g)
      else case fill 2 g of
             (None, g) \<Rightarrow> (Inl (Proxy Crypto), g)
           | (Some pick, g) \<Rightarrow>
               (case fill (1 + of_be 0 pick mod MAX_PADDING) g of
                  (None, g) \<Rightarrow> (Inl (Proxy Crypto), g)
                | (Some pad, g) \<Rightarrow> (Inr pad, g)))"

definition encode_packet_request ::
    "(nat \<Rightarrow> 'g \<Rightarrow> bytes option \<times> 'g) \<Rightarrow> target \<Rightarrow> u64 \<Rightarrow> bytes \<Rightarrow> 'g \<Rightarrow> (egress_error + bytes) \<times> 'g" where
  "encode_packet_request fill t now payload g =
     (case padding_for fill t g of
        (Inl e, g) \<Rightarrow> (Inl e, g)
      | (Inr pad, g) \<Rightarrow>
          (Inr (writer_bytes payload (encode_address t
             (writer_vector_u16 pad (writer_u64 now (writer_u8 PACKET_TO_SERVER []))))), g))"

definition decode_packet_response :: "bytes \<Rightarrow> bytes \<Rightarrow> u64 \<Rightarrow> egress_error + (target \<times> nat)" where
  "decode_packet_response message client_session now =
     (case reader_u8 (reader_new message) of
        None \<Rightarrow> Inl (Proxy BadHeader)
      | Some (kind, rd) \<Rightarrow>
     (case reader_u64 rd of
        None \<Rightarrow> Inl (Proxy BadHeader)
      | Some (stamp, rd) \<Rightarrow>
     (case reader_array 8 rd of
        None \<Rightarrow> Inl (Proxy BadHeader)
      | Some (session, rd) \<Rightarrow>
     (if kind \<noteq> PACKET_TO_CLIENT then Inl (Proxy BadHeader)
      else case check_timestamp stamp now of
        Inl e \<Rightarrow> Inl (Proxy e)
      | Inr _ \<Rightarrow>
     (if session \<noteq> client_session then Inl (Proxy SaltMismatch)
      else case reader_vector_u16 rd of
        None \<Rightarrow> Inl (Proxy BadHeader)
      | Some (_, rd) \<Rightarrow>
     (case decode_address (reader_rest rd) of
        Inl e \<Rightarrow> Inl (Proxy e)
      | Inr Incomplete \<Rightarrow> Inl (Proxy BadHeader)
      | Inr (Complete t consumed) \<Rightarrow> Inr (t, reader_position rd + consumed)))))))"

section \<open>The replay window\<close>

record window =
  wi_highest :: "u64 option"
  wi_below :: u64

definition window_default :: window where
  "window_default = \<lparr>wi_highest = None, wi_below = 0\<rparr>"

definition window_admit :: "window \<Rightarrow> u64 \<Rightarrow> bool \<times> window" where
  "window_admit w pid =
     (case wi_highest w of
        None \<Rightarrow> (True, w\<lparr>wi_highest := Some pid\<rparr>)
      | Some highest \<Rightarrow>
          (if highest < pid
           then let gap = unat (pid - highest);
                    below = if gap < 64 then push_bit gap (wi_below w) OR push_bit (gap - 1) 1 else 0
                in (True, w\<lparr>wi_below := below, wi_highest := Some pid\<rparr>)
           else let behind = unat (highest - pid)
                in if behind = 0 \<or> 64 < behind then (False, w)
                   else let bit = push_bit (behind - 1) 1
                        in if wi_below w AND bit \<noteq> 0 then (False, w)
                           else (True, w\<lparr>wi_below := wi_below w OR bit\<rparr>)))"

section \<open>Both ends of an association\<close>

record 'x packet_relay =
  pr_cipher :: "'x packet_cipher"
  pr_session :: bytes
  pr_next :: u64

text \<open>
  \<open>send_to\<close> up to the socket. The identifier is taken after the message is encoded, and
  \<open>fetch_add\<close> wraps around.
\<close>

definition relay_send ::
    "'x boring \<Rightarrow> 'k ring \<Rightarrow> (nat \<Rightarrow> 'g \<Rightarrow> bytes option \<times> 'g) \<Rightarrow> bytes \<Rightarrow> target \<Rightarrow> u64 \<Rightarrow> 'x packet_relay \<Rightarrow> 'g \<Rightarrow>
     (egress_error + bytes) \<times> 'x packet_relay \<times> 'g" where
  "relay_send b r fill payload t now relay g =
     (case encode_packet_request fill t now payload g of
        (Inl e, g) \<Rightarrow> (Inl e, relay, g)
      | (Inr message, g) \<Rightarrow>
          (case cipher_seal b r fill (pr_cipher relay) (pr_session relay) (pr_next relay) message g of
             (res, g) \<Rightarrow> (res, relay\<lparr>pr_next := pr_next relay + 1\<rparr>, g)))"

text \<open>The two server sessions an association follows, the current one first.\<close>

type_synonym held_sessions = "(bytes \<times> window) option \<times> (bytes \<times> window) option"

definition holds_session :: "bytes \<Rightarrow> (bytes \<times> window) option \<Rightarrow> bool" where
  "holds_session session held = (case held of None \<Rightarrow> False | Some (i, _) \<Rightarrow> i = session)"

text \<open>
  \<open>self.window(session).admit(id)\<close>: the window of a session that is held, in either slot, or a new
  one in the first slot, the session there moving to the second.
\<close>

definition sessions_admit :: "bytes \<Rightarrow> u64 \<Rightarrow> held_sessions \<Rightarrow> bool \<times> held_sessions" where
  "sessions_admit session pid held =
     (if holds_session session (fst held)
      then case window_admit (snd (the (fst held))) pid of (ok, w) \<Rightarrow> (ok, Some (session, w), snd held)
      else if holds_session session (snd held)
      then case window_admit (snd (the (snd held))) pid of (ok, w) \<Rightarrow> (ok, fst held, Some (session, w))
      else case window_admit window_default pid of (ok, w) \<Rightarrow> (ok, Some (session, w), fst held))"

text \<open>
  One round of \<open>recv_from\<close> on a datagram from the socket at the time \<open>now\<close>, into a buffer of \<open>cap\<close>
  octets: \<open>None\<close> goes round again.
\<close>

definition recv_round ::
    "'x boring \<Rightarrow> 'k ring \<Rightarrow> 'x packet_relay \<Rightarrow> nat \<Rightarrow> u64 \<Rightarrow> bytes \<Rightarrow> held_sessions \<Rightarrow>
     (egress_error + (bytes \<times> target)) option \<times> held_sessions" where
  "recv_round b r relay cap now datagram held =
     (case cipher_open b r (pr_cipher relay) datagram of
        Inl _ \<Rightarrow> (None, held)
      | Inr op \<Rightarrow>
          (case decode_packet_response (op_message op) (pr_session relay) now of
             Inl _ \<Rightarrow> (None, held)
           | Inr (sender, at) \<Rightarrow>
               (case sessions_admit (op_session op) (op_packet_id op) held of
                  (False, held) \<Rightarrow> (None, held)
                | (True, held) \<Rightarrow>
                    (let payload = drop at (op_message op)
                     in if cap < length payload then (Some (Inl (DatagramTooLarge (length payload))), held)
                        else (Some (Inr (payload, sender)), held)))))"

text \<open>The loop, on what the socket gives and the time each is looked at; \<open>None\<close> when it still waits.\<close>

fun recv_packets ::
    "'x boring \<Rightarrow> 'k ring \<Rightarrow> 'x packet_relay \<Rightarrow> nat \<Rightarrow> (io_error + bytes \<times> u64) list \<Rightarrow> held_sessions \<Rightarrow>
     (egress_error + (bytes \<times> target)) option \<times> held_sessions \<times> (io_error + bytes \<times> u64) list" where
  "recv_packets b r relay cap [] held = (None, held, [])"
| "recv_packets b r relay cap (Inl e # more_in) held = (Some (Inl (Io e)), held, more_in)"
| "recv_packets b r relay cap (Inr (datagram, now) # more_in) held =
     (case recv_round b r relay cap now datagram held of
        (Some res, held) \<Rightarrow> (Some res, held, more_in)
      | (None, held) \<Rightarrow> recv_packets b r relay cap more_in held)"

definition shadowsocks_properties :: "nat_behavior \<Rightarrow> path_properties" where
  "shadowsocks_properties behavior =
     \<lparr>datagram_fidelity = Native, overhead_bytes = 0, max_datagram_size = Some MAX_PROXIED_DATAGRAM,
      preserves_ecn = False, nat_behavior = behavior\<rparr>"

section \<open>What the window promises\<close>

text \<open>
  What a round offers to the windows: the session and the identifier of a datagram that opens to a current message. A
  session is kept through such a packet unless the packet moves the session's own window by exactly 64, or belongs
  to a session that is not held and so displaces the one in the second slot.
\<close>

definition round_packet :: "'x boring \<Rightarrow> 'k ring \<Rightarrow> 'x packet_relay \<Rightarrow> u64 \<Rightarrow> bytes \<Rightarrow> (bytes \<times> u64) option" where
  "round_packet b r relay now datagram =
     (case cipher_open b r (pr_cipher relay) datagram of
        Inl _ \<Rightarrow> None
      | Inr op \<Rightarrow>
          (case decode_packet_response (op_message op) (pr_session relay) now of
             Inl _ \<Rightarrow> None
           | Inr _ \<Rightarrow> Some (op_session op, op_packet_id op)))"

definition window_leaps :: "window \<Rightarrow> u64 \<Rightarrow> bool" where
  "window_leaps w pid = (case wi_highest w of None \<Rightarrow> False | Some h \<Rightarrow> unat pid = unat h + 64)"

definition session_kept :: "bytes \<Rightarrow> held_sessions \<Rightarrow> bytes \<times> u64 \<Rightarrow> bool" where
  "session_kept session held packet =
     (if fst packet = session
      then \<not> (holds_session session (fst held) \<and> window_leaps (snd (the (fst held))) (snd packet))
           \<and> \<not> (holds_session session (snd held) \<and> window_leaps (snd (the (snd held))) (snd packet))
      else holds_session (fst packet) (fst held) \<or> holds_session (fst packet) (snd held) \<or> holds_session session (fst held))"

fun rounds_held ::
    "'x boring \<Rightarrow> 'k ring \<Rightarrow> 'x packet_relay \<Rightarrow> (nat \<times> u64 \<times> bytes) list \<Rightarrow> held_sessions \<Rightarrow> held_sessions" where
  "rounds_held b r relay [] held = held"
| "rounds_held b r relay ((cap, now, datagram) # rounds) held =
     rounds_held b r relay rounds (snd (recv_round b r relay cap now datagram held))"

fun rounds_keep ::
    "'x boring \<Rightarrow> 'k ring \<Rightarrow> 'x packet_relay \<Rightarrow> bytes \<Rightarrow> (nat \<times> u64 \<times> bytes) list \<Rightarrow> held_sessions \<Rightarrow> bool" where
  "rounds_keep b r relay session [] held \<longleftrightarrow> True"
| "rounds_keep b r relay session ((cap, now, datagram) # rounds) held \<longleftrightarrow>
     pred_option (session_kept session held) (round_packet b r relay now datagram)
     \<and> rounds_keep b r relay session rounds (snd (recv_round b r relay cap now datagram held))"

text \<open>
  The specification of a window that remembers every identifier: one is admitted when it was not
  admitted before and none admitted is more than 64 ahead of it.
\<close>

definition replay_admits :: "u64 list \<Rightarrow> u64 \<Rightarrow> bool" where
  "replay_admits seen pid \<longleftrightarrow> pid \<notin> set seen \<and> list_all (\<lambda>s. unat s \<le> unat pid + 64) seen"

fun replay_run :: "u64 list \<Rightarrow> u64 list \<Rightarrow> bool list" where
  "replay_run seen [] = []"
| "replay_run seen (pid # pids) =
     replay_admits seen pid # replay_run (if replay_admits seen pid then pid # seen else seen) pids"

fun window_run :: "window \<Rightarrow> u64 list \<Rightarrow> bool list" where
  "window_run w [] = []"
| "window_run w (pid # pids) = (case window_admit w pid of (ok, w) \<Rightarrow> ok # window_run w pids)"

text \<open>The identifiers of a list that were admitted.\<close>

definition admitted :: "u64 list \<Rightarrow> bool list \<Rightarrow> u64 list" where
  "admitted pids oks = map fst (filter snd (zip pids oks))"

text \<open>Some packet moves the window by exactly its size.\<close>

fun leaps :: "window \<Rightarrow> u64 list \<Rightarrow> bool" where
  "leaps w [] = False"
| "leaps w (pid # pids) =
     ((case wi_highest w of None \<Rightarrow> False | Some h \<Rightarrow> unat pid = unat h + 64) \<or> leaps (snd (window_admit w pid)) pids)"

definition window_models :: "window \<Rightarrow> u64 list \<Rightarrow> bool" where
  "window_models w seen \<longleftrightarrow>
     (case wi_highest w of
        None \<Rightarrow> seen = [] \<and> wi_below w = 0
      | Some h \<Rightarrow> h \<in> set seen \<and> (\<forall>s \<in> set seen. unat s \<le> unat h)
          \<and> (\<forall>k < 64. bit (wi_below w) k \<longleftrightarrow> (\<exists>s \<in> set seen. unat s + k + 1 = unat h)))"

lemma bit_flag: "(below :: u64) AND push_bit k 1 \<noteq> 0 \<longleftrightarrow> bit below k"
  by (simp add: and_exp_eq_0_iff_not_bit)

lemma bit_set_flag: "k < 64 \<Longrightarrow> bit ((below :: u64) OR push_bit n 1) k \<longleftrightarrow> bit below k \<or> k = n"
  by (auto simp: bit_or_iff bit_exp_iff)

lemma models_ahead:
  assumes "window_models w seen" and h: "wi_highest w = Some h" and "h < pid" and "unat pid \<noteq> unat h + 64"
  shows "fst (window_admit w pid)" and "window_models (snd (window_admit w pid)) (pid # seen)"
proof -
  have lt: "unat h < unat pid" using assms(3) by (simp add: word_less_nat_alt)
  have gap: "unat (pid - h) = unat pid - unat h" using assms(3) by (simp add: unat_sub)
  let ?g = "unat pid - unat h"
  let ?below = "if ?g < 64 then push_bit ?g (wi_below w) OR push_bit (?g - 1) 1 else 0"
  have admit: "window_admit w pid = (True, w\<lparr>wi_below := ?below, wi_highest := Some pid\<rparr>)"
    using h assms(3) by (simp add: window_admit_def gap Let_def)
  have old: "\<forall>s \<in> set seen. unat s \<le> unat h" "h \<in> set seen"
      "\<And>k. k < 64 \<Longrightarrow> bit (wi_below w) k \<longleftrightarrow> (\<exists>s \<in> set seen. unat s + k + 1 = unat h)"
    using assms(1) h by (auto simp: window_models_def)
  have "bit ?below k \<longleftrightarrow> (\<exists>s \<in> set (pid # seen). unat s + k + 1 = unat pid)" if k: "k < 64" for k
  proof (cases "?g < 64")
    case True
    have "bit ?below k \<longleftrightarrow> ?g \<le> k \<and> bit (wi_below w) (k - ?g) \<or> k = ?g - 1"
      using True k by (auto simp: bit_or_iff bit_push_bit_iff bit_exp_iff)
    also have "\<dots> \<longleftrightarrow> ?g \<le> k \<and> (\<exists>s \<in> set seen. unat s + (k - ?g) + 1 = unat h) \<or> k = ?g - 1"
      using old(3) [of "k - ?g"] k by auto
    also have "\<dots> \<longleftrightarrow> (\<exists>s \<in> set (pid # seen). unat s + k + 1 = unat pid)"
    proof (intro iffI; elim disjE bexE conjE)
      fix s
      assume "?g \<le> k" "s \<in> set seen" "unat s + (k - ?g) + 1 = unat h"
      then show "\<exists>s \<in> set (pid # seen). unat s + k + 1 = unat pid" using lt by (intro bexI [of _ s]) auto
    next
      assume "k = ?g - 1"
      then show "\<exists>s \<in> set (pid # seen). unat s + k + 1 = unat pid" using lt old(2) by (intro bexI [of _ h]) auto
    next
      fix s
      assume s: "s \<in> set (pid # seen)" "unat s + k + 1 = unat pid"
      then have "s \<in> set seen" "unat s \<le> unat h" using old(1) by auto
      then show "?g \<le> k \<and> (\<exists>s \<in> set seen. unat s + (k - ?g) + 1 = unat h) \<or> k = ?g - 1"
        using s(2) lt by (cases "k = ?g - 1") (auto intro!: bexI [of _ s])
    qed
    finally show ?thesis .
  next
    case False
    then show ?thesis using old(1) assms(4) k by fastforce
  qed
  then show "window_models (snd (window_admit w pid)) (pid # seen)"
    using old(1) lt by (auto simp: admit window_models_def)
  show "fst (window_admit w pid)" by (simp add: admit)
qed

lemma models_behind:
  assumes "window_models w seen" and h: "wi_highest w = Some h" and "pid \<le> h"
  shows "fst (window_admit w pid) \<longleftrightarrow> replay_admits seen pid"
    and "window_models (snd (window_admit w pid)) (if replay_admits seen pid then pid # seen else seen)"
proof -
  let ?b = "unat h - unat pid"
  have le: "unat pid \<le> unat h" using assms(3) by (simp add: word_le_nat_alt)
  have behind: "unat (h - pid) = ?b" using assms(3) by (simp add: unat_sub)
  have old: "\<forall>s \<in> set seen. unat s \<le> unat h" "h \<in> set seen"
      "\<And>k. k < 64 \<Longrightarrow> bit (wi_below w) k \<longleftrightarrow> (\<exists>s \<in> set seen. unat s + k + 1 = unat h)"
    using assms(1) h by (auto simp: window_models_def)
  have admit: "window_admit w pid =
      (if ?b = 0 \<or> 64 < ?b \<or> bit (wi_below w) (?b - 1) then (False, w)
       else (True, w\<lparr>wi_below := wi_below w OR push_bit (?b - 1) 1\<rparr>))"
    using h assms(3) bit_flag [of "wi_below w" "?b - 1"] by (simp add: window_admit_def behind Let_def flip: not_le)
  have same: "s = pid \<longleftrightarrow> unat s = unat pid" for s by (simp add: word_unat_eq_iff)
  have known: "bit (wi_below w) (?b - 1) \<longleftrightarrow> pid \<in> set seen" if "?b \<noteq> 0" "?b \<le> 64"
  proof -
    have "?b - 1 < 64" using that by simp
    then have "bit (wi_below w) (?b - 1) \<longleftrightarrow> (\<exists>s \<in> set seen. unat s + (?b - 1) + 1 = unat h)" by (rule old(3))
    also have "\<dots> \<longleftrightarrow> (\<exists>s \<in> set seen. s = pid)"
    proof (intro bex_cong refl)
      fix s
      show "unat s + (?b - 1) + 1 = unat h \<longleftrightarrow> s = pid" unfolding same using le that(1) by arith
    qed
    finally show ?thesis by simp
  qed
  have near: "list_all (\<lambda>s. unat s \<le> unat pid + 64) seen \<longleftrightarrow> ?b \<le> 64"
    using old(1,2) by (fastforce simp: list_all_iff)
  have spec: "replay_admits seen pid \<longleftrightarrow> \<not> (?b = 0 \<or> 64 < ?b \<or> bit (wi_below w) (?b - 1))"
  proof (cases "?b = 0")
    case True
    then have "pid = h" using le by (simp add: word_unat_eq_iff)
    then show ?thesis using True old(2) by (simp add: replay_admits_def)
  qed (use known near in \<open>auto simp: replay_admits_def\<close>)
  then show "fst (window_admit w pid) \<longleftrightarrow> replay_admits seen pid" by (simp add: admit)
  show "window_models (snd (window_admit w pid)) (if replay_admits seen pid then pid # seen else seen)"
  proof (cases "replay_admits seen pid")
    case True
    then have b: "?b \<noteq> 0" "\<not> 64 < ?b" "\<not> bit (wi_below w) (?b - 1)" using spec by auto
    have "bit (wi_below w OR push_bit (?b - 1) 1) k \<longleftrightarrow> (\<exists>s \<in> set (pid # seen). unat s + k + 1 = unat h)" if "k < 64" for k
      using bit_set_flag [OF that, of "wi_below w" "?b - 1"] old(3) [OF that] b(1) le by auto
    then show ?thesis using True b old(1,2) le h by (auto simp: admit window_models_def)
  next
    case False
    then show ?thesis using spec assms(1) by (auto simp: admit)
  qed
qed

lemma window_step:
  assumes "window_models w seen" and "\<not> (case wi_highest w of None \<Rightarrow> False | Some h \<Rightarrow> unat pid = unat h + 64)"
  shows "fst (window_admit w pid) \<longleftrightarrow> replay_admits seen pid"
    and "window_models (snd (window_admit w pid)) (if replay_admits seen pid then pid # seen else seen)"
proof -
  consider "wi_highest w = None" | h where "wi_highest w = Some h" "h < pid" | h where "wi_highest w = Some h" "pid \<le> h"
    by (meson not_less option.exhaust)
  then have "(fst (window_admit w pid) \<longleftrightarrow> replay_admits seen pid)
      \<and> window_models (snd (window_admit w pid)) (if replay_admits seen pid then pid # seen else seen)"
  proof cases
    case 1
    then show ?thesis using assms(1) by (simp add: window_admit_def window_models_def replay_admits_def)
  next
    case (2 h)
    have "\<forall>s \<in> set seen. unat s < unat pid" using assms(1) 2 by (force simp: window_models_def word_less_nat_alt)
    then have "replay_admits seen pid" by (fastforce simp: replay_admits_def list_all_iff)
    then show ?thesis using models_ahead [OF assms(1) 2] assms(2) 2(1) by simp
  next
    case (3 h)
    then show ?thesis using models_behind [OF assms(1) 3] by simp
  qed
  then show "fst (window_admit w pid) \<longleftrightarrow> replay_admits seen pid"
      "window_models (snd (window_admit w pid)) (if replay_admits seen pid then pid # seen else seen)" by auto
qed

lemma window_run_models: "window_models w seen \<Longrightarrow> \<not> leaps w pids \<Longrightarrow> window_run w pids = replay_run seen pids"
proof (induction pids arbitrary: w seen)
  case (Cons pid pids)
  have "\<not> (case wi_highest w of None \<Rightarrow> False | Some h \<Rightarrow> unat pid = unat h + 64)" "\<not> leaps (snd (window_admit w pid)) pids"
    using Cons.prems(2) by auto
  with window_step [OF Cons.prems(1) this(1)] Cons.IH show ?case by (simp add: split_beta)
qed simp

lemma replay_run_distinct:
  "distinct (admitted pids (replay_run seen pids)) \<and> set (admitted pids (replay_run seen pids)) \<inter> set seen = {}"
proof (induction pids arbitrary: seen)
  case (Cons pid pids)
  show ?case
    using Cons.IH [of "pid # seen"] Cons.IH [of seen] by (auto simp: admitted_def replay_admits_def)
qed (simp add: admitted_def)

text \<open>
  C7. While no packet moves the window by exactly 64, the bitmap decides as a record of every identifier would:
  a packet is admitted exactly when it is new and at most 64 behind the highest. So no identifier is admitted twice.
\<close>

theorem window_refines:
  assumes "\<not> leaps window_default pids"
  shows "window_run window_default pids = replay_run [] pids
     \<and> distinct (admitted pids (window_run window_default pids))"
  using window_run_models [OF _ assms, of "[]"] replay_run_distinct [of pids "[]"]
  by (simp add: window_models_def window_default_def)

theorem window_refines_witness:
  "window_run window_default [5, 9, 5, 7, 80, 9, 16, 16] = replay_run [] [5, 9, 5, 7, 80, 9, 16, 16]
   \<and> distinct (admitted [5, 9, 5, 7, 80, 9, 16, 16] (window_run window_default [5, 9, 5, 7, 80, 9, 16, 16]))"
proof -
  have "\<not> leaps window_default [5, 9, 5, 7, 80, 9, 16, 16]" by code_simp
  then show ?thesis by (rule window_refines)
qed

text \<open>
  C38. A packet that moves the window by exactly 64 makes it forget the packet that was highest before, which
  lies at the edge the window still accepts: replayed, it is admitted again.
\<close>

theorem window_replay:
  assumes "unat h + 64 < 2 ^ 64"
  shows "window_run window_default [h, h + 64, h] = [True, True, True]"
proof -
  have sum: "unat (h + 64) = unat h + 64" using assms by (simp add: unat_word_ariths)
  then have lt: "h < h + 64" "\<not> h + 64 < h" by (simp_all add: word_less_nat_alt)
  have "unat (h + 64 - h) = 64" by simp
  then show ?thesis using lt by (simp add: window_admit_def window_default_def Let_def)
qed

theorem window_replay_witness: "window_run window_default [0, 64, 0] = [True, True, True]"
  using window_replay [of 0] by simp

section \<open>Packets delivered\<close>

lemma identify_identity:
  "length session = 8 \<Longrightarrow> identify (session @ be_bytes 8 (unat pid)) message =
     \<lparr>op_session = session, op_packet_id = pid, op_message = message\<rparr>"
  by (simp add: identify_def del: be_bytes.simps)

lemma boring_seal:
  "boring_ok b \<Longrightarrow> bo_seal b x nonce p = Some (c, tag) \<Longrightarrow>
   length tag = TAG \<and> length c = length p \<and> bo_open b x nonce c tag = Some p"
  unfolding boring_ok_def by blast

lemma boring_block:
  "boring_ok b \<Longrightarrow> bo_block b Encrypt cipher key p = Some c \<Longrightarrow> length p = 16 \<Longrightarrow>
   length c = 16 \<and> bo_block b Decrypt cipher key c = Some p"
  unfolding boring_ok_def by blast

lemma reveal_finished:
  assumes "boring_ok b" and "cipher_finish b x nonce (front @ message) at = Inr (out, tag)" and "length front = at"
  shows "take at (out @ tag) = front" and "at \<le> length (out @ tag)" and "cipher_reveal b x nonce (drop at (out @ tag)) = Inr message"
proof -
  obtain c where c: "bo_seal b x nonce message = Some (c, tag)" "out = front @ c"
    using assms(2,3) by (auto simp: cipher_finish_def split: option.splits)
  then show "take at (out @ tag) = front" "at \<le> length (out @ tag)" "cipher_reveal b x nonce (drop at (out @ tag)) = Inr message"
    using boring_seal [OF assms(1) c(1)] assms(3) by (simp_all add: cipher_reveal_def)
qed

text \<open>A packet opens to what was sealed in it, in either format.\<close>

lemma open_seal:
  assumes ok: "boring_ok b" "fill_ok fill" and session: "length session = 8"
    and sealed: "cipher_seal b r fill pc session pid message g = (Inr datagram, g')"
  shows "cipher_open b r pc datagram = Inr \<lparr>op_session = session, op_packet_id = pid, op_message = message\<rparr>"
proof -
  let ?identity = "session @ be_bytes 8 (unat pid)"
  have len: "length ?identity = 16" using session by (simp del: be_bytes.simps)
  show ?thesis
  proof (cases pc)
    case (Separate psk header)
    obtain x block out tag where x: "cipher_aead b r pc session = Inr x" and block: "cipher_block b pc Encrypt ?identity = Inr block"
      and out: "cipher_finish b x (nonce_window ?identity) (block @ message) SEPARATE_HEADER = Inr (out, tag)" "datagram = out @ tag"
      using sealed Separate by (auto simp: cipher_seal_def Let_def split: sum.splits prod.splits)
    have undone: "length block = 16" "cipher_block b pc Decrypt block = Inr ?identity"
      using block boring_block [OF ok(1) _ len] Separate by (auto simp: cipher_block_def split: option.splits)
    have "take 8 ?identity = session" using session by simp
    then show ?thesis
      using Separate x out(2) undone reveal_finished [OF ok(1) out(1)] identify_identity [OF session]
      by (simp add: cipher_open_def SEPARATE_HEADER_def del: be_bytes.simps take_append drop_append length_append)
  next
    case (Merged x)
    obtain nonce out tag where fill: "fill MERGED_NONCE g = (Some nonce, g')"
      and out: "cipher_finish b x nonce (nonce @ ?identity @ message) MERGED_NONCE = Inr (out, tag)" "datagram = out @ tag"
      using sealed Merged by (auto simp: cipher_seal_def Let_def split: sum.splits prod.splits option.splits)
    note nonce = fill_length [OF ok(2) fill]
    have "take SEPARATE_HEADER (?identity @ message) = ?identity" "drop SEPARATE_HEADER (?identity @ message) = message"
        "SEPARATE_HEADER \<le> length (?identity @ message)"
      using len by (simp_all add: SEPARATE_HEADER_def del: be_bytes.simps)
    then show ?thesis
      using Merged out(2) reveal_finished [OF ok(1) out(1) nonce] identify_identity [OF session]
      by (simp add: cipher_open_def del: be_bytes.simps take_append drop_append length_append)
  qed
qed

lemma window_admits_once:
  assumes "window_admit w pid = (True, w')"
  shows "window_admit w' pid = (False, w')"
proof -
  have "bit (wi_below w OR push_bit n 1) n" if "n < 64" for n using bit_set_flag [OF that, of "wi_below w" n] by simp
  then show ?thesis
    using assms bit_flag by (auto simp: window_admit_def Let_def split: option.splits if_splits)
qed

lemma window_stays_refused:
  assumes refused: "\<not> fst (window_admit w pid)" and "\<not> window_leaps w other"
  shows "\<not> fst (window_admit (snd (window_admit w other)) pid)"
proof -
  obtain h where h: "wi_highest w = Some h" using refused by (auto simp: window_admit_def split: option.splits)
  then have le: "pid \<le> h" using refused by (auto simp: window_admit_def Let_def split: if_splits)
  then have b: "unat (h - pid) = unat h - unat pid" "unat pid \<le> unat h" by (simp_all add: unat_sub word_le_nat_alt)
  let ?b = "unat h - unat pid"
  have why: "?b = 0 \<or> 64 < ?b \<or> bit (wi_below w) (?b - 1)"
    using refused h le bit_flag [of "wi_below w" "?b - 1"] b by (auto simp: window_admit_def Let_def split: if_splits)
  show ?thesis
  proof (cases "h < other")
    case True
    let ?g = "unat other - unat h"
    have g: "unat (other - h) = ?g" "unat h < unat other" using True by (simp_all add: unat_sub) (simp add: word_less_nat_alt)
    have ahead: "unat (other - pid) = ?g + ?b" "\<not> other < pid"
      using le True b(2) g(2) by (simp_all add: unat_sub)
    have "?g \<noteq> 64" using assms(2) h g(2) by (auto simp: window_leaps_def)
    then have "64 < ?g + ?b \<or> bit (push_bit ?g (wi_below w) OR push_bit (?g - 1) 1) (?g + ?b - 1)"
      using why g(2) by (cases "?g + ?b \<le> 64") (auto simp: bit_or_iff bit_push_bit_iff bit_exp_iff)
    with \<open>?g \<noteq> 64\<close> show ?thesis
      using h True ahead g bit_flag by (auto simp: window_admit_def Let_def)
  next
    case False
    have "wi_highest (snd (window_admit w other)) = Some h"
        "bit (wi_below w) k \<Longrightarrow> bit (wi_below (snd (window_admit w other))) k" for k
      using h False by (auto simp: window_admit_def Let_def bit_or_iff)
    then show ?thesis using le b why bit_flag by (auto simp: window_admit_def Let_def)
  qed
qed

lemma refused_held: "\<not> fst (sessions_admit session pid held) \<Longrightarrow>
    holds_session session (fst held) \<and> \<not> fst (window_admit (snd (the (fst held))) pid)
    \<or> \<not> holds_session session (fst held) \<and> holds_session session (snd held) \<and> \<not> fst (window_admit (snd (the (snd held))) pid)"
  by (auto simp: sessions_admit_def window_admit_def window_default_def split: if_splits prod.splits)

lemma sessions_stay_refused:
  assumes "\<not> fst (sessions_admit session pid held)" and "session_kept session held (other, pid')"
  shows "\<not> fst (sessions_admit session pid (snd (sessions_admit other pid' held)))"
  using refused_held [OF assms(1)] assms(2) window_stays_refused
  by (cases held)
    (auto simp: sessions_admit_def session_kept_def holds_session_def split_beta split: if_splits option.splits)

lemma round_stays_refused:
  assumes "\<not> fst (sessions_admit session pid held)"
    and "pred_option (session_kept session held) (round_packet b r relay now datagram)"
  shows "\<not> fst (sessions_admit session pid (snd (recv_round b r relay cap now datagram held)))"
proof (cases "round_packet b r relay now datagram")
  case None
  then have "snd (recv_round b r relay cap now datagram held) = held"
    by (auto simp: round_packet_def recv_round_def split: sum.splits)
  then show ?thesis using assms(1) by simp
next
  case (Some packet)
  then have "snd (recv_round b r relay cap now datagram held) = snd (sessions_admit (fst packet) (snd packet) held)"
    by (auto simp: round_packet_def recv_round_def Let_def split: sum.splits prod.splits bool.splits)
  then show ?thesis using sessions_stay_refused [OF assms(1), of "fst packet" "snd packet"] assms(2) Some by simp
qed

lemma rounds_stay_refused:
  "\<not> fst (sessions_admit session pid held) \<Longrightarrow> rounds_keep b r relay session rounds held \<Longrightarrow>
   \<not> fst (sessions_admit session pid (rounds_held b r relay rounds held))"
  by (induction b r relay rounds held rule: rounds_held.induct) (simp_all add: round_stays_refused)

lemma sessions_admit_once:
  "sessions_admit session pid held = (True, held') \<Longrightarrow> fst (sessions_admit session pid held') = False"
  by (auto simp: sessions_admit_def holds_session_def dest!: window_admits_once split: if_splits prod.splits option.splits)

text \<open>The message of a server's packet.\<close>

definition response_message :: "u64 \<Rightarrow> bytes \<Rightarrow> bytes \<Rightarrow> target \<Rightarrow> bytes \<Rightarrow> bytes" where
  "response_message stamp session pad t payload =
     PACKET_TO_CLIENT # be_bytes 8 (unat stamp) @ session @ (to_be_16 (of_nat (length pad)) @ pad) @ address_wire t @ payload"

lemma reader_vector_u16_at:
  assumes "reader_rest rd = (to_be_16 (of_nat (length x)) @ x) @ post" and "length x < 65536"
  shows "reader_vector_u16 rd = Some (x, rd\<lparr>rd_at := rd_at rd + length (to_be_16 (of_nat (length x)) @ x)\<rparr>)"
proof -
  have n: "unat (of_nat (length x) :: u16) = length x" using assms(2) by (simp add: unat_of_nat)
  have rest: "reader_rest rd = to_be_16 (of_nat (length x)) @ x @ post" using assms(1) by simp
  have "reader_rest (rd\<lparr>rd_at := rd_at rd + 2\<rparr>) = x @ post" using reader_rest_at [OF rest] by simp
  then show ?thesis
    using reader_u16_at [OF rest] reader_take_at [of "rd\<lparr>rd_at := rd_at rd + 2\<rparr>" x post] n
    by (simp add: reader_vector_u16_def)
qed

lemma decode_response_message:
  assumes "check_timestamp stamp now = Inr ()" and "length session = 8" and "length pad < 65536" and "target_ok t"
  shows "\<exists>at. decode_packet_response (response_message stamp session pad t payload) session now = Inr (t, at)
     \<and> drop at (response_message stamp session pad t payload) = payload"
proof -
  let ?m = "response_message stamp session pad t payload"
  let ?rd = "\<lambda>k. reader_new ?m\<lparr>rd_at := k\<rparr>"
  let ?pad = "to_be_16 (of_nat (length pad)) @ pad"
  have r0: "reader_rest (reader_new ?m) = PACKET_TO_CLIENT # be_bytes 8 (unat stamp) @ session @ ?pad @ address_wire t @ payload"
    by (simp add: reader_rest_def reader_new_def response_message_def del: be_bytes.simps)
  have r1: "reader_rest (?rd 1) = be_bytes 8 (unat stamp) @ session @ ?pad @ address_wire t @ payload"
    using reader_rest_at [of "reader_new ?m" "[PACKET_TO_CLIENT]"] r0 by (simp add: reader_new_def del: be_bytes.simps)
  have r2: "reader_rest (?rd 9) = session @ ?pad @ address_wire t @ payload"
    using reader_rest_at [OF r1] by (simp del: be_bytes.simps)
  have r3: "reader_rest (?rd 17) = ?pad @ address_wire t @ payload" using reader_rest_at [OF r2] assms(2) by simp
  have r4: "reader_rest (?rd (17 + length ?pad)) = address_wire t @ payload" using reader_rest_at [OF r3] by simp
  have "reader_u8 (reader_new ?m) = Some (PACKET_TO_CLIENT, ?rd 1)" using reader_u8_at [OF r0] by (simp add: reader_new_def)
  moreover have "reader_u64 (?rd 1) = Some (stamp, ?rd 9)" using reader_u64_at [OF r1] by simp
  moreover have "reader_array 8 (?rd 9) = Some (session, ?rd 17)"
    using reader_take_at [OF r2 assms(2)] by (simp add: reader_array_eq_take)
  moreover have "reader_vector_u16 (?rd 17) = Some (pad, ?rd (17 + length ?pad))"
    using reader_vector_u16_at [OF r3 assms(3)] by simp
  moreover have "drop (17 + length ?pad + length (address_wire t)) ?m = payload"
    using reader_rest_at [OF r4] by (simp add: reader_rest_def reader_new_def)
  ultimately show ?thesis
    using assms(1) r4 decode_encode_address [OF assms(4), of payload]
    by (auto simp: decode_packet_response_def reader_position_def)
qed

text \<open>
  C39. A server's packet is delivered, and once. Sealed in either packet format under a session and an identifier
  the window admits, with a timestamp within the allowed skew and the session of this association echoed, a datagram
  gives its payload and its source. Received again after any further rounds it is discarded, provided that through these
  rounds the window of its session is kept: no packet moves that window by exactly 64, and no packet of a session that is
  not held displaces it from the second slot.
\<close>

theorem packet_delivered_once:
  assumes "boring_ok b" and "fill_ok fill" and "target_ok t" and "length pad < 65536"
    and "length session = 8" and "length (pr_session relay) = 8" and "check_timestamp stamp now = Inr ()"
    and "cipher_seal b r fill (pr_cipher relay) session pid (response_message stamp (pr_session relay) pad t payload) g =
      (Inr datagram, g')"
    and "sessions_admit session pid held = (True, held')" and "length payload \<le> cap"
    and "rounds_keep b r relay session rounds held'"
  shows "recv_round b r relay cap now datagram held = (Some (Inr (payload, t)), held')
     \<and> fst (recv_round b r relay cap' now' datagram (rounds_held b r relay rounds held')) = None"
proof -
  let ?m = "response_message stamp (pr_session relay) pad t payload"
  have op: "cipher_open b r (pr_cipher relay) datagram = Inr \<lparr>op_session = session, op_packet_id = pid, op_message = ?m\<rparr>"
    by (rule open_seal [OF assms(1,2,5,8)])
  obtain at where at: "decode_packet_response ?m (pr_session relay) now = Inr (t, at)" "drop at ?m = payload"
    using decode_response_message [OF assms(7,6,4,3)] by blast
  have "length ?m - at = length payload" using at(2) by (metis length_drop)
  then have "recv_round b r relay cap now datagram held = (Some (Inr (payload, t)), held')"
    using op at assms(9,10) by (simp add: recv_round_def)
  moreover have "\<not> fst (sessions_admit session pid (rounds_held b r relay rounds held'))"
    using rounds_stay_refused sessions_admit_once [OF assms(9)] assms(11) by blast
  then have "fst (recv_round b r relay cap' now' datagram (rounds_held b r relay rounds held')) = None"
    using op by (auto simp: recv_round_def split: sum.split prod.split bool.split)
  ultimately show ?thesis ..
qed

text \<open>An instance: ciphers that change nothing, and a relay of the first packet format.\<close>

definition plain_boring :: "bytes boring" where
  "plain_boring = \<lparr>bo_ctx = (\<lambda>_ k. Some k), bo_seal = (\<lambda>_ _ p. Some (p, replicate 16 0)),
     bo_open = (\<lambda>_ _ c _. Some c), bo_block = (\<lambda>_ _ _ input. Some input)\<rparr>"

definition sample_relay :: "bytes packet_relay" where
  "sample_relay = \<lparr>pr_cipher = Separate sample_psk Aes128Ecb, pr_session = replicate 8 2, pr_next = 0\<rparr>"

definition sample_packet :: bytes where
  "sample_packet = (replicate 8 1 @ be_bytes 8 9) @ response_message 0 (replicate 8 2) [] (Ip (SocketV4 7 80)) [5] @ replicate 16 0"

lemma plain_boring_ok: "boring_ok plain_boring"
  by (simp add: boring_ok_def plain_boring_def TAG_def)

lemma sample_sealed:
  "cipher_seal plain_boring plain_ring zero_fill (pr_cipher sample_relay) (replicate 8 1) 9
     (response_message 0 (pr_session sample_relay) [] (Ip (SocketV4 7 80)) [5]) () = (Inr sample_packet, ())"
  by (simp add: cipher_seal_def cipher_aead_def cipher_block_def cipher_finish_def plain_boring_def sample_relay_def
      sample_packet_def SEPARATE_HEADER_def Let_def del: be_bytes.simps)

definition sample_other :: bytes where
  "sample_other = (replicate 8 3 @ be_bytes 8 4) @ response_message 0 (replicate 8 2) [] (Ip (SocketV4 7 80)) [6] @ replicate 16 0"

lemma sample_other_sealed:
  "cipher_seal plain_boring plain_ring zero_fill (pr_cipher sample_relay) (replicate 8 3) 4
     (response_message 0 (pr_session sample_relay) [] (Ip (SocketV4 7 80)) [6]) () = (Inr sample_other, ())"
  by (simp add: cipher_seal_def cipher_aead_def cipher_block_def cipher_finish_def plain_boring_def sample_relay_def
      sample_other_def SEPARATE_HEADER_def Let_def del: be_bytes.simps)

text \<open>A packet of another session comes between the two receptions.\<close>

theorem packet_delivered_once_witness:
  "\<exists>held. recv_round plain_boring plain_ring sample_relay 100 20 sample_packet (None, None) = (Some (Inr ([5], Ip (SocketV4 7 80))), held)
     \<and> fst (recv_round plain_boring plain_ring sample_relay 100 21 sample_packet
          (rounds_held plain_boring plain_ring sample_relay [(100, 20, sample_other)] held)) = None"
proof -
  obtain held where held: "sessions_admit (replicate 8 1) 9 (None, None) = (True, held)" "holds_session (replicate 8 1) (fst held)"
    by (simp add: sessions_admit_def holds_session_def window_admit_def window_default_def)
  have "cipher_open plain_boring plain_ring (pr_cipher sample_relay) sample_other = Inr \<lparr>op_session = replicate 8 3, op_packet_id = 4,
      op_message = response_message 0 (pr_session sample_relay) [] (Ip (SocketV4 7 80)) [6]\<rparr>"
    using open_seal [OF plain_boring_ok zero_fill_ok _ sample_other_sealed] by simp
  then have "rounds_keep plain_boring plain_ring sample_relay (replicate 8 1) [(100, 20, sample_other)] held"
    using held(2) by (simp add: round_packet_def session_kept_def split: sum.split)
  moreover have "target_ok (Ip (SocketV4 7 80))" "length ([] :: bytes) < 65536" "length (replicate 8 (1 :: u8)) = 8"
      "length (pr_session sample_relay) = 8" "check_timestamp 0 20 = Inr ()" "length [5 :: u8] \<le> 100"
    by (simp_all add: sample_relay_def check_timestamp_def CLOCK_SKEW_SECONDS_def)
  ultimately show ?thesis
    using packet_delivered_once [OF plain_boring_ok zero_fill_ok _ _ _ _ _ sample_sealed held(1)] by blast
qed

section \<open>The size of a packet\<close>

lemma sealed_length:
  assumes ok: "boring_ok b" "fill_ok fill" and session: "length session = 8"
    and sealed: "cipher_seal b r fill pc session pid message g = (Inr datagram, g')"
  shows "length datagram = (case pc of Separate _ _ \<Rightarrow> 32 | Merged _ \<Rightarrow> 56) + length message"
proof -
  let ?identity = "session @ be_bytes 8 (unat pid)"
  have len: "length ?identity = 16" using session by (simp del: be_bytes.simps)
  have finish: "length out + length tag = length front + TAG" if "cipher_finish b x nonce front at = Inr (out, tag)" for x nonce front at out tag
    using that by (auto simp: cipher_finish_def dest!: boring_seal [OF ok(1)] split: option.splits)
  show ?thesis
  proof (cases pc)
    case (Separate psk header)
    then show ?thesis
      using sealed boring_block [OF ok(1) _ len]
      by (auto simp: cipher_seal_def cipher_block_def TAG_def Let_def dest!: finish split: sum.splits prod.splits option.splits)
  next
    case (Merged x)
    then show ?thesis
      using sealed len fill_length [OF ok(2)]
      by (auto simp: cipher_seal_def MERGED_NONCE_def TAG_def Let_def dest!: finish split: sum.splits prod.splits option.splits)
  qed
qed

text \<open>
  C40. The size of what is sent: a packet to a target that takes no padding is its payload, its address and 43
  octets in the format with a separate header, 67 in the merged one. The advertised budget leaves room for 51
  octets of framing, so with the longest address a payload within it makes a packet of the merged format that is
  larger than the smallest link carries.
\<close>

theorem relay_datagram_size:
  assumes "boring_ok b" and "fill_ok fill" and "length (pr_session relay) = 8" and "target_port t \<noteq> DNS_PORT"
    and sent: "relay_send b r fill payload t now relay g = (Inr datagram, relay', g')"
  shows "length datagram = (case pr_cipher relay of Separate _ _ \<Rightarrow> 43 | Merged _ \<Rightarrow> 67) + length (address_wire t) + length payload
     \<and> (pr_cipher relay = Merged x \<and> length (address_wire t) = 259 \<and> length payload = unat MAX_PROXIED_DATAGRAM \<longrightarrow>
          unat MIN_IPV6_MTU - 48 < length datagram)"
proof -
  let ?m = "writer_bytes payload (encode_address t (writer_vector_u16 [] (writer_u64 now (writer_u8 PACKET_TO_SERVER []))))"
  have "cipher_seal b r fill (pr_cipher relay) (pr_session relay) (pr_next relay) ?m g = (Inr datagram, g')"
    using sent assms(4) by (auto simp: relay_send_def encode_packet_request_def padding_for_def split: prod.splits)
  then have "length datagram = (case pr_cipher relay of Separate _ _ \<Rightarrow> 32 | Merged _ \<Rightarrow> 56) + length ?m"
    by (rule sealed_length [OF assms(1-3)])
  moreover have "length ?m = 11 + length (address_wire t) + length payload"
    by (simp add: writer_bytes_def writer_vector_u16_def writer_u16_def writer_u64_def writer_u8_def encode_address_wire del: be_bytes.simps)
  moreover have "unat MAX_PROXIED_DATAGRAM = 922" "unat MIN_IPV6_MTU = 1280"
    by (simp_all add: MAX_PROXIED_DATAGRAM_def MIN_IPV6_MTU_def MERGED_NONCE_def TAG_def)
  ultimately show ?thesis by (auto split: packet_cipher.split)
qed

theorem relay_datagram_size_witness:
  "\<exists>datagram relay. relay_send plain_boring plain_ring zero_fill (replicate 922 0) (Domain (DomainName (replicate 255 97)) 80) 0
       \<lparr>pr_cipher = Merged [], pr_session = replicate 8 2, pr_next = 0\<rparr> () = (Inr datagram, relay, ())
     \<and> length datagram = 1248 \<and> unat MIN_IPV6_MTU - 48 < length datagram"
proof -
  let ?t = "Domain (DomainName (replicate 255 97)) 80"
  let ?relay = "\<lparr>pr_cipher = Merged [], pr_session = replicate 8 2, pr_next = 0\<rparr> :: bytes packet_relay"
  obtain datagram relay' where sent: "relay_send plain_boring plain_ring zero_fill (replicate 922 0) ?t 0 ?relay () = (Inr datagram, relay', ())"
    by (simp add: relay_send_def encode_packet_request_def padding_for_def DNS_PORT_def cipher_seal_def cipher_finish_def
        zero_fill_def plain_boring_def Let_def del: be_bytes.simps)
  have "length (address_wire ?t) = 259" "unat MAX_PROXIED_DATAGRAM = 922" "target_port ?t \<noteq> DNS_PORT" "length (pr_session ?relay) = 8"
    by (simp_all add: MAX_PROXIED_DATAGRAM_def MIN_IPV6_MTU_def MERGED_NONCE_def TAG_def DNS_PORT_def)
  then show ?thesis
    using sent relay_datagram_size [OF plain_boring_ok zero_fill_ok _ _ sent, of "[]"] by auto
qed

end
