(* ===== verification/Spec2Isabelle.thy ===== *)
theory Spec2Isabelle
  imports Demote Dispatch Dns_Cache Demux Vless Socks5 Shadowsocks_Udp
begin

text \<open>
  A verification of the engine of \<^verbatim>\<open>boreas-core\<close>, a network filter that sits between a device's tunnel
  interface and an egress. Packets of the device are admitted, planned, forwarded, answered or handed
  to local termination; DNS queries are intercepted, judged by a host policy and answered from a cache
  or an upstream; what leaves goes out over a proxy protocol.

  \<^bold>\<open>The parts and their theories.\<close> A theory models the files it names, each under \<^verbatim>\<open>src/src\<close>;
  definitions keep the names of the functions, with a prefix where two files use the same name.

  \<^item> Bytes: \<open>Prelude\<close> has the machine words, the arithmetic that checks and saturates, slices, hash maps as
    association lists and durations; \<open>Wire\<close> is \<^verbatim>\<open>wire.rs\<close>; \<open>Btree\<close> is the ordered map of the standard library
    as far as the deadline indices use it.
  \<^item> Packets: \<open>Net\<close> and \<open>Packet\<close> are \<^verbatim>\<open>l3/packet.rs\<close>, \<open>Path_Mtu\<close> is \<^verbatim>\<open>l3/path.rs\<close>, \<open>Fragments\<close> and
    \<open>Reassembly\<close> are \<^verbatim>\<open>l3/reassembly.rs\<close>, \<open>Flow_Table\<close> is \<^verbatim>\<open>l3/udp.rs\<close>.
  \<^item> Memory: \<open>Pool\<close> is \<^verbatim>\<open>pool.rs\<close> and \<open>Fifo\<close> is \<^verbatim>\<open>fifo.rs\<close>.
  \<^item> The core: \<open>Planning\<close> is the vocabulary of \<^verbatim>\<open>lib.rs\<close>; \<open>Datapath\<close> and \<open>Dispatch\<close> are \<^verbatim>\<open>datapath.rs\<close>, the state
    machine the shell drives, over the pool, the reassembler and the flow table.
  \<^item> DNS: \<open>Dns_Name\<close>, \<open>Dns_Message\<close>, \<open>Svc_Params\<close>, \<open>Host_Policy\<close>, \<open>Dns_Records\<close> and \<open>Dns_Response\<close> are
    \<^verbatim>\<open>policy/dns.rs\<close>; \<open>Dns_Cache\<close> is \<^verbatim>\<open>policy/cache.rs\<close>; \<open>Demux\<close> is \<^verbatim>\<open>policy/demux.rs\<close>.
  \<^item> Interception: \<open>Demote\<close> is \<^verbatim>\<open>policy/demote.rs\<close>, which remembers hosts whose interception failed.
  \<^item> Egress: \<open>Proxy_Target\<close> has the targets of \<^verbatim>\<open>egress/mod.rs\<close> and their SOCKS form; \<open>Sansio\<close> is \<^verbatim>\<open>sansio.rs\<close>, the
    driver of a negotiation and the stream that reads and writes through a codec; \<open>Socks5\<close>, \<open>Vless\<close>,
    \<open>Shadowsocks\<close> and \<open>Shadowsocks_Udp\<close> are the protocols of the same names.

  \<^bold>\<open>State and effects.\<close> A struct is a record, an enum a data type, a fallible function returns a sum with the
  error on the left, and a method that changes its receiver returns it. Integers keep their width where
  they can wrap. A mutex or an atomic is the state behind it, and each critical section is one
  step. Buffers of the pool are dropped where Rust drops them. Instants and durations are natural
  numbers of nanoseconds. Code of other crates is an argument: the packet parser and ICMP builder of
  \<open>etherparse\<close>, the variable-length integers of \<open>octets\<close>, ciphers and key derivation, random numbers, clocks and the
  streams of the I/O library. What is relied on of it is a hypothesis with a name, such as
  \<open>ring_ok\<close>, and the witness of a theorem that has one gives an instance.

  \<^bold>\<open>Interfaces.\<close> The locales are the contracts between the parts: \<open>bounded_memo\<close> (the memo the cache is built on),
  \<open>lazy_expiry\<close> and \<open>exact_expiry\<close> (tables with deadlines), \<open>prefix_decoder\<close> (a decoder whose answer does not
  change when more bytes arrive), \<open>negotiation\<close> (a handshake that can be offered its input in pieces) and \<open>framing\<close> (a
  codec). Each is interpreted on the definitions of the model that provide it: the client's facts are proved
  once, for every negotiation and every codec.

  \<^bold>\<open>What is shown.\<close>
  \<^item> Safety of the core: every pool buffer is accounted for in every reachable state; an unfragmented DNS query over UDP
    never leaves while interception is on; QUIC to an inspected address is dropped; inspection windows open and close
    on time; re-planning tears down exactly the flows that lost their layer; the packet entry points return.
  \<^item> Packets: every checksum written is valid, clamping changes only the option and the checksum, fragments in any
    order give the datagram, overlapping fragments never do, expiry is exact or off by a bounded amount.
  \<^item> DNS: names decode to valid names and print back, rewritten replies parse to what the policy names and carry no
    ECH or HTTP/3 parameter for an inspected host, an exception or else the longest rule decides, a cached reply is the latest one within its
    lifetime, a delivered reply answers the caller's question.
  \<^item> Proxies: a negotiation gives the same result however the network cuts the bytes, and reading a stream to its end
    returns exactly what was sent; datagrams are delivered as they were sent, and the replay window decides as a
    complete record would.
  \<^item> Where the code does not do what it means to, the theorem says what it does:
    \<open>next_deadline_late\<close>, \<open>path_change_drops_terminated\<close>, \<open>window_replay\<close>, \<open>relay_datagram_size\<close>.

  \<^bold>\<open>Loops.\<close> Loops are recursive functions with termination proofs. Three may run on: the read of a framed stream, the
  search for a free identifier and the dispatch of a reassembled datagram are partial functions with \<open>None\<close> for not
  returning; that they return is proved (\<open>poll_read_returns\<close> for a stream that gives data finitely often,
  \<open>admission_fresh\<close>, \<open>entry_points_return\<close>). So is that the reader of a whole stream, \<open>read_to_end\<close>, comes to an
  end (\<open>vless_stream_reads\<close>, \<open>shadowsocks_stream_reads\<close>). No fuel is used.

  \<^bold>\<open>Not modelled.\<close> The shell around the core (\<^verbatim>\<open>host\<close>, \<^verbatim>\<open>live.rs\<close>, \<^verbatim>\<open>idle.rs\<close>, \<^verbatim>\<open>bridge.rs\<close>, \<^verbatim>\<open>deadline.rs\<close>), the
  local termination of TCP (\<^verbatim>\<open>l4\<close>) and the interception of TLS and HTTP (\<^verbatim>\<open>intercept\<close>) wire together tasks, sockets and
  the state machines of other crates (tokio, smoltcp, rustls, BoringSSL, hyper, h2, lol_html); the resolvers of
  \<^verbatim>\<open>policy/upstream.rs\<close>, the transports and the QUIC, MASQUE, Hysteria 2 and WireGuard egresses do the same with quiche and
  GotaTun. The compiler of filter lists, \<^verbatim>\<open>policy/filter.rs\<close>, is text handling on the string methods of the standard
  library and their Unicode tables. The rule engine of \<^verbatim>\<open>policy/rules.rs\<close> is the adblock crate. The public interface (\<^verbatim>\<open>api.rs\<close>, \<^verbatim>\<open>ffi\<close>) parses
  configuration and owns tasks; \<^verbatim>\<open>xtask\<close> is the release tool.
\<close>

end
